(* ===== verification/Js_Prelude.thy ===== *)
theory Js_Prelude
  imports Main "HOL-Library.AList" "HOL-Library.Multiset" "HOL-Library.Char_ord"
begin

text \<open>
  The part of JavaScript that the scripts under \<^verbatim>\<open>src/html/js\<close> use, shared by all
  components: values (\<open>js\<close>), truthiness, plain objects as association lists in insertion
  order, the string functions of the standard library, and the effects a script has on the page,
  the daemon and the browser (\<open>eff\<close>), in the order the code performs them.

  Numbers are \<open>int\<close>: the scripts compute with post ids, Unix times, counts and sizes only. The
  one fractional quantity, \<^verbatim>\<open>new Date().getTime() / 1000\<close>, is a rational. Strings are lists of
  characters, one for each code unit.
\<close>

named_theorems js_simps \<open>unfolding rules of the string and object operations\<close>

section \<open>Values\<close>

datatype js =
    JUndef
  | JNull
  | JBool bool
  | JNum int
  | JStr string
  | JArr "js list"
  | JObj "(string \<times> js) list"

text \<open>The conversion to a boolean in \<^verbatim>\<open>if (x)\<close>, \<^verbatim>\<open>!x\<close> and \<^verbatim>\<open>x ? a : b\<close>.\<close>

fun truthy :: "js \<Rightarrow> bool" where
  "truthy JUndef = False"
| "truthy JNull = False"
| "truthy (JBool b) = b"
| "truthy (JNum n) = (n \<noteq> 0)"
| "truthy (JStr s) = (s \<noteq> [])"
| "truthy (JArr xs) = True"
| "truthy (JObj m) = True"

section \<open>Plain objects\<close>

text \<open>
  \<^verbatim>\<open>m[k]\<close> is \<open>oget\<close>, \<^verbatim>\<open>m.hasOwnProperty(k)\<close> (and \<^verbatim>\<open>k in m\<close> on an object literal used as a
  map) is \<open>ohas\<close>, \<^verbatim>\<open>m[k] = v\<close> is \<open>oset\<close> and \<^verbatim>\<open>delete m[k]\<close> is \<open>odel\<close>. A new key goes to the
  end, an existing one keeps its place: \<^verbatim>\<open>for (k in m)\<close> enumerates in this order.
\<close>

type_synonym 'v obj = "(string \<times> 'v) list"

abbreviation oget :: "'v obj \<Rightarrow> string \<Rightarrow> 'v option" where
  "oget m k \<equiv> map_of m k"

definition ohas :: "'v obj \<Rightarrow> string \<Rightarrow> bool" where
  "ohas m k = (map_of m k \<noteq> None)"

abbreviation oset :: "'v obj \<Rightarrow> string \<Rightarrow> 'v \<Rightarrow> 'v obj" where
  "oset m k v \<equiv> AList.update k v m"

abbreviation odel :: "'v obj \<Rightarrow> string \<Rightarrow> 'v obj" where
  "odel m k \<equiv> AList.delete k m"

abbreviation okeys :: "'v obj \<Rightarrow> string list" where
  "okeys m \<equiv> map fst m"

lemma ohas_iff: "ohas m k \<longleftrightarrow> k \<in> set (okeys m)"
  by (auto simp: ohas_def map_of_eq_None_iff)

lemma oget_oset: "oget (oset m k v) k' = (if k' = k then Some v else oget m k')"
  by (simp add: update_conv')

lemma oget_odel: "oget (odel m k) k' = (if k' = k then None else oget m k')"
  by (auto simp: delete_conv')

lemma okeys_oset_new: "k \<notin> set (okeys m) \<Longrightarrow> okeys (oset m k v) = okeys m @ [k]"
  by (induction m) auto

lemma okeys_oset_old: "k \<in> set (okeys m) \<Longrightarrow> okeys (oset m k v) = okeys m"
  by (induction m) auto

lemma okeys_oset: "okeys (oset m k v) = (if k \<in> set (okeys m) then okeys m else okeys m @ [k])"
  by (simp add: okeys_oset_new okeys_oset_old)

lemma oset_new: "k \<notin> fst ` set m \<Longrightarrow> oset m k v = m @ [(k, v)]"
  by (induction m) auto

lemma fst_set_oset [simp]: "fst ` set (oset m k v) = insert k (fst ` set m)"
  by (induction m) auto

lemma fst_set_odel [simp]: "fst ` set (odel m k) = fst ` set m - {k}"
  by (induction m) auto

lemma okeys_odel: "okeys (odel m k) = filter (\<lambda>k'. k' \<noteq> k) (okeys m)"
  by (induction m) (auto simp: AList.delete_eq)

lemma distinct_okeys_oset [simp, intro]: "distinct (okeys m) \<Longrightarrow> distinct (okeys (oset m k v))"
  by (auto simp: okeys_oset)

lemma distinct_okeys_odel [simp, intro]: "distinct (okeys m) \<Longrightarrow> distinct (okeys (odel m k))"
  by (simp add: okeys_odel)

lemma oget_in_okeys: "oget m k = Some v \<Longrightarrow> k \<in> set (okeys m)"
  by (metis map_of_eq_None_iff option.distinct(1) set_map)

lemma okeys_oget: "k \<in> set (okeys m) \<Longrightarrow> \<exists>v. oget m k = Some v"
  by (metis map_of_eq_None_iff not_None_eq set_map)

lemma oset_collapse [simp]: "oset (oset m k v) k w = oset m k w"
  by (induction m) auto

lemma list_all_oset:
  "list_all P m \<Longrightarrow> P (k, v) \<Longrightarrow> list_all P (oset m k v)"
  by (induction m) auto

lemma list_all_odel: "list_all P m \<Longrightarrow> list_all P (odel m k)"
  by (induction m) auto

lemma list_all_oget: "list_all P m \<Longrightarrow> oget m k = Some v \<Longrightarrow> P (k, v)"
  by (metis list_all_iff map_of_SomeD)

section \<open>Strings\<close>

text \<open>\<^verbatim>\<open>s.split(c)\<close> with a one-character separator.\<close>

fun js_split :: "char \<Rightarrow> string \<Rightarrow> string list" where
  "js_split c [] = [[]]"
| "js_split c (x # xs) =
     (if x = c then [] # js_split c xs
      else (case js_split c xs of [] \<Rightarrow> [[x]] | p # ps \<Rightarrow> (x # p) # ps))"

text \<open>\<^verbatim>\<open>parts.join(sep)\<close>.\<close>

fun js_join :: "string \<Rightarrow> string list \<Rightarrow> string" where
  "js_join sep [] = []"
| "js_join sep [p] = p"
| "js_join sep (p # q # ps) = p @ sep @ js_join sep (q # ps)"

lemma js_split_ne [simp]: "js_split c s \<noteq> []"
  by (induction s) (auto split: list.splits)

lemma js_split_nosep: "c \<notin> set s \<Longrightarrow> js_split c s = [s]"
  by (induction s) auto

lemma js_split_append: "c \<notin> set p \<Longrightarrow> js_split c (p @ c # s) = p # js_split c s"
  by (induction p) auto

text \<open>\<^verbatim>\<open>s.indexOf(p)\<close>, the place of the first occurrence (\<open>None\<close> for -1).\<close>

fun js_indexOf :: "string \<Rightarrow> string \<Rightarrow> nat option" where
  "js_indexOf [] p = (if p = [] then Some 0 else None)"
| "js_indexOf (c # s) p =
     (if take (length p) (c # s) = p then Some 0 else map_option Suc (js_indexOf s p))"

lemma js_indexOf_prefix: "js_indexOf (p @ s) p = Some 0"
  by (cases "p @ s") (auto simp del: take_append, metis append_eq_conv_conj)

lemma js_indexOf_skip:
  "h \<notin> set b \<Longrightarrow> js_indexOf (b @ (h # p) @ s) (h # p) = Some (length b)"
  by (induction b) auto

lemma js_indexOf_some: "js_indexOf s p = Some i \<Longrightarrow> \<exists>a b. s = a @ p @ b \<and> length a = i"
proof (induction s arbitrary: i)
  case (Cons c s)
  show ?case
  proof (cases "take (length p) (c # s) = p")
    case True
    with Cons.prems show ?thesis by (metis append_Nil append_take_drop_id js_indexOf.simps(2)
          list.size(3) option.inject)
  next
    case False
    with Cons.prems obtain j where "js_indexOf s p = Some j" "i = Suc j" by auto
    with Cons.IH obtain a b where "s = a @ p @ b" "length a = j" by blast
    with \<open>i = Suc j\<close> have "c # s = (c # a) @ p @ b" "length (c # a) = i" by simp_all
    then show ?thesis by blast
  qed
qed (auto split: if_splits)

lemma js_indexOf_occurs: "js_indexOf (a @ p @ b) p \<noteq> None"
proof (induction a)
  case Nil
  then show ?case by (simp add: js_indexOf_prefix)
qed auto

lemma js_indexOf_infix: "js_indexOf (x @ y @ z) p = None \<Longrightarrow> js_indexOf y p = None"
proof (rule ccontr)
  assume "js_indexOf y p \<noteq> None" and none: "js_indexOf (x @ y @ z) p = None"
  then obtain a b where "y = a @ p @ b" using js_indexOf_some by blast
  then have "x @ y @ z = (x @ a) @ p @ (b @ z)" by simp
  with none show False using js_indexOf_occurs [of "x @ a" p "b @ z"] by simp
qed

text \<open>\<^verbatim>\<open>s.replace(p, r)\<close> with a string pattern: only the first occurrence is replaced.\<close>

definition replace_first :: "string \<Rightarrow> string \<Rightarrow> string \<Rightarrow> string" where
  "replace_first p r s = (case js_indexOf s p of
     None \<Rightarrow> s | Some i \<Rightarrow> take i s @ r @ drop (i + length p) s)"

lemma js_indexOf_char_none: "js_indexOf s [c] = None \<longleftrightarrow> c \<notin> set s"
  by (induction s) auto

lemma js_indexOf_hd: "c \<notin> set s \<Longrightarrow> js_indexOf s (c # p) = None"
  by (induction s) auto

lemma replace_first_absent: "c \<notin> set s \<Longrightarrow> replace_first (c # p) r s = s"
  by (simp add: replace_first_def js_indexOf_hd)

text \<open>\<^verbatim>\<open>String(n)\<close> and \<^verbatim>\<open>n.toString()\<close> for an integer.\<close>

definition digit_char :: "nat \<Rightarrow> char" where
  "digit_char d = char_of (48 + d)"

fun str_of_nat :: "nat \<Rightarrow> string" where
  "str_of_nat n = (if n < 10 then [digit_char n] else str_of_nat (n div 10) @ [digit_char (n mod 10)])"

declare str_of_nat.simps [simp del]

definition str_of_int :: "int \<Rightarrow> string" where
  "str_of_int n = (if n < 0 then CHR ''-'' # str_of_nat (nat (- n)) else str_of_nat (nat n))"

definition is_digit :: "char \<Rightarrow> bool" where
  "is_digit c = (48 \<le> (of_char c :: nat) \<and> (of_char c :: nat) \<le> 57)"

definition digit_val :: "char \<Rightarrow> nat" where
  "digit_val c = of_char c - 48"

fun nat_of_digits :: "nat \<Rightarrow> string \<Rightarrow> nat" where
  "nat_of_digits acc [] = acc"
| "nat_of_digits acc (c # cs) = nat_of_digits (10 * acc + digit_val c) cs"

lemma digit_char_props [simp]:
  assumes "d < 10"
  shows "is_digit (digit_char d)" and "digit_val (digit_char d) = d"
  using assms by (simp_all add: digit_char_def is_digit_def digit_val_def)

lemma str_of_nat_digits: "list_all is_digit (str_of_nat n)"
  by (induction n rule: str_of_nat.induct) (subst str_of_nat.simps, simp)

lemma str_of_nat_ne [simp]: "str_of_nat n \<noteq> []" "[] \<noteq> str_of_nat n"
  by (subst str_of_nat.simps, simp)+

lemma nat_of_digits_append:
  "nat_of_digits acc (xs @ ys) = nat_of_digits (nat_of_digits acc xs) ys"
  by (induction xs arbitrary: acc) auto

lemma nat_of_str_of_nat: "nat_of_digits 0 (str_of_nat n) = n"
proof (induction n rule: str_of_nat.induct)
  case (1 n)
  then show ?case
    by (subst str_of_nat.simps) (auto simp: nat_of_digits_append)
qed

lemma str_of_nat_inj: "str_of_nat m = str_of_nat n \<longleftrightarrow> m = n"
  by (metis nat_of_str_of_nat)

section \<open>Exceptions and property access\<close>

datatype js_error = TypeErr | RefErr string | Thrown string

type_synonym 'a result = "js_error + 'a"

text \<open>Sequencing: an exception ends the computation.\<close>

fun rbind :: "'a result \<Rightarrow> ('a \<Rightarrow> 'b result) \<Rightarrow> 'b result" where
  "rbind (Inl e) f = Inl e"
| "rbind (Inr x) f = f x"

lemma rbind_Inr_iff: "rbind r f = Inr y \<longleftrightarrow> (\<exists>x. r = Inr x \<and> f x = Inr y)"
  by (cases r) auto

text \<open>
  \<^verbatim>\<open>x.k\<close> and \<^verbatim>\<open>k in x\<close> for a property the code defines itself (not \<^verbatim>\<open>length\<close> or a method of a
  built-in prototype).
\<close>

fun js_prop :: "js \<Rightarrow> string \<Rightarrow> js result" where
  "js_prop JUndef k = Inl TypeErr"
| "js_prop JNull k = Inl TypeErr"
| "js_prop (JObj m) k = Inr (case oget m k of None \<Rightarrow> JUndef | Some v \<Rightarrow> v)"
| "js_prop x k = Inr JUndef"

fun js_in :: "string \<Rightarrow> js \<Rightarrow> bool result" where
  "js_in k (JObj m) = Inr (ohas m k)"
| "js_in k (JArr xs) = Inr False"
| "js_in k x = Inl TypeErr"

section \<open>Effects\<close>

text \<open>
  What a script does outside its own variables. \<open>Dom sel op args\<close> is the jQuery call
  \<^verbatim>\<open>$(sel).op(args)\<close> made for its effect; \<open>Rpc m ps\<close> is \<^verbatim>\<open>twisterRpc(m, ps, ...)\<close>, whose two
  handlers are definitions of their own; \<open>Nav\<close> assigns \<^verbatim>\<open>window.location.href\<close>; \<open>MobileCall\<close> is a
  call on \<^verbatim>\<open>$.mobile\<close>; \<open>Timer f ms\<close> is \<^verbatim>\<open>setTimeout\<close> or \<^verbatim>\<open>setInterval\<close>; \<open>Call f args\<close> invokes a
  function passed in by the caller, or starts an operation of another component.
\<close>

datatype eff =
    Rpc string "js list"
  | Dom string string "js list"
  | Alert string
  | Log string
  | Nav string
  | MobileCall string "js list"
  | Timer string int
  | Call string "js list"

type_synonym effs = "eff list"

end
