(* ===== verification/Twister_Io.thy ===== *)
theory Twister_Io
  imports Js_Prelude
begin

text \<open>
  \<^verbatim>\<open>twister_io.js\<close>: requests of DHT resources. Concurrent requests for the same resource (the same
  \<^emph>\<open>locator\<close>) are joined in \<open>dhtgetPendingMap\<close>, at most \<open>maxDhtgets\<close> requests are meant to be with
  the daemon, and further locators wait in \<open>queuedDhtgets\<close>.

  A response runs the callbacks registered for its locator synchronously, and a callback may call
  \<open>dhtget\<close> again (\<^verbatim>\<open>requestPostRecursively\<close> does): the private variables of the script can change
  while \<^verbatim>\<open>dhtgetProcessPending\<close> iterates over them. A callback is therefore modelled by the
  requests it issues when it is invoked, each with a callback of its own. A registered callback is
  invoked at most once, so a list is enough: it is what that one invocation does to the script.

  \<open>outstanding\<close> (the requests the browser has sent and the daemon has not answered), \<open>registered\<close>
  and \<open>invoked\<close> are records of what happens outside the script; no function reads them.
\<close>

section \<open>Data\<close>

text \<open>An element of a \<^verbatim>\<open>dhtget\<close> response: \<^verbatim>\<open>ret[i].p.v\<close>, \<^verbatim>\<open>ret[i].p.seq\<close>, \<^verbatim>\<open>ret[i].p.time\<close> and
  \<^verbatim>\<open>ret[i].sig_user\<close>.\<close>

record dht_item =
  p_v :: js
  p_seq :: int
  p_time :: int
  sig_user :: string

datatype callback = Callback (cb_id: nat) (cb_reqs: "dhtreq list")
and dhtreq = Dhtreq string string string "js list option" callback

text \<open>The arguments a callback got: \<^verbatim>\<open>cbFunc(cbArg, call_value, call_raw)\<close>.\<close>

record invocation =
  call_locator :: string
  call_id :: nat
  call_value :: js
  call_raw :: "dht_item list option"

text \<open>A request sent to the daemon, with the arguments its two handlers close over.\<close>

record rpc_request =
  rpc_locator :: string
  rpc_multi :: string
  rpc_params :: "js list"

record io_state =
  dhtgetPendingMap :: "callback list obj"
  dhtgetsInProgress :: int
  queuedDhtgets :: "string list"
  lastHaveMap :: "int obj"
  outstanding :: "rpc_request list"
  registered :: "(string \<times> nat) list"
  invoked :: "invocation list"

definition io_init :: io_state where
  "io_init = \<lparr>dhtgetPendingMap = [], dhtgetsInProgress = 0, queuedDhtgets = [], lastHaveMap = [],
     outstanding = [], registered = [], invoked = []\<rparr>"

definition maxDhtgets :: int where
  "maxDhtgets = 5"

section \<open>Operations\<close>

definition dhtgetLocator :: "string \<Rightarrow> string \<Rightarrow> string \<Rightarrow> string" where
  "dhtgetLocator username resource multi = username @ '';'' @ resource @ '';'' @ multi"

definition dhtgetAddPending :: "string \<Rightarrow> callback \<Rightarrow> io_state \<Rightarrow> io_state" where
  "dhtgetAddPending locator cb st =
     (let m = dhtgetPendingMap st;
          m' = (if ohas m locator then m else oset m locator [])
      in st\<lparr>dhtgetPendingMap := oset m' locator (the (oget m' locator) @ [cb]),
            registered := registered st @ [(locator, cb_id cb)]\<rparr>)"

definition dhtgetInternal ::
    "string \<Rightarrow> string \<Rightarrow> string \<Rightarrow> js list option \<Rightarrow> io_state \<Rightarrow> io_state" where
  "dhtgetInternal username resource multi timeoutArgs st =
     (let locator = dhtgetLocator username resource multi;
          argsList = [JStr username, JStr resource, JStr multi];
          argsList' = (case timeoutArgs of None \<Rightarrow> argsList | Some ts \<Rightarrow> argsList @ ts)
      in st\<lparr>dhtgetsInProgress := dhtgetsInProgress st + 1,
            outstanding := outstanding st @
              [\<lparr>rpc_locator = locator, rpc_multi = multi, rpc_params = argsList'\<rparr>]\<rparr>)"

definition dhtget ::
    "string \<Rightarrow> string \<Rightarrow> string \<Rightarrow> callback \<Rightarrow> js list option \<Rightarrow> io_state \<Rightarrow> io_state" where
  "dhtget username resource multi cb timeoutArgs st =
     (let locator = dhtgetLocator username resource multi
      in if ohas (dhtgetPendingMap st) locator then dhtgetAddPending locator cb st
         else let st1 = dhtgetAddPending locator cb st
              in if dhtgetsInProgress st1 < maxDhtgets
                 then dhtgetInternal username resource multi timeoutArgs st1
                 else st1\<lparr>queuedDhtgets := queuedDhtgets st1 @ [locator]\<rparr>)"

text \<open>Invoking a callback: it is called with its arguments and issues its own requests.\<close>

fun issue :: "dhtreq \<Rightarrow> io_state \<Rightarrow> io_state" where
  "issue (Dhtreq u r m t cb) st = dhtget u r m cb t st"

definition invoke :: "string \<Rightarrow> callback \<Rightarrow> js \<times> dht_item list option \<Rightarrow> io_state \<Rightarrow> io_state" where
  "invoke locator cb args st = fold issue (cb_reqs cb)
     (st\<lparr>invoked := invoked st @ [\<lparr>call_locator = locator, call_id = cb_id cb,
        call_value = fst args, call_raw = snd args\<rparr>]\<rparr>)"

lemma dhtget_pending:
  "oget (dhtgetPendingMap (dhtget u r m cb t st)) l =
     (if l = dhtgetLocator u r m
      then Some ((case oget (dhtgetPendingMap st) l of None \<Rightarrow> [] | Some cs \<Rightarrow> cs) @ [cb])
      else oget (dhtgetPendingMap st) l)"
  by (auto simp: dhtget_def dhtgetAddPending_def dhtgetInternal_def Let_def ohas_def oget_oset
      split: option.splits)

fun req_locator :: "dhtreq \<Rightarrow> string" where
  "req_locator (Dhtreq u r m t cb) = dhtgetLocator u r m"

fun req_cb :: "dhtreq \<Rightarrow> callback" where
  "req_cb (Dhtreq u r m t cb) = cb"

lemma issues_pending:
  "oget (dhtgetPendingMap st) l = Some cs \<Longrightarrow>
   oget (dhtgetPendingMap (fold issue rs st)) l =
     Some (cs @ map req_cb (filter (\<lambda>q. req_locator q = l) rs))"
proof (induction rs arbitrary: st cs)
  case (Cons q rs)
  then show ?case by (cases q) (auto simp: dhtget_pending)
qed simp

text \<open>Every callback weighs more than all the callbacks it registers: the loops below end.\<close>

primrec cb_weight :: "callback \<Rightarrow> nat" and req_weight :: "dhtreq \<Rightarrow> nat" where
  "cb_weight (Callback n rs) = Suc (sum_list (map req_weight rs))"
| "req_weight (Dhtreq u r m t cb) = cb_weight cb"

lemma cb_weight_eq: "cb_weight cb = Suc (sum_list (map (\<lambda>q. cb_weight (req_cb q)) (cb_reqs cb)))"
proof -
  have "req_weight = (\<lambda>q. cb_weight (req_cb q))"
  proof
    fix q show "req_weight q = cb_weight (req_cb q)" by (cases q) simp
  qed
  then show ?thesis by (cases cb) simp
qed

lemma sum_list_filter_le: "sum_list (map f (filter P xs)) \<le> sum_list (map (f :: 'a \<Rightarrow> nat) xs)"
  by (induction xs) auto

text \<open>
  The loop of \<^verbatim>\<open>dhtgetProcessPending\<close> and \<^verbatim>\<open>dhtgetAbortPending\<close>: index \<open>i\<close>, the bound
  \<^verbatim>\<open>dhtgetPendingMap[locator].length\<close> read again in every round. \<open>nxt\<close> computes the arguments of
  the next callback from the accumulator \<open>multiret\<close>.
\<close>

function pendingLoop ::
    "string \<Rightarrow> (js list \<Rightarrow> (js \<times> dht_item list option) \<times> js list) \<Rightarrow> nat \<Rightarrow> js list \<Rightarrow>
     io_state \<Rightarrow> io_state" where
  "pendingLoop locator nxt i multiret st =
     (case oget (dhtgetPendingMap st) locator of
        None \<Rightarrow> st
      | Some cbs \<Rightarrow>
          if i < length cbs
          then pendingLoop locator nxt (Suc i) (snd (nxt multiret))
                 (invoke locator (cbs ! i) (fst (nxt multiret)) st)
          else st)"
  by pat_completeness auto
termination
proof (relation "measure (\<lambda>(l, nxt, i, mr, st). sum_list (map cb_weight
    (drop i (case oget (dhtgetPendingMap st) l of None \<Rightarrow> [] | Some cs \<Rightarrow> cs))))", goal_cases)
  case (2 l nxt i mr st cbs)
  let ?rs = "cb_reqs (cbs ! i)"
  let ?new = "map req_cb (filter (\<lambda>q. req_locator q = l) ?rs)"
  let ?st = "invoke l (cbs ! i) (fst (nxt mr)) st"
  from 2 have pend: "oget (dhtgetPendingMap ?st) l = Some (cbs @ ?new)"
    unfolding invoke_def by (intro issues_pending) simp
  have "sum_list (map cb_weight ?new) < cb_weight (cbs ! i)"
    using sum_list_filter_le [of "\<lambda>q. cb_weight (req_cb q)" "\<lambda>q. req_locator q = l" ?rs]
    by (subst cb_weight_eq [of "cbs ! i"]) (simp add: o_def less_Suc_eq_le)
  moreover from 2 have "drop i cbs = cbs ! i # drop (Suc i) cbs"
    by (simp add: Cons_nth_drop_Suc)
  ultimately show ?case using 2 pend by simp
qed simp

declare pendingLoop.simps [simp del]

lemma pendingLoop_stop:
  "oget (dhtgetPendingMap st) l = Some cs \<Longrightarrow> length cs \<le> i \<Longrightarrow> pendingLoop l nxt i mr st = st"
  by (simp add: pendingLoop.simps)

lemma pendingLoop_next:
  "oget (dhtgetPendingMap st) l = Some cs \<Longrightarrow> i < length cs \<Longrightarrow>
   pendingLoop l nxt i mr st =
     pendingLoop l nxt (Suc i) (snd (nxt mr)) (invoke l (cs ! i) (fst (nxt mr)) st)"
  by (simp add: pendingLoop.simps [of l nxt i mr st])

definition processArgs ::
    "string \<Rightarrow> dht_item list \<Rightarrow> js list \<Rightarrow> (js \<times> dht_item list option) \<times> js list" where
  "processArgs multi ret multiret =
     (if multi = ''s''
      then (case ret of x # _ \<Rightarrow> ((p_v x, Some ret), multiret) | [] \<Rightarrow> ((JNull, None), multiret))
      else let multiret' = multiret @ map p_v ret in ((JArr multiret', Some ret), multiret'))"

definition dhtgetProcessPending ::
    "string \<Rightarrow> string \<Rightarrow> dht_item list \<Rightarrow> io_state \<Rightarrow> io_state" where
  "dhtgetProcessPending locator multi ret st =
     (if ohas (dhtgetPendingMap st) locator
      then let st1 = pendingLoop locator (processArgs multi ret) 0 [] st
           in st1\<lparr>dhtgetPendingMap := odel (dhtgetPendingMap st1) locator\<rparr>
      else st)"

definition dhtgetAbortPending :: "string \<Rightarrow> io_state \<Rightarrow> io_state" where
  "dhtgetAbortPending locator st =
     (if ohas (dhtgetPendingMap st) locator
      then let st1 = pendingLoop locator (\<lambda>mr. ((JNull, None), mr)) 0 [] st
           in st1\<lparr>dhtgetPendingMap := odel (dhtgetPendingMap st1) locator\<rparr>
      else st)"

text \<open>
  The end of both handlers: \<^verbatim>\<open>queuedDhtgets.pop().split(";")\<close>, and the request for the first three
  parts. A queued locator has at least two separators, so the parts are there.
\<close>

definition dhtgetDequeue :: "io_state \<Rightarrow> io_state" where
  "dhtgetDequeue st =
     (if queuedDhtgets st = [] then st
      else let locatorSplit = js_split (CHR '';'') (last (queuedDhtgets st));
               st1 = st\<lparr>queuedDhtgets := butlast (queuedDhtgets st)\<rparr>
           in (case locatorSplit of
                 a # b # c # _ \<Rightarrow> dhtgetInternal a b c None st1
               | _ \<Rightarrow> st1))"

text \<open>The success and error handlers that \<^verbatim>\<open>dhtgetInternal\<close> passes to \<^verbatim>\<open>twisterRpc\<close>.\<close>

definition dhtgetSuccess :: "rpc_request \<Rightarrow> dht_item list \<Rightarrow> io_state \<Rightarrow> io_state" where
  "dhtgetSuccess req ret st =
     dhtgetDequeue (dhtgetProcessPending (rpc_locator req) (rpc_multi req) ret
       (st\<lparr>dhtgetsInProgress := dhtgetsInProgress st - 1\<rparr>))"

definition dhtgetError :: "rpc_request \<Rightarrow> io_state \<Rightarrow> io_state" where
  "dhtgetError req st =
     dhtgetDequeue (dhtgetAbortPending (rpc_locator req)
       (st\<lparr>dhtgetsInProgress := dhtgetsInProgress st - 1\<rparr>))"

end
