(* ===== verification/Dhtget_Protocol.thy ===== *)
theory Dhtget_Protocol
  imports Twister_Io
begin

text \<open>
  The DHT request machinery of \<^verbatim>\<open>twister_io.js\<close> as a protocol between the page's scripts and the
  daemon: a step is a call of \<^verbatim>\<open>dhtget\<close>, a successful response or a failed one, in any order.
  \<open>io_inv\<close> relates the pending map, the queue, the counter and the outstanding requests. Locators
  are well formed when no part holds the separator; \<open>io_reachable_inv\<close> and what follows assume it,
  and the last section shows what happens without.
\<close>

section \<open>Well-formed requests\<close>

definition no_semi :: "string \<Rightarrow> bool" where
  "no_semi s = (CHR '';'' \<notin> set s)"

primrec cb_ok :: "callback \<Rightarrow> bool" and req_ok :: "dhtreq \<Rightarrow> bool" where
  "cb_ok (Callback n rs) = list_all (\<lambda>b. b) (map req_ok rs)"
| "req_ok (Dhtreq u r m t cb) = (no_semi u \<and> no_semi r \<and> no_semi m \<and> cb_ok cb)"

lemma cb_ok_iff: "cb_ok cb \<longleftrightarrow> list_all req_ok (cb_reqs cb)"
  by (cases cb) (simp add: list.pred_map o_def)

definition wf_locator :: "string \<Rightarrow> bool" where
  "wf_locator l = (case js_split (CHR '';'') l of
     [a, b, c] \<Rightarrow> dhtgetLocator a b c = l | _ \<Rightarrow> False)"

lemma split_dhtgetLocator:
  "no_semi u \<Longrightarrow> no_semi r \<Longrightarrow> no_semi m \<Longrightarrow>
   js_split (CHR '';'') (dhtgetLocator u r m) = [u, r, m]"
  by (simp add: dhtgetLocator_def no_semi_def js_split_append js_split_nosep)

lemma wf_dhtgetLocator: "no_semi u \<Longrightarrow> no_semi r \<Longrightarrow> no_semi m \<Longrightarrow> wf_locator (dhtgetLocator u r m)"
  by (simp add: wf_locator_def split_dhtgetLocator)

lemma wf_locatorE:
  assumes "wf_locator l"
  obtains a b c where "js_split (CHR '';'') l = [a, b, c]" "dhtgetLocator a b c = l"
  using assms by (auto simp: wf_locator_def split: list.splits)

section \<open>The invariant\<close>

text \<open>
  \<open>act\<close> is the locator whose response is being processed: its request is no longer outstanding
  and its entry is still in the map. Between two events there is none.
\<close>

definition locators :: "string list \<Rightarrow> io_state \<Rightarrow> string list" where
  "locators act st = act @ map rpc_locator (outstanding st) @ queuedDhtgets st"

fun entry_ok :: "string \<times> callback list \<Rightarrow> bool" where
  "entry_ok (l, cs) = (cs \<noteq> [] \<and> list_all cb_ok cs)"

definition io_inv :: "string list \<Rightarrow> io_state \<Rightarrow> bool" where
  "io_inv act st \<longleftrightarrow>
     length act \<le> 1 \<and>
     distinct (okeys (dhtgetPendingMap st)) \<and>
     distinct (locators act st) \<and>
     set (locators act st) = set (okeys (dhtgetPendingMap st)) \<and>
     dhtgetsInProgress st = int (length (outstanding st)) \<and>
     (queuedDhtgets st \<noteq> [] \<longrightarrow> maxDhtgets \<le> dhtgetsInProgress st + int (length act)) \<and>
     dhtgetsInProgress st + int (length act) \<le> maxDhtgets + 1 \<and>
     list_all wf_locator (okeys (dhtgetPendingMap st)) \<and>
     list_all entry_ok (dhtgetPendingMap st)"

lemma dhtgetAddPending_frame [simp]:
  "outstanding (dhtgetAddPending l cb st) = outstanding st"
  "queuedDhtgets (dhtgetAddPending l cb st) = queuedDhtgets st"
  "dhtgetsInProgress (dhtgetAddPending l cb st) = dhtgetsInProgress st"
  "invoked (dhtgetAddPending l cb st) = invoked st"
  "lastHaveMap (dhtgetAddPending l cb st) = lastHaveMap st"
  by (simp_all add: dhtgetAddPending_def Let_def)

lemma dhtgetAddPending_okeys:
  "okeys (dhtgetPendingMap (dhtgetAddPending l cb st)) =
     (if ohas (dhtgetPendingMap st) l then okeys (dhtgetPendingMap st)
      else okeys (dhtgetPendingMap st) @ [l])"
  by (simp add: dhtgetAddPending_def Let_def okeys_oset ohas_iff)

lemma dhtgetAddPending_keys [simp]:
  "fst ` set (dhtgetPendingMap (dhtgetAddPending l cb st)) =
     insert l (fst ` set (dhtgetPendingMap st))"
  by (simp add: dhtgetAddPending_def Let_def)

lemma dhtgetAddPending_all:
  assumes "list_all entry_ok (dhtgetPendingMap st)" and "cb_ok cb"
  shows "list_all entry_ok (dhtgetPendingMap (dhtgetAddPending l cb st))"
proof (cases "oget (dhtgetPendingMap st) l")
  case None
  with assms show ?thesis
    by (simp add: dhtgetAddPending_def Let_def ohas_def oget_oset list_all_oset)
next
  case (Some cs)
  from list_all_oget [OF assms(1) Some] have "list_all cb_ok cs" by simp
  with Some assms show ?thesis
    by (simp add: dhtgetAddPending_def Let_def ohas_def list_all_oset)
qed

lemma dhtget_inv:
  assumes inv: "io_inv act st" and ok: "req_ok (Dhtreq u r m t cb)"
  shows "io_inv act (dhtget u r m cb t st)"
proof -
  let ?l = "dhtgetLocator u r m"
  from ok have wf: "wf_locator ?l" and cb: "cb_ok cb" by (auto intro: wf_dhtgetLocator)
  have all: "list_all entry_ok (dhtgetPendingMap (dhtgetAddPending ?l cb st))"
    using inv cb by (intro dhtgetAddPending_all) (simp_all add: io_inv_def)
  show ?thesis
  proof (cases "ohas (dhtgetPendingMap st) ?l")
    case True
    with inv all show ?thesis
      by (auto simp: dhtget_def Let_def io_inv_def locators_def dhtgetAddPending_okeys ohas_iff)
  next
    case False
    then have new: "?l \<notin> set (okeys (dhtgetPendingMap st))" by (simp add: ohas_iff)
    then have fresh: "?l \<notin> set (locators act st)" using inv by (simp add: io_inv_def)
    show ?thesis
      using inv all wf new fresh False
      by (auto simp: dhtget_def Let_def io_inv_def locators_def dhtgetAddPending_okeys
          dhtgetInternal_def maxDhtgets_def)
  qed
qed

lemma issue_inv: "io_inv act st \<Longrightarrow> req_ok q \<Longrightarrow> io_inv act (issue q st)"
  by (cases q) (simp add: dhtget_inv del: req_ok.simps)

lemma issues_inv: "io_inv act st \<Longrightarrow> list_all req_ok rs \<Longrightarrow> io_inv act (fold issue rs st)"
  by (induction rs arbitrary: st) (auto simp: issue_inv)

lemma io_inv_invoked [simp]: "io_inv act (st\<lparr>invoked := xs\<rparr>) = io_inv act st"
  by (simp add: io_inv_def locators_def)

lemma invoke_inv: "io_inv act st \<Longrightarrow> cb_ok cb \<Longrightarrow> io_inv act (invoke l cb args st)"
  by (simp add: invoke_def issues_inv cb_ok_iff)

lemma pendingLoop_inv: "io_inv act st \<Longrightarrow> io_inv act (pendingLoop l nxt i mr st)"
proof (induction l nxt i mr st rule: pendingLoop.induct)
  case (1 l nxt i mr st)
  show ?case
  proof (cases "oget (dhtgetPendingMap st) l")
    case None
    with 1 show ?thesis by (simp add: pendingLoop.simps)
  next
    case (Some cbs)
    with "1.prems" have "list_all cb_ok cbs"
      by (auto simp: io_inv_def dest: list_all_oget)
    with 1 Some show ?thesis
      by (simp add: pendingLoop.simps [of l nxt i mr st] invoke_inv list_all_length)
  qed
qed

lemma odel_inv:
  assumes "io_inv [l] st"
  shows "let st' = st\<lparr>dhtgetPendingMap := odel (dhtgetPendingMap st) l\<rparr> in
    io_inv [] (dhtgetDequeue st')"
proof -
  let ?st = "st\<lparr>dhtgetPendingMap := odel (dhtgetPendingMap st) l\<rparr>"
  note i = assms [unfolded io_inv_def locators_def]
  from i have all: "list_all entry_ok (dhtgetPendingMap ?st)"
    by (simp add: list_all_odel)
  from i have wf: "list_all wf_locator (okeys (dhtgetPendingMap ?st))"
    by (auto simp: list_all_iff)
  from i have keys: "set (okeys (dhtgetPendingMap ?st)) =
      set (map rpc_locator (outstanding st) @ queuedDhtgets st)"
    by auto
  show ?thesis
  proof (cases "queuedDhtgets st = []")
    case True
    with i all wf keys show ?thesis
      by (simp add: io_inv_def locators_def dhtgetDequeue_def)
  next
    case False
    define q where "q = butlast (queuedDhtgets st)"
    define k where "k = last (queuedDhtgets st)"
    from False have q: "queuedDhtgets st = q @ [k]" by (simp add: q_def k_def)
    with keys wf have "wf_locator k" by (auto simp: list_all_iff)
    then obtain a b c where "js_split (CHR '';'') k = [a, b, c]" "dhtgetLocator a b c = k"
      by (rule wf_locatorE)
    with q i all wf keys show ?thesis
      by (auto simp: io_inv_def locators_def dhtgetDequeue_def dhtgetInternal_def Let_def)
  qed
qed

section \<open>Steps and reachable states\<close>

text \<open>
  An event is a request made by a script of the page, or the answer to one of the outstanding
  requests, in any order.
\<close>

inductive io_answer :: "io_state \<Rightarrow> io_state \<Rightarrow> bool" where
  response: "outstanding st = xs @ req # ys \<Longrightarrow>
     io_answer st (dhtgetSuccess req ret (st\<lparr>outstanding := xs @ ys\<rparr>))"
| failure: "outstanding st = xs @ req # ys \<Longrightarrow>
     io_answer st (dhtgetError req (st\<lparr>outstanding := xs @ ys\<rparr>))"

inductive io_reachable :: "io_state \<Rightarrow> bool" where
  start: "io_reachable io_init"
| request: "io_reachable st \<Longrightarrow> req_ok q \<Longrightarrow> io_reachable (issue q st)"
| answer: "io_reachable st \<Longrightarrow> io_answer st st' \<Longrightarrow> io_reachable st'"

lemma io_inv_init: "io_inv [] io_init"
  by (simp add: io_inv_def io_init_def locators_def maxDhtgets_def)

lemma answer_inv:
  assumes inv: "io_inv [] st" and out: "outstanding st = xs @ req # ys"
  defines "st1 \<equiv> st\<lparr>outstanding := xs @ ys, dhtgetsInProgress := dhtgetsInProgress st - 1\<rparr>"
  shows "io_inv [rpc_locator req] st1" and "ohas (dhtgetPendingMap st1) (rpc_locator req)"
  using inv out by (auto simp: io_inv_def locators_def st1_def ohas_iff)

lemma dhtgetSuccess_inv:
  assumes "io_inv [] st" and "outstanding st = xs @ req # ys"
  shows "io_inv [] (dhtgetSuccess req ret (st\<lparr>outstanding := xs @ ys\<rparr>))"
  using answer_inv [OF assms]
    odel_inv [OF pendingLoop_inv, of "rpc_locator req" _ "rpc_locator req"]
  by (simp add: dhtgetSuccess_def dhtgetProcessPending_def Let_def)

lemma dhtgetError_inv:
  assumes "io_inv [] st" and "outstanding st = xs @ req # ys"
  shows "io_inv [] (dhtgetError req (st\<lparr>outstanding := xs @ ys\<rparr>))"
  using answer_inv [OF assms]
    odel_inv [OF pendingLoop_inv, of "rpc_locator req" _ "rpc_locator req"]
  by (simp add: dhtgetError_def dhtgetAbortPending_def Let_def)

lemma io_answer_inv: "io_answer st st' \<Longrightarrow> io_inv [] st \<Longrightarrow> io_inv [] st'"
  by (induction rule: io_answer.induct) (auto intro: dhtgetSuccess_inv dhtgetError_inv)

lemma io_reachable_inv: "io_reachable st \<Longrightarrow> io_inv [] st"
  by (induction rule: io_reachable.induct) (auto intro: io_inv_init issue_inv io_answer_inv)

end
