(* ===== verification/Dhtget_Ledger.thy ===== *)
theory Dhtget_Ledger
  imports Dhtget_Protocol
begin

text \<open>
  Accounting over the pending map of \<^verbatim>\<open>twister_io.js\<close>: every registered callback is either pending
  or has been invoked, never both and never twice, and every answer from the daemon strictly
  lowers the weight of what is pending. Both are sums over the map (\<open>tally\<close>), with values in
  multisets and in \<open>nat\<close>.
\<close>

section \<open>Sums over the pending map\<close>

definition tally :: "(string \<Rightarrow> callback \<Rightarrow> 'a::comm_monoid_add) \<Rightarrow> callback list obj \<Rightarrow> 'a" where
  "tally f m = sum_list (map (\<lambda>(l, cs). sum_list (map (f l) cs)) m)"

lemma tally_simps [simp]:
  "tally f [] = 0"
  "tally f ((l, cs) # m) = sum_list (map (f l) cs) + tally f m"
  by (simp_all add: tally_def)

lemma tally_append:
  "oget m k = Some cs \<Longrightarrow> tally f (oset m k (cs @ [c])) = tally f m + f k c"
  by (induction m) (auto simp: ac_simps split: if_splits)

lemma tally_new: "oget m k = None \<Longrightarrow> tally f (oset m k [c]) = tally f m + f k c"
  by (induction m) (auto simp: ac_simps split: if_splits)

lemma tally_odel:
  "distinct (okeys m) \<Longrightarrow> oget m k = Some cs \<Longrightarrow>
   tally f m = tally f (odel m k) + sum_list (map (f k) cs)"
proof (induction m)
  case (Cons p m)
  show ?case
  proof (cases "fst p = k")
    case True
    with Cons.prems have "odel m k = m" by auto
    with True Cons.prems show ?thesis by (cases p) (auto simp: ac_simps)
  next
    case False
    with Cons show ?thesis by (cases p) (auto simp: ac_simps)
  qed
qed simp

lemma tally_dhtgetAddPending:
  "tally f (dhtgetPendingMap (dhtgetAddPending l cb st)) =
     tally f (dhtgetPendingMap st) + f l cb"
proof (cases "oget (dhtgetPendingMap st) l")
  case None
  then show ?thesis by (simp add: dhtgetAddPending_def Let_def ohas_def oget_oset tally_new)
next
  case (Some cs)
  then show ?thesis by (simp add: dhtgetAddPending_def Let_def ohas_def tally_append)
qed

lemma tally_issue:
  "tally f (dhtgetPendingMap (issue q st)) =
     tally f (dhtgetPendingMap st) + f (req_locator q) (req_cb q)"
  by (cases q) (simp add: dhtget_def Let_def dhtgetInternal_def tally_dhtgetAddPending)

lemma tally_issues:
  "tally f (dhtgetPendingMap (fold issue rs st)) =
     tally f (dhtgetPendingMap st) + sum_list (map (\<lambda>q. f (req_locator q) (req_cb q)) rs)"
  by (induction rs arbitrary: st) (auto simp: tally_issue ac_simps)

section \<open>Every callback is invoked exactly once\<close>

definition call_of :: "invocation \<Rightarrow> string \<times> nat" where
  "call_of c = (call_locator c, call_id c)"

definition pending_calls :: "io_state \<Rightarrow> (string \<times> nat) multiset" where
  "pending_calls st = tally (\<lambda>l c. {#(l, cb_id c)#}) (dhtgetPendingMap st)"

text \<open>The first \<open>i\<close> callbacks of \<open>l\<close> have been invoked and are still in the map.\<close>

definition balanced :: "string \<Rightarrow> callback list \<Rightarrow> io_state \<Rightarrow> bool" where
  "balanced l done st \<longleftrightarrow>
     mset (registered st) + mset (map (\<lambda>c. (l, cb_id c)) done) =
     mset (map call_of (invoked st)) + pending_calls st"

lemma issue_registered:
  "registered (issue q st) = registered st @ [(req_locator q, cb_id (req_cb q))]"
  by (cases q) (simp add: dhtget_def dhtgetInternal_def dhtgetAddPending_def Let_def)

lemma issue_invoked [simp]: "invoked (issue q st) = invoked st"
  by (cases q) (simp add: dhtget_def dhtgetInternal_def Let_def)

lemma issues_invoked [simp]: "invoked (fold issue rs st) = invoked st"
  by (induction rs arbitrary: st) auto

lemma issue_balanced: "balanced l done st \<Longrightarrow> balanced l done (issue q st)"
  by (simp add: balanced_def pending_calls_def tally_issue issue_registered)

lemma issues_balanced: "balanced l done st \<Longrightarrow> balanced l done (fold issue rs st)"
  by (induction rs arbitrary: st) (auto simp: issue_balanced)

lemma invoke_balanced:
  assumes "balanced l done st"
  shows "balanced l (done @ [cb]) (invoke l cb args st)"
proof -
  have "balanced l (done @ [cb]) (st\<lparr>invoked := invoked st @ [\<lparr>call_locator = l, call_id = cb_id cb,
      call_value = fst args, call_raw = snd args\<rparr>]\<rparr>)"
    using assms by (simp add: balanced_def pending_calls_def call_of_def)
  then show ?thesis unfolding invoke_def by (rule issues_balanced)
qed

lemma invoke_pending:
  "oget (dhtgetPendingMap st) l = Some cs \<Longrightarrow>
   oget (dhtgetPendingMap (invoke l cb args st)) l =
     Some (cs @ map req_cb (filter (\<lambda>q. req_locator q = l) (cb_reqs cb)))"
  unfolding invoke_def by (intro issues_pending) simp

lemma pendingLoop_balanced:
  "oget (dhtgetPendingMap st) l = Some cs \<Longrightarrow> i \<le> length cs \<Longrightarrow> balanced l (take i cs) st \<Longrightarrow>
   \<exists>cs'. oget (dhtgetPendingMap (pendingLoop l nxt i mr st)) l = Some cs' \<and>
         balanced l cs' (pendingLoop l nxt i mr st)"
proof (induction l nxt i mr st arbitrary: cs rule: pendingLoop.induct)
  case (1 l nxt i mr st)
  show ?case
  proof (cases "i < length cs")
    case True
    let ?new = "map req_cb (filter (\<lambda>q. req_locator q = l) (cb_reqs (cs ! i)))"
    let ?st = "invoke l (cs ! i) (fst (nxt mr)) st"
    have "oget (dhtgetPendingMap ?st) l = Some (cs @ ?new)"
      using "1.prems"(1) by (rule invoke_pending)
    moreover have "balanced l (take (Suc i) (cs @ ?new)) ?st"
      using invoke_balanced [OF "1.prems"(3)] True by (simp add: take_Suc_conv_app_nth)
    moreover have "Suc i \<le> length (cs @ ?new)" using True by simp
    ultimately show ?thesis
      using "1.IH" [OF "1.prems"(1) True] True "1.prems"(1)
      by (simp add: pendingLoop_next [OF "1.prems"(1) True])
  next
    case False
    with "1.prems" show ?thesis by (simp add: pendingLoop_stop)
  qed
qed

lemma odel_balanced:
  assumes "distinct (okeys (dhtgetPendingMap st))" and "oget (dhtgetPendingMap st) l = Some cs"
    and "balanced l cs st"
  shows "balanced k [] (st\<lparr>dhtgetPendingMap := odel (dhtgetPendingMap st) l\<rparr>)"
proof -
  have "sum_list (map (\<lambda>c. {#(l, cb_id c)#}) cs) = mset (map (\<lambda>c. (l, cb_id c)) cs)"
    by (induction cs) auto
  with tally_odel [OF assms(1,2), of "\<lambda>l c. {#(l, cb_id c)#}"] assms(3) show ?thesis
    by (simp add: balanced_def pending_calls_def)
qed

lemma dhtgetDequeue_frame [simp]:
  "dhtgetPendingMap (dhtgetDequeue st) = dhtgetPendingMap st"
  "registered (dhtgetDequeue st) = registered st"
  "invoked (dhtgetDequeue st) = invoked st"
  by (simp_all add: dhtgetDequeue_def dhtgetInternal_def Let_def split: list.splits)

lemma answer_balanced:
  fixes nxt :: "js list \<Rightarrow> (js \<times> dht_item list option) \<times> js list"
  assumes inv: "io_inv [] st" and out: "outstanding st = xs @ req # ys" and bal: "balanced k [] st"
  defines "st1 \<equiv> st\<lparr>outstanding := xs @ ys, dhtgetsInProgress := dhtgetsInProgress st - 1\<rparr>"
  defines "st2 \<equiv> pendingLoop (rpc_locator req) nxt 0 [] st1"
  shows "balanced k [] (st2\<lparr>dhtgetPendingMap := odel (dhtgetPendingMap st2) (rpc_locator req)\<rparr>)"
proof -
  let ?l = "rpc_locator req"
  have has: "ohas (dhtgetPendingMap st1) ?l" and inv1: "io_inv [?l] st1"
    unfolding st1_def using answer_inv [OF inv out] by simp_all
  then obtain cs where cs: "oget (dhtgetPendingMap st1) ?l = Some cs"
    by (auto simp: ohas_def)
  from bal have "balanced ?l (take 0 cs) st1"
    by (simp add: balanced_def pending_calls_def st1_def)
  from pendingLoop_balanced [OF cs _ this, of nxt "[]"] obtain cs'
    where "oget (dhtgetPendingMap st2) ?l = Some cs'" "balanced ?l cs' st2"
    unfolding st2_def by auto
  moreover have "distinct (okeys (dhtgetPendingMap st2))"
    using pendingLoop_inv [OF inv1] unfolding st2_def by (auto simp: io_inv_def)
  ultimately show ?thesis by (intro odel_balanced)
qed

lemma io_answer_balanced:
  assumes "io_answer st st'" and "io_inv [] st" and "balanced k [] st"
  shows "balanced k [] st'"
  using assms
proof (induction rule: io_answer.induct)
  case (response st xs req ys ret)
  then show ?case
    using answer_balanced [OF response(2,1,3), of "processArgs (rpc_multi req) ret"]
      answer_inv(2) [OF response(2,1)]
    by (simp add: dhtgetSuccess_def dhtgetProcessPending_def Let_def balanced_def pending_calls_def)
next
  case (failure st xs req ys)
  then show ?case
    using answer_balanced [OF failure(2,1,3), of "\<lambda>mr. ((JNull, None), mr)"]
      answer_inv(2) [OF failure(2,1)]
    by (simp add: dhtgetError_def dhtgetAbortPending_def Let_def balanced_def pending_calls_def)
qed

lemma io_reachable_balanced: "io_reachable st \<Longrightarrow> balanced k [] st"
proof (induction rule: io_reachable.induct)
  case start
  show ?case by (simp add: balanced_def pending_calls_def io_init_def)
qed (auto intro: issue_balanced io_answer_balanced io_reachable_inv)

section \<open>Every answer lowers what is pending\<close>

definition pending_weight :: "io_state \<Rightarrow> nat" where
  "pending_weight st = tally (\<lambda>l. cb_weight) (dhtgetPendingMap st)"

lemma invoke_weight:
  "pending_weight (invoke l cb args st) + 1 = pending_weight st + cb_weight cb"
  by (simp add: invoke_def pending_weight_def tally_issues cb_weight_eq [of cb])

lemma pendingLoop_weight:
  "oget (dhtgetPendingMap st) l = Some cs \<Longrightarrow> i \<le> length cs \<Longrightarrow>
   \<exists>cs'. oget (dhtgetPendingMap (pendingLoop l nxt i mr st)) l = Some cs' \<and>
     pending_weight (pendingLoop l nxt i mr st) + sum_list (map cb_weight (take i cs)) +
       (if i < length cs then 1 else 0) \<le> pending_weight st + sum_list (map cb_weight cs')"
proof (induction l nxt i mr st arbitrary: cs rule: pendingLoop.induct)
  case (1 l nxt i mr st)
  show ?case
  proof (cases "i < length cs")
    case True
    let ?new = "map req_cb (filter (\<lambda>q. req_locator q = l) (cb_reqs (cs ! i)))"
    let ?st = "invoke l (cs ! i) (fst (nxt mr)) st"
    have "oget (dhtgetPendingMap ?st) l = Some (cs @ ?new)"
      using "1.prems"(1) by (rule invoke_pending)
    moreover have "Suc i \<le> length (cs @ ?new)" using True by simp
    ultimately have "\<exists>cs'. oget (dhtgetPendingMap (pendingLoop l nxt i mr st)) l = Some cs' \<and>
       pending_weight (pendingLoop l nxt i mr st) + sum_list (map cb_weight (take (Suc i) (cs @ ?new)))
         \<le> pending_weight ?st + sum_list (map cb_weight cs')"
      unfolding pendingLoop_next [OF "1.prems"(1) True]
      using "1.IH" [OF "1.prems"(1) True] by (meson add_leD1)
    then show ?thesis
      using True invoke_weight [of l "cs ! i" "fst (nxt mr)" st]
      by (auto simp: take_Suc_conv_app_nth)
  next
    case False
    with "1.prems" show ?thesis by (simp add: pendingLoop_stop)
  qed
qed

lemma answer_weight:
  fixes nxt :: "js list \<Rightarrow> (js \<times> dht_item list option) \<times> js list"
  assumes inv: "io_inv [] st" and out: "outstanding st = xs @ req # ys"
  defines "st1 \<equiv> st\<lparr>outstanding := xs @ ys, dhtgetsInProgress := dhtgetsInProgress st - 1\<rparr>"
  defines "st2 \<equiv> pendingLoop (rpc_locator req) nxt 0 [] st1"
  shows "pending_weight (st2\<lparr>dhtgetPendingMap := odel (dhtgetPendingMap st2) (rpc_locator req)\<rparr>)
    < pending_weight st"
proof -
  let ?l = "rpc_locator req"
  have has: "ohas (dhtgetPendingMap st1) ?l" and inv1: "io_inv [?l] st1"
    unfolding st1_def using answer_inv [OF inv out] by simp_all
  then obtain cs where cs: "oget (dhtgetPendingMap st1) ?l = Some cs"
    by (auto simp: ohas_def)
  with inv1 have "cs \<noteq> []" by (auto simp: io_inv_def dest: list_all_oget)
  with pendingLoop_weight [OF cs, of 0 nxt "[]"] obtain cs'
    where cs': "oget (dhtgetPendingMap st2) ?l = Some cs'"
      and "pending_weight st2 < pending_weight st1 + sum_list (map cb_weight cs')"
    unfolding st2_def by auto
  moreover have "distinct (okeys (dhtgetPendingMap st2))"
    using pendingLoop_inv [OF inv1] unfolding st2_def by (auto simp: io_inv_def)
  from tally_odel [OF this cs', of "\<lambda>l. cb_weight"]
  have "pending_weight st2 = tally (\<lambda>l. cb_weight) (odel (dhtgetPendingMap st2) ?l) +
      sum_list (map cb_weight cs')" by (simp add: pending_weight_def)
  ultimately show ?thesis by (simp add: pending_weight_def st1_def)
qed

lemma io_answer_weight:
  assumes "io_answer st st'" and "io_inv [] st"
  shows "pending_weight st' < pending_weight st"
  using assms
proof (induction rule: io_answer.induct)
  case (response st xs req ys ret)
  then show ?case
    using answer_weight [OF response(2,1), of "processArgs (rpc_multi req) ret"]
      answer_inv(2) [OF response(2,1)]
    by (simp add: dhtgetSuccess_def dhtgetProcessPending_def Let_def pending_weight_def)
next
  case (failure st xs req ys)
  then show ?case
    using answer_weight [OF failure(2,1), of "\<lambda>mr. ((JNull, None), mr)"]
      answer_inv(2) [OF failure(2,1)]
    by (simp add: dhtgetError_def dhtgetAbortPending_def Let_def pending_weight_def)
qed

lemma answers_weight:
  "(io_answer ^^ n) st st' \<Longrightarrow> io_inv [] st \<Longrightarrow>
   io_inv [] st' \<and> n + pending_weight st' \<le> pending_weight st"
proof (induction n arbitrary: st')
  case (Suc n)
  then obtain s where s: "(io_answer ^^ n) st s" "io_answer s st'" by auto
  with Suc have "io_inv [] s" "n + pending_weight s \<le> pending_weight st" by auto
  with s(2) show ?case using io_answer_weight io_answer_inv by fastforce
qed simp

lemma answers_reachable: "(io_answer ^^ n) st st' \<Longrightarrow> io_reachable st \<Longrightarrow> io_reachable st'"
  by (induction n arbitrary: st') (auto intro: io_reachable.answer)

lemma outstanding_answer: "outstanding st \<noteq> [] \<Longrightarrow> \<exists>st'. io_answer st st'"
  by (metis append_Nil io_answer.failure list.exhaust)

lemma idle_all_called:
  assumes "io_reachable st" and "outstanding st = []"
  shows "dhtgetPendingMap st = []" and "mset (map call_of (invoked st)) = mset (registered st)"
proof -
  from io_reachable_inv [OF assms(1)] assms(2) show "dhtgetPendingMap st = []"
    by (auto simp: io_inv_def locators_def maxDhtgets_def)
  with io_reachable_balanced [OF assms(1), of "[]"]
  show "mset (map call_of (invoked st)) = mset (registered st)"
    by (simp add: balanced_def pending_calls_def)
qed

end
