(* ===== verification/Json_Rpc.thy ===== *)
theory Json_Rpc
  imports Js_Prelude
begin

text \<open>
  \<^verbatim>\<open>jquery.jsonrpcclient.js\<close>: JSON-RPC calls over HTTP or a web socket. A call takes a success and
  an error callback; the handlers below return which of them they run, in order, and with what
  argument (\<open>hcall\<close>). \<open>throws\<close> tells for which arguments the caller's callback raises, since the
  code wraps some invocations in \<^verbatim>\<open>try\<close>.
\<close>

section \<open>Requests\<close>

datatype hcall = SuccessCb js | ErrorCb js

definition rpc_object :: "string \<Rightarrow> js \<Rightarrow> int option \<Rightarrow> js" where
  "rpc_object meth params i = JObj ([(''jsonrpc'', JStr ''2.0''), (''method'', JStr meth),
     (''params'', params)] @ (case i of None \<Rightarrow> [] | Some n \<Rightarrow> [(''id'', JNum n)]))"

text \<open>
  A web socket: its \<^verbatim>\<open>readyState\<close> (0 connecting, 1 open, 2 closing, 3 closed), its \<^verbatim>\<open>onopen\<close> handler
  (the request it will send) and what has been sent on it.
\<close>

record socket =
  readyState :: nat
  onopen :: "js option"
  sent :: "js list"

text \<open>
  A client: its options and its counters. \<open>wsCallbacks\<close> maps a request id to the callbacks of the
  call, here a name chosen by the caller.
\<close>

record rpc_client =
  ajaxUrl :: "string option"
  socketUrl :: "string option"
  authUser :: "string option"
  wsSocket :: "socket option"
  wsCallbacks :: "(int \<times> nat) list"
  currentId :: int

definition new_client :: "string option \<Rightarrow> string option \<Rightarrow> string option \<Rightarrow> rpc_client" where
  "new_client ajax sock user = \<lparr>ajaxUrl = ajax, socketUrl = sock, authUser = user,
     wsSocket = None, wsCallbacks = [], currentId = 1\<rparr>"

text \<open>The default \<^verbatim>\<open>getSocket\<close>: the socket of the client, replaced when it is dying.\<close>

definition getSocket :: "bool \<Rightarrow> rpc_client \<Rightarrow> socket option \<times> rpc_client" where
  "getSocket hasWebSocket c =
     (if socketUrl c = None \<or> \<not> hasWebSocket then (None, c)
      else (case wsSocket c of
         Some s \<Rightarrow>
           if readyState s > 1
           then let n = \<lparr>readyState = 0, onopen = None, sent = []\<rparr> in (Some n, c\<lparr>wsSocket := Some n\<rparr>)
           else (Some s, c)
       | None \<Rightarrow>
           let n = \<lparr>readyState = 0, onopen = None, sent = []\<rparr> in (Some n, c\<lparr>wsSocket := Some n\<rparr>)))"

text \<open>
  \<^verbatim>\<open>_wsCall\<close>: on a socket that is still connecting, the request becomes \<^emph>\<open>the\<close> \<^verbatim>\<open>onopen\<close> handler.
  The callbacks are stored under the id when there is one and a success callback was given.
\<close>

definition wsCall :: "socket \<Rightarrow> js \<Rightarrow> int option \<Rightarrow> nat option \<Rightarrow> rpc_client \<Rightarrow> rpc_client" where
  "wsCall s request i cb c =
     (let s' = (if readyState s < 1 then s\<lparr>onopen := Some request\<rparr>
                else s\<lparr>sent := sent s @ [request]\<rparr>);
          c' = c\<lparr>wsSocket := Some s'\<rparr>
      in (case (i, cb) of
            (Some n, Some k) \<Rightarrow> c'\<lparr>wsCallbacks := AList.update n k (wsCallbacks c')\<rparr>
          | _ \<Rightarrow> c'))"

text \<open>The browser opens a connecting socket: its \<^verbatim>\<open>onopen\<close> handler runs.\<close>

definition wsOpened :: "rpc_client \<Rightarrow> rpc_client" where
  "wsOpened c = (case wsSocket c of None \<Rightarrow> c
     | Some s \<Rightarrow> c\<lparr>wsSocket := Some (s\<lparr>readyState := 1,
         sent := sent s @ (case onopen s of None \<Rightarrow> [] | Some r \<Rightarrow> [r])\<rparr>)\<rparr>)"

text \<open>
  \<^verbatim>\<open>call\<close>: the request goes over the socket if there is one, else over HTTP; with neither, it throws.
  The result is the HTTP request to make (\<open>None\<close> when the socket took it).
\<close>

definition rpc_call :: "bool \<Rightarrow> string \<Rightarrow> js \<Rightarrow> nat \<Rightarrow> rpc_client \<Rightarrow>
    (js option \<times> rpc_client) result" where
  "rpc_call hasWS meth params cb c =
     (let request = rpc_object meth params (Some (currentId c));
          i = currentId c;
          c1 = c\<lparr>currentId := currentId c + 1\<rparr>;
          (sock, c2) = getSocket hasWS c1
      in (case sock of
            Some s \<Rightarrow> Inr (None, wsCall s request (Some i) (Some cb) c2)
          | None \<Rightarrow>
              if ajaxUrl c2 = None
              then Inl (Thrown ''$.JsonRpcClient.call used with no websocket and no http endpoint.'')
              else Inr (Some request, c2)))"

text \<open>
  \<^verbatim>\<open>notify\<close> has no id and no callbacks. On the HTTP path its \<^verbatim>\<open>beforeSend\<close> handler reads a variable
  \<^verbatim>\<open>options\<close> that is not in scope.
\<close>

definition rpc_notify :: "bool \<Rightarrow> string \<Rightarrow> js \<Rightarrow> rpc_client \<Rightarrow> (js option \<times> rpc_client) result" where
  "rpc_notify hasWS meth params c =
     (let request = rpc_object meth params None;
          (sock, c1) = getSocket hasWS c
      in (case sock of
            Some s \<Rightarrow> Inr (None, wsCall s request None None c1)
          | None \<Rightarrow>
              if ajaxUrl c1 = None
              then Inl (Thrown ''$.JsonRpcClient.notify used with no websocket and no http endpoint.'')
              else Inl (RefErr ''options'')))"

section \<open>HTTP answers\<close>

text \<open>
  The \<^verbatim>\<open>success\<close> handler of \<^verbatim>\<open>$.ajax\<close>, for the parsed body of a 2xx response. An exception of the error
  callback leaves the handler.
\<close>

definition ajaxSuccess :: "(js \<Rightarrow> bool) \<Rightarrow> js \<Rightarrow> hcall list result" where
  "ajaxSuccess throws data = (case js_in ''error'' data of
     Inl e \<Rightarrow> Inl e
   | Inr b \<Rightarrow>
       (case (js_prop data ''error'', js_prop data ''result'') of
          (Inr e, Inr r) \<Rightarrow>
            Inr (if b then (if throws e then [ErrorCb e] else [ErrorCb e, SuccessCb r])
                 else [SuccessCb r])
        | _ \<Rightarrow> Inl TypeErr))"

text \<open>
  The \<^verbatim>\<open>error\<close> handler: \<open>body\<close> is \<^verbatim>\<open>responseText\<close> and \<open>parsed\<close> what \<^verbatim>\<open>$.parseJSON\<close> makes of it (\<open>None\<close>
  when it raises). Everything inside the \<^verbatim>\<open>try\<close> that raises, the callback included, falls through to
  the second call.
\<close>

definition ajaxError :: "(js \<Rightarrow> bool) \<Rightarrow> string \<Rightarrow> js option \<Rightarrow> hcall list" where
  "ajaxError throws body parsed =
     (let fallback = ErrorCb (JObj [(''error'', JStr body)])
      in (case parsed of
            None \<Rightarrow> [fallback]
          | Some response \<Rightarrow>
              (case js_prop response ''error'' of
                 Inl _ \<Rightarrow> [fallback]
               | Inr e \<Rightarrow> if throws e then [ErrorCb e, fallback] else [ErrorCb e])))"

section \<open>Web socket answers\<close>

text \<open>
  \<^verbatim>\<open>_wsOnMessage\<close>, for the parsed message (\<open>None\<close> when it is not JSON): the callback run (its name
  and argument), the fallback message handler, and the client afterwards. A truthy entry of
  \<^verbatim>\<open>_ws_callbacks\<close> is one that is there. A callback that raises (\<open>throws\<close>) inside the \<^verbatim>\<open>try\<close> falls
  through to the fallback handler.
\<close>

datatype ws_event = WsSuccess nat js | WsError nat js | WsFallback

definition wsOnMessage :: "(js \<Rightarrow> bool) \<Rightarrow> js option \<Rightarrow> rpc_client \<Rightarrow> ws_event list \<times> rpc_client" where
  "wsOnMessage throws msg c =
     (case msg of
        Some (JObj m) \<Rightarrow>
          (if oget m ''jsonrpc'' = Some (JStr ''2.0'')
           then (case oget m ''id'' of
               Some (JNum i) \<Rightarrow>
                 (case map_of (wsCallbacks c) i of
                    None \<Rightarrow> ([WsFallback], c)
                  | Some k \<Rightarrow>
                      let c' = c\<lparr>wsCallbacks := AList.delete i (wsCallbacks c)\<rparr>;
                          after = (\<lambda>x. if throws x then [WsFallback] else [])
                      in (case oget m ''result'' of
                            Some r \<Rightarrow> (WsSuccess k r # after r, c')
                          | None \<Rightarrow>
                              (case oget m ''error'' of
                                 Some e \<Rightarrow> (WsError k e # after e, c')
                               | None \<Rightarrow> ([WsFallback], c))))
             | _ \<Rightarrow> ([WsFallback], c))
           else ([WsFallback], c))
      | _ \<Rightarrow> ([WsFallback], c))"

section \<open>Batches\<close>

text \<open>A batched request and, for a call, the name of its callbacks.\<close>

record batch_item =
  bRequest :: js
  bId :: "int option"
  bCb :: "nat option"

definition batch_call :: "string \<Rightarrow> js \<Rightarrow> nat \<Rightarrow> batch_item list \<times> rpc_client \<Rightarrow>
    batch_item list \<times> rpc_client" where
  "batch_call meth params cb b =
     (case b of (reqs, c) \<Rightarrow>
        (reqs @ [\<lparr>bRequest = rpc_object meth params (Some (currentId c)), bId = Some (currentId c),
                  bCb = Some cb\<rparr>],
         c\<lparr>currentId := currentId c + 1\<rparr>))"

definition batch_notify :: "string \<Rightarrow> js \<Rightarrow> batch_item list \<times> rpc_client \<Rightarrow>
    batch_item list \<times> rpc_client" where
  "batch_notify meth params b =
     (case b of (reqs, c) \<Rightarrow>
        (reqs @ [\<lparr>bRequest = rpc_object meth params None, bId = None, bCb = None\<rparr>], c))"

text \<open>
  \<^verbatim>\<open>_execute\<close>: nothing for an empty batch. With a socket the code calls \<^verbatim>\<open>this._wsCall\<close>, which a batch
  object does not have. Over HTTP it sends the array of requests and keeps the handlers by id.
\<close>

definition batch_handlers :: "batch_item list \<Rightarrow> (int \<times> nat) list" where
  "batch_handlers reqs = fold (\<lambda>b hs. case (bId b, bCb b) of
      (Some i, Some k) \<Rightarrow> AList.update i k hs | _ \<Rightarrow> hs) reqs []"

definition batch_execute :: "bool \<Rightarrow> batch_item list \<Rightarrow> rpc_client \<Rightarrow>
    ((js \<times> (int \<times> nat) list) option \<times> rpc_client) result" where
  "batch_execute hasWS reqs c =
     (if reqs = [] then Inr (None, c)
      else let (sock, c1) = getSocket hasWS c
           in (case sock of
                 Some _ \<Rightarrow> Inl TypeErr
               | None \<Rightarrow>
                   if ajaxUrl c1 = None
                   then Inl (Thrown ''$.JsonRpcClient.batch used with no websocket and no http endpoint.'')
                   else Inr (Some (JArr (map bRequest reqs), batch_handlers reqs), c1)))"

text \<open>\<^verbatim>\<open>_batchCb\<close>: each response of the array goes to the callbacks stored under its id.\<close>

datatype batch_event = BSuccess nat js | BError nat js | BLog js | BAllDone

fun batch_dispatch :: "(int \<times> nat) list \<Rightarrow> js obj \<Rightarrow> batch_event" where
  "batch_dispatch handlers m =
     (let k = (case oget m ''id'' of Some (JNum i) \<Rightarrow> map_of handlers i | _ \<Rightarrow> None)
      in (case oget m ''error'' of
            Some e \<Rightarrow> (case k of None \<Rightarrow> BLog (JObj m) | Some n \<Rightarrow> BError n e)
          | None \<Rightarrow>
              (case k of None \<Rightarrow> BLog (JObj m)
               | Some n \<Rightarrow> BSuccess n (case oget m ''result'' of None \<Rightarrow> JUndef | Some r \<Rightarrow> r))))"

definition batchCb :: "js obj list \<Rightarrow> (int \<times> nat) list \<Rightarrow> bool \<Rightarrow> batch_event list" where
  "batchCb result handlers hasAllDone =
     map (batch_dispatch handlers) result @ (if hasAllDone then [BAllDone] else [])"

section \<open>Ids are never reused\<close>

definition client_ok :: "rpc_client \<Rightarrow> bool" where
  "client_ok c = list_all (\<lambda>(i, k). i < currentId c) (wsCallbacks c)"

lemma client_ok_new: "client_ok (new_client a s u)"
  by (simp add: client_ok_def new_client_def)

lemma client_ok_fresh: "client_ok c \<Longrightarrow> map_of (wsCallbacks c) (currentId c) = None"
  by (auto simp: client_ok_def list_all_iff map_of_eq_None_iff)

lemma client_ok_update:
  "list_all (\<lambda>(i, k). i < (n :: int)) xs \<Longrightarrow>
   list_all (\<lambda>(i, k). i \<le> n) (AList.update n (v :: nat) xs)"
  by (induction xs) auto

lemma getSocket_frame:
  "getSocket w c = (s, c') \<Longrightarrow> wsCallbacks c' = wsCallbacks c \<and> currentId c' = currentId c \<and>
     ajaxUrl c' = ajaxUrl c"
  by (auto simp: getSocket_def Let_def split: if_splits option.splits)

lemma getSocket_some:
  assumes "socketUrl c \<noteq> None"
  shows "\<exists>s c'. getSocket True c = (Some s, c')"
  using assms by (auto simp: getSocket_def Let_def split: option.splits)

lemma wsCall_frame:
  "wsCallbacks (wsCall s r (Some i) (Some k) c) = AList.update i k (wsCallbacks c)"
  "currentId (wsCall s r i' k' c) = currentId c"
  by (auto simp: wsCall_def Let_def split: option.splits)

lemma rpc_call_ws:
  assumes "client_ok c" and "socketUrl c \<noteq> None"
  obtains c' where "rpc_call True meth ps k c = Inr (None, c')" "client_ok c'"
    "wsCallbacks c' = AList.update (currentId c) k (wsCallbacks c)" "currentId c' = currentId c + 1"
proof -
  let ?c1 = "c\<lparr>currentId := currentId c + 1\<rparr>"
  obtain s c2 where s: "getSocket True ?c1 = (Some s, c2)"
    using assms(2) getSocket_some [of ?c1] by auto
  let ?c' = "wsCall s (rpc_object meth ps (Some (currentId c))) (Some (currentId c)) (Some k) c2"
  have f: "wsCallbacks c2 = wsCallbacks c" "currentId c2 = currentId c + 1"
    using getSocket_frame [OF s] by simp_all
  have "rpc_call True meth ps k c = Inr (None, ?c')" by (simp add: rpc_call_def Let_def s)
  moreover have "client_ok ?c'"
    using assms(1) by (simp add: client_ok_def wsCall_frame f client_ok_update)
  ultimately show ?thesis using that by (simp add: wsCall_frame f)
qed

text \<open>A response of the server.\<close>

definition ws_reply :: "int \<Rightarrow> js \<Rightarrow> js" where
  "ws_reply i r = JObj [(''jsonrpc'', JStr ''2.0''), (''result'', r), (''id'', JNum i)]"

lemma wsOnMessage_reply:
  "map_of (wsCallbacks c) i = Some k \<Longrightarrow> \<not> throws r \<Longrightarrow>
   wsOnMessage throws (Some (ws_reply i r)) c =
     ([WsSuccess k r], c\<lparr>wsCallbacks := AList.delete i (wsCallbacks c)\<rparr>)"
  "map_of (wsCallbacks c) i = None \<Longrightarrow>
   wsOnMessage throws (Some (ws_reply i r)) c = ([WsFallback], c)"
  by (simp_all add: wsOnMessage_def ws_reply_def)

lemma batch_calls_eq:
  "fold (\<lambda>(m, p, k). batch_call m p k) calls (reqs, c) =
     (reqs @ map (\<lambda>(j, m, p, k). \<lparr>bRequest = rpc_object m p (Some (currentId c + int j)),
         bId = Some (currentId c + int j), bCb = Some k\<rparr>) (enumerate 0 calls),
      c\<lparr>currentId := currentId c + int (length calls)\<rparr>)"
proof (induction calls arbitrary: reqs c)
  case (Cons x calls)
  have "enumerate (Suc 0) calls = map (\<lambda>(j, y). (Suc j, y)) (enumerate 0 calls)"
    by (rule nth_equalityI) (auto simp: nth_enumerate_eq)
  with Cons show ?case
    by (cases x) (auto simp: batch_call_def o_def split_beta algebra_simps)
qed simp

lemma batch_handlers_snoc:
  "batch_handlers (reqs @ [b]) = (case (bId b, bCb b) of
     (Some i, Some k) \<Rightarrow> AList.update i k (batch_handlers reqs) | _ \<Rightarrow> batch_handlers reqs)"
  by (auto simp: batch_handlers_def split: option.splits)

lemma batch_handlers_calls:
  assumes "j < length calls"
  shows "map_of (batch_handlers (fst (fold (\<lambda>(m, p, k). batch_call m p k) calls ([], c))))
    (currentId c + int j) = Some (snd (snd (calls ! j)))"
  using assms
proof (induction calls rule: rev_induct)
  case (snoc x calls)
  let ?f = "\<lambda>(m, p, k). batch_call m p k"
  obtain m p k where x: "x = (m, p, k)" by (cases x)
  let ?b = "fold ?f calls ([], c)"
  have id: "currentId (snd ?b) = currentId c + int (length calls)" by (simp add: batch_calls_eq)
  have "fst (fold ?f (calls @ [x]) ([], c)) = fst ?b @ [\<lparr>bRequest = rpc_object m p
      (Some (currentId (snd ?b))), bId = Some (currentId (snd ?b)), bCb = Some k\<rparr>]"
    by (simp add: x batch_call_def split_beta)
  with snoc show ?case
    by (auto simp: batch_handlers_snoc update_conv' id x nth_append less_Suc_eq)
qed simp

section \<open>Properties\<close>



text \<open>
  In a batch, the response to the \<open>j\<close>-th call is dispatched to the callbacks of the \<open>j\<close>-th call,
  in whatever order the server lists the responses.
\<close>

theorem batch_dispatches_by_id:
  assumes "j < length calls"
  shows "batch_dispatch (batch_handlers (fst (fold (\<lambda>(m, p, k). batch_call m p k) calls ([], c))))
      [(''jsonrpc'', JStr ''2.0''), (''result'', r), (''id'', JNum (currentId c + int j))] =
    BSuccess (snd (snd (calls ! j))) r"
  using batch_handlers_calls [OF assms, of c] by simp

theorem batch_dispatches_by_id_witness:
  "batch_dispatch (batch_handlers (fst (fold (\<lambda>(m, p, k). batch_call m p k)
       [(''a'', JNull, 4), (''b'', JNull, 9)] ([], new_client (Some ''/'') None None))))
     [(''jsonrpc'', JStr ''2.0''), (''result'', JNum 3), (''id'', JNum 2)] = BSuccess 9 (JNum 3)"
  using batch_dispatches_by_id [of 1 "[(''a'', JNull, 4), (''b'', JNull, 9)]"
      "new_client (Some ''/'') None None" "JNum 3"]
  by (simp add: new_client_def)

text \<open>
  Two calls made before the web socket opens: only the second is sent. The \<^verbatim>\<open>onopen\<close> handler of the
  second call replaces that of the first, whose callbacks stay registered for ever.
\<close>

theorem ws_first_call_lost:
  assumes "socketUrl c \<noteq> None" and "wsSocket c = None"
  shows "\<exists>c1 c2 s. rpc_call True m1 p1 k c = Inr (None, c1) \<and> rpc_call True m2 p2 l c1 = Inr (None, c2) \<and>
    wsSocket (wsOpened c2) = Some s \<and>
    sent s = [rpc_object m2 p2 (Some (currentId c + 1))] \<and>
    map_of (wsCallbacks (wsOpened c2)) (currentId c) = Some k"
  using assms by (auto simp: rpc_call_def getSocket_def wsOpened_def wsCall_def Let_def update_conv')

theorem ws_first_call_lost_witness:
  "\<exists>c1 c2 s. rpc_call True ''a'' JNull 0 (new_client None (Some ''ws://x'') None) = Inr (None, c1) \<and>
     rpc_call True ''b'' JNull 1 c1 = Inr (None, c2) \<and> wsSocket (wsOpened c2) = Some s \<and>
     sent s = [rpc_object ''b'' JNull (Some 2)]"
  using ws_first_call_lost [of "new_client None (Some ''ws://x'') None" "''a''" JNull 0 "''b''" JNull 1]
  by (auto simp: new_client_def)

end
