(* ===== verification/Json_Text.thy ===== *)
theory Json_Text
  imports Js_Prelude
begin

text \<open>
  \<^verbatim>\<open>jquery.json-2.4.js\<close>: \<^verbatim>\<open>$.toJSON\<close> and \<^verbatim>\<open>$.quoteString\<close> (the implementation used where the browser
  has no \<^verbatim>\<open>JSON.stringify\<close>, which agrees with it on these values), and a model of \<^verbatim>\<open>JSON.parse\<close>
  (\<^verbatim>\<open>$.evalJSON\<close>, \<^verbatim>\<open>$.parseJSON\<close>) on texts whose numbers are integers. The theorem is the round
  trip: parsing what \<^verbatim>\<open>toJSON\<close> writes gives the value back.
\<close>

section \<open>Writing\<close>

text \<open>The class \<^verbatim>\<open>["\\\x00-\x1f]\<close> and the table \<^verbatim>\<open>meta\<close>.\<close>

definition needs_escape :: "char \<Rightarrow> bool" where
  "needs_escape c = (c = CHR 0x22 \<or> c = CHR 0x5C \<or> (of_char c :: nat) < 32)"

definition meta :: "char \<Rightarrow> char option" where
  "meta c = map_of [(CHR 0x08, CHR ''b''), (CHR 0x09, CHR ''t''), (CHR 0x0A, CHR ''n''),
     (CHR 0x0C, CHR ''f''), (CHR 0x0D, CHR ''r''), (CHR 0x22, CHR 0x22), (CHR 0x5C, CHR 0x5C)] c"

text \<open>\<^verbatim>\<open>n.toString(16)\<close> for \<open>n < 16\<close>.\<close>

definition hex_digit :: "nat \<Rightarrow> char" where
  "hex_digit n = (if n < 10 then char_of (48 + n) else char_of (87 + n))"

definition escape_char :: "char \<Rightarrow> string" where
  "escape_char c =
     (if needs_escape c
      then (case meta c of
              Some m \<Rightarrow> [CHR 0x5C, m]
            | None \<Rightarrow> [CHR 0x5C, CHR ''u'', CHR ''0'', CHR ''0'',
                hex_digit (of_char c div 16), hex_digit (of_char c mod 16)])
      else [c])"

definition quoteString :: "string \<Rightarrow> string" where
  "quoteString str =
     (if list_ex needs_escape str
      then CHR 0x22 # concat (map escape_char str) @ [CHR 0x22]
      else CHR 0x22 # str @ [CHR 0x22])"

text \<open>
  \<^verbatim>\<open>$.toJSON(o)\<close>; \<open>None\<close> is the result \<^verbatim>\<open>undefined\<close>. Members with the value \<^verbatim>\<open>undefined\<close> are left out
  of an object and written as \<^verbatim>\<open>null\<close> in an array.
\<close>

fun toJSON :: "js \<Rightarrow> string option" where
  "toJSON JNull = Some ''null''"
| "toJSON JUndef = None"
| "toJSON (JNum n) = Some (str_of_int n)"
| "toJSON (JBool b) = Some (if b then ''true'' else ''false'')"
| "toJSON (JStr s) = Some (quoteString s)"
| "toJSON (JArr xs) =
     Some (''['' @ js_join '','' (map (\<lambda>x. case toJSON x of None \<Rightarrow> ''null'' | Some t \<Rightarrow> t) xs) @ '']'')"
| "toJSON (JObj m) =
     Some (''{'' @ js_join '','' (concat (map (\<lambda>(k, v). case toJSON v of
          None \<Rightarrow> [] | Some t \<Rightarrow> [quoteString k @ '':'' @ t]) m)) @ ''}'')"

section \<open>Parsing\<close>

definition is_ws :: "char \<Rightarrow> bool" where
  "is_ws c = (c = CHR '' '' \<or> c = CHR 0x09 \<or> c = CHR 0x0A \<or> c = CHR 0x0D)"

definition skip_ws :: "string \<Rightarrow> string" where
  "skip_ws s = dropWhile is_ws s"

definition hex_val :: "char \<Rightarrow> nat option" where
  "hex_val c = (let n = of_char c in
     if 48 \<le> n \<and> n \<le> 57 then Some (n - 48)
     else if 97 \<le> n \<and> n \<le> 102 then Some (n - 87)
     else if 65 \<le> n \<and> n \<le> 70 then Some (n - 55) else None)"

definition unescape :: "char \<Rightarrow> char option" where
  "unescape c = map_of [(CHR 0x22, CHR 0x22), (CHR 0x5C, CHR 0x5C), (CHR 0x2F, CHR 0x2F),
     (CHR ''b'', CHR 0x08), (CHR ''f'', CHR 0x0C), (CHR ''n'', CHR 0x0A), (CHR ''r'', CHR 0x0D),
     (CHR ''t'', CHR 0x09)] c"

text \<open>The rest of a string literal after its opening quote: the string and what follows it.\<close>

fun parse_chars :: "string \<Rightarrow> (string \<times> string) option" where
  "parse_chars [] = None"
| "parse_chars (c # cs) =
     (if c = CHR 0x22 then Some ([], cs)
      else if c = CHR 0x5C
      then (case cs of
          [] \<Rightarrow> None
        | e # r \<Rightarrow>
            (if e = CHR ''u''
             then (case r of
                 a # b # d # f # r' \<Rightarrow>
                   (case (hex_val a, hex_val b, hex_val d, hex_val f) of
                      (Some h1, Some h2, Some h3, Some h4) \<Rightarrow>
                        (let n = 4096 * h1 + 256 * h2 + 16 * h3 + h4
                         in if n < 256
                            then map_option (\<lambda>(t, r''). (char_of n # t, r'')) (parse_chars r')
                            else None)
                    | _ \<Rightarrow> None)
               | _ \<Rightarrow> None)
             else (case unescape e of
                 None \<Rightarrow> None
               | Some x \<Rightarrow> map_option (\<lambda>(t, r'). (x # t, r')) (parse_chars r))))
      else if (of_char c :: nat) < 32 then None
      else map_option (\<lambda>(t, r). (c # t, r)) (parse_chars cs))"

text \<open>An integer literal: an optional minus sign, then digits with no superfluous leading zero.\<close>

definition parse_int :: "string \<Rightarrow> (js \<times> string) option" where
  "parse_int s =
     (let neg = (s \<noteq> [] \<and> hd s = CHR ''-'');
          t = (if neg then tl s else s);
          ds = takeWhile is_digit t;
          r = dropWhile is_digit t
      in if ds = [] \<or> (hd ds = CHR ''0'' \<and> length ds > 1) then None
         else Some (JNum (if neg then - int (nat_of_digits 0 ds) else int (nat_of_digits 0 ds)), r))"

definition strip_prefix :: "string \<Rightarrow> string \<Rightarrow> string option" where
  "strip_prefix p s = (if take (length p) s = p then Some (drop (length p) s) else None)"

text \<open>
  Values, the rest of an array after an element's position and the rest of an object, with fuel:
  every call passes one unit less, and the length of the text is always enough.
\<close>

fun parse_value :: "nat \<Rightarrow> string \<Rightarrow> (js \<times> string) option"
  and parse_array :: "nat \<Rightarrow> js list \<Rightarrow> string \<Rightarrow> (js \<times> string) option"
  and parse_object :: "nat \<Rightarrow> js obj \<Rightarrow> string \<Rightarrow> (js \<times> string) option" where
  "parse_value 0 s = None"
| "parse_value (Suc n) s =
     (case skip_ws s of
        [] \<Rightarrow> None
      | c # cs \<Rightarrow>
          if c = CHR 0x22 then map_option (\<lambda>(t, r). (JStr t, r)) (parse_chars cs)
          else if c = CHR ''['' then
            (case skip_ws cs of
               [] \<Rightarrow> None
             | d # ds \<Rightarrow> if d = CHR '']'' then Some (JArr [], ds) else parse_array n [] (d # ds))
          else if c = CHR ''{'' then
            (case skip_ws cs of
               [] \<Rightarrow> None
             | d # ds \<Rightarrow> if d = CHR ''}'' then Some (JObj [], ds) else parse_object n [] (d # ds))
          else if c = CHR ''t'' then map_option (\<lambda>r. (JBool True, r)) (strip_prefix ''rue'' cs)
          else if c = CHR ''f'' then map_option (\<lambda>r. (JBool False, r)) (strip_prefix ''alse'' cs)
          else if c = CHR ''n'' then map_option (\<lambda>r. (JNull, r)) (strip_prefix ''ull'' cs)
          else parse_int (c # cs))"
| "parse_array 0 acc s = None"
| "parse_array (Suc n) acc s =
     (case parse_value n s of
        None \<Rightarrow> None
      | Some (v, r) \<Rightarrow>
          (case skip_ws r of
             [] \<Rightarrow> None
           | c # cs \<Rightarrow>
               if c = CHR '','' then parse_array n (acc @ [v]) cs
               else if c = CHR '']'' then Some (JArr (acc @ [v]), cs)
               else None))"
| "parse_object 0 acc s = None"
| "parse_object (Suc n) acc s =
     (case skip_ws s of
        [] \<Rightarrow> None
      | q # qs \<Rightarrow>
          if q \<noteq> CHR 0x22 then None
          else (case parse_chars qs of
              None \<Rightarrow> None
            | Some (k, r) \<Rightarrow>
                (case skip_ws r of
                   [] \<Rightarrow> None
                 | c # cs \<Rightarrow>
                     if c \<noteq> CHR '':'' then None
                     else (case parse_value n cs of
                         None \<Rightarrow> None
                       | Some (v, r') \<Rightarrow>
                           (case skip_ws r' of
                              [] \<Rightarrow> None
                            | d # ds \<Rightarrow>
                                if d = CHR '','' then parse_object n (oset acc k v) ds
                                else if d = CHR ''}'' then Some (JObj (oset acc k v), ds)
                                else None)))))"

text \<open>\<^verbatim>\<open>JSON.parse(s)\<close>; \<open>None\<close> is a \<^verbatim>\<open>SyntaxError\<close>.\<close>

definition json_parse :: "string \<Rightarrow> js option" where
  "json_parse s = (case parse_value (Suc (length s)) s of
     Some (v, r) \<Rightarrow> if skip_ws r = [] then Some v else None
   | None \<Rightarrow> None)"

section \<open>Round trip of strings\<close>

lemma hex_val_hex_digit [simp]: "n < 16 \<Longrightarrow> hex_val (hex_digit n) = Some n"
  by (auto simp: hex_val_def hex_digit_def Let_def)

lemma hex_val_zero [simp]: "hex_val (CHR ''0'') = Some 0"
  by (simp add: hex_val_def)

lemma meta_unescape: "meta c = Some m \<Longrightarrow> m \<noteq> CHR ''u'' \<and> unescape m = Some c"
  by (auto simp: meta_def unescape_def split: if_splits)

lemma escape_no_meta: "needs_escape c \<Longrightarrow> meta c = None \<Longrightarrow> (of_char c :: nat) < 32"
  by (auto simp: needs_escape_def meta_def split: if_splits)

lemma parse_chars_escape:
  "parse_chars (escape_char c @ s) = map_option (\<lambda>(t, r). (c # t, r)) (parse_chars s)"
proof (cases "needs_escape c")
  case True
  show ?thesis
  proof (cases "meta c")
    case None
    with True have "(of_char c :: nat) < 32" by (rule escape_no_meta)
    then have "(of_char c :: nat) div 16 < 16" by simp
    moreover have "16 * ((of_char c :: nat) div 16) + of_char c mod 16 = of_char c" by simp
    ultimately show ?thesis using True None \<open>of_char c < 32\<close>
      by (simp add: escape_char_def Let_def)
  next
    case (Some m)
    with True meta_unescape [OF Some] show ?thesis by (simp add: escape_char_def)
  qed
next
  case False
  then show ?thesis by (auto simp: escape_char_def needs_escape_def)
qed

lemma parse_chars_escapes:
  "parse_chars (concat (map escape_char s) @ CHR 0x22 # r) = Some (s, r)"
  by (induction s) (simp_all add: parse_chars_escape)

lemma quoteString_eq: "quoteString s = CHR 0x22 # concat (map escape_char s) @ [CHR 0x22]"
proof -
  have "\<not> list_ex needs_escape s \<Longrightarrow> concat (map escape_char s) = s"
    by (induction s) (auto simp: escape_char_def)
  then show ?thesis by (simp add: quoteString_def)
qed

lemma quoteString_cons:
  "\<exists>body. quoteString s @ r = CHR 0x22 # body \<and> parse_chars body = Some (s, r)"
  by (simp add: quoteString_eq parse_chars_escapes)

section \<open>Round trip of values\<close>

text \<open>Values with a text of their own: no \<^verbatim>\<open>undefined\<close>, and objects with distinct keys.\<close>

fun jsonable :: "js \<Rightarrow> bool" where
  "jsonable JUndef = False"
| "jsonable (JArr xs) = list_all jsonable xs"
| "jsonable (JObj m) = (distinct (okeys m) \<and> list_all (\<lambda>(k, v). jsonable v) m)"
| "jsonable _ = True"

text \<open>The text of a value, without the branches for \<^verbatim>\<open>undefined\<close>.\<close>

fun json :: "js \<Rightarrow> string" where
  "json (JArr xs) = ''['' @ js_join '','' (map json xs) @ '']''"
| "json (JObj m) = ''{'' @ js_join '','' (map (\<lambda>(k, v). quoteString k @ '':'' @ json v) m) @ ''}''"
| "json v = the (toJSON v)"

lemma toJSON_json: "jsonable v \<Longrightarrow> toJSON v = Some (json v)"
proof (induction v)
  case (JArr xs)
  then have "map (\<lambda>x. case toJSON x of None \<Rightarrow> ''null'' | Some t \<Rightarrow> t) xs = map json xs"
    by (auto simp: list_all_iff)
  then show ?case by (simp only: toJSON.simps json.simps)
next
  case (JObj m)
  then have "map (\<lambda>(k, v). case toJSON v of None \<Rightarrow> [] | Some t \<Rightarrow> [quoteString k @ '':'' @ t]) m =
      map (\<lambda>(k, v). [quoteString k @ '':'' @ json v]) m"
    by (fastforce simp: list_all_iff)
  moreover have "concat (map (\<lambda>(k, v). [quoteString k @ '':'' @ json v]) m) =
      map (\<lambda>(k, v). quoteString k @ '':'' @ json v) m"
    by (induction m) auto
  ultimately show ?case by (simp only: toJSON.simps json.simps)
qed auto

text \<open>What may follow a value: a number must not run on.\<close>

definition stops :: "string \<Rightarrow> bool" where
  "stops r = (r = [] \<or> \<not> is_digit (hd r))"

lemma stops_simps [simp]: "stops []" "stops (c # r) \<longleftrightarrow> \<not> is_digit c"
  by (simp_all add: stops_def)

lemma digit_facts:
  "is_digit c \<Longrightarrow> \<not> is_ws c"
  "is_digit c \<Longrightarrow> c \<notin> {CHR 0x22, CHR ''['', CHR ''{'', CHR ''t'', CHR ''f'', CHR ''n'', CHR ''-''}"
  "\<not> is_digit (CHR '','')" "\<not> is_digit (CHR '']'')" "\<not> is_digit (CHR ''}'')"
  by (auto simp: is_digit_def is_ws_def)

lemma takeWhile_digits: "list_all is_digit ds \<Longrightarrow> stops r \<Longrightarrow>
    takeWhile is_digit (ds @ r) = ds \<and> dropWhile is_digit (ds @ r) = r"
  by (cases r) (auto simp: list_all_iff)

lemma str_of_nat_no_leading_zero: "hd (str_of_nat n) = CHR ''0'' \<Longrightarrow> length (str_of_nat n) = 1"
proof (induction n rule: str_of_nat.induct)
  case (1 n)
  show ?case
  proof (cases "n < 10")
    case False
    then have split: "str_of_nat n = str_of_nat (n div 10) @ [digit_char (n mod 10)]"
      by (subst str_of_nat.simps) simp
    with 1 False have len: "length (str_of_nat (n div 10)) = 1" by simp
    with split "1.prems" have "str_of_nat (n div 10) = [CHR ''0'']"
      by (cases "str_of_nat (n div 10)") auto
    then have "n div 10 = 0"
      using nat_of_str_of_nat [of "n div 10"] by (simp add: digit_val_def)
    with False show ?thesis by simp
  qed (subst str_of_nat.simps, simp)
qed

lemma parse_int_str:
  assumes "stops r"
  shows "parse_int (str_of_int n @ r) = Some (JNum n, r)"
proof -
  let ?ds = "str_of_nat (nat \<bar>n\<bar>)"
  have tw: "takeWhile is_digit (?ds @ r) = ?ds" "dropWhile is_digit (?ds @ r) = r"
    using takeWhile_digits [OF str_of_nat_digits assms] by simp_all
  have nz: "\<not> (hd ?ds = CHR ''0'' \<and> 1 < length ?ds)"
    using str_of_nat_no_leading_zero by fastforce
  have "hd ?ds \<noteq> CHR ''-''"
    using str_of_nat_digits [of "nat \<bar>n\<bar>"] digit_facts(2)
    by (metis insertI1 insertI2 list.pred_inject(2) list.exhaust_sel str_of_nat_ne(1))
  then show ?thesis using tw nz
    by (auto simp: parse_int_def str_of_int_def Let_def nat_of_str_of_nat)
qed

text \<open>Fuel that is enough for a value; it is at most the length of its text.\<close>

fun jfuel :: "js \<Rightarrow> nat" where
  "jfuel (JArr xs) = Suc (sum_list (map (\<lambda>x. Suc (jfuel x)) xs))"
| "jfuel (JObj m) = Suc (sum_list (map (\<lambda>(k, v). Suc (jfuel v)) m))"
| "jfuel v = 1"

lemma skip_ws_nows [simp]: "\<not> is_ws c \<Longrightarrow> skip_ws (c # s) = c # s"
  by (simp add: skip_ws_def)

lemma not_ws [simp]:
  "\<not> is_ws (CHR 0x22)" "\<not> is_ws (CHR ''['')" "\<not> is_ws (CHR '']'')" "\<not> is_ws (CHR ''{'')"
  "\<not> is_ws (CHR ''}'')" "\<not> is_ws (CHR '','')" "\<not> is_ws (CHR '':'')" "\<not> is_ws (CHR ''t'')"
  "\<not> is_ws (CHR ''f'')" "\<not> is_ws (CHR ''n'')" "\<not> is_ws (CHR ''-'')"
  by (simp_all add: is_ws_def)

lemma str_of_int_first:
  obtains c cs where "str_of_int n = c # cs" "is_digit c \<or> c = CHR ''-''"
  using str_of_nat_digits [of "nat n"] that
  by (cases "n < 0"; cases "str_of_nat (nat n)") (auto simp: str_of_int_def)

lemma json_first:
  assumes "jsonable v"
  obtains c cs where "json v = c # cs" "\<not> is_ws c" "c \<noteq> CHR '']''" "c \<noteq> CHR ''}''"
proof (cases v)
  case (JNum n)
  obtain c cs where "str_of_int n = c # cs" "is_digit c \<or> c = CHR ''-''" by (rule str_of_int_first)
  with JNum show ?thesis using digit_facts that by fastforce
next
  case (JBool b)
  with that show ?thesis by (cases b) auto
qed (use assms that in \<open>auto simp: quoteString_eq\<close>)

lemma parse_value_num:
  assumes "stops r"
  shows "parse_value (Suc n) (str_of_int i @ r) = Some (JNum i, r)"
proof -
  obtain c cs where c: "str_of_int i = c # cs" "is_digit c \<or> c = CHR ''-''" by (rule str_of_int_first)
  then have "\<not> is_ws c" "c \<notin> {CHR 0x22, CHR ''['', CHR ''{'', CHR ''t'', CHR ''f'', CHR ''n''}"
    using digit_facts by auto
  then show ?thesis using parse_int_str [OF assms, of i] c(1) by simp
qed

lemma parse_value_str: "parse_value (Suc n) (quoteString s @ r) = Some (JStr s, r)"
  using quoteString_cons [of s r] by auto

text \<open>\<open>parses v\<close>: with enough fuel, the text of \<open>v\<close> is read back, whatever follows it.\<close>

definition parses :: "js \<Rightarrow> bool" where
  "parses v \<longleftrightarrow> (\<forall>n r. jfuel v \<le> n \<longrightarrow> stops r \<longrightarrow> parse_value n (json v @ r) = Some (v, r))"

lemma parse_array_json:
  "list_all parses xs \<Longrightarrow> xs \<noteq> [] \<Longrightarrow> sum_list (map (\<lambda>x. Suc (jfuel x)) xs) \<le> n \<Longrightarrow>
   parse_array n acc (js_join '','' (map json xs) @ CHR '']'' # r) = Some (JArr (acc @ xs), r)"
proof (induction xs arbitrary: n acc)
  case (Cons x xs)
  then obtain k where n: "n = Suc k" by (cases n) auto
  from Cons.prems have px: "\<And>r. stops r \<Longrightarrow> parse_value k (json x @ r) = Some (x, r)"
    by (simp add: parses_def n)
  show ?case
  proof (cases xs)
    case Nil
    then show ?thesis by (simp add: n px digit_facts)
  next
    case (Cons y ys)
    then have "js_join '','' (map json (x # xs)) = json x @ CHR '','' # js_join '','' (map json xs)"
      by simp
    with Cons.IH [of k "acc @ [x]"] Cons.prems Cons show ?thesis
      by (simp add: n px digit_facts)
  qed
qed simp

lemma parse_object_json:
  "list_all (\<lambda>(k, v). parses v) m \<Longrightarrow> m \<noteq> [] \<Longrightarrow> distinct (okeys (acc @ m)) \<Longrightarrow>
   sum_list (map (\<lambda>(k, v). Suc (jfuel v)) m) \<le> n \<Longrightarrow>
   parse_object n acc (js_join '','' (map (\<lambda>(k, v). quoteString k @ '':'' @ json v) m) @ CHR ''}'' # r)
     = Some (JObj (acc @ m), r)"
proof (induction m arbitrary: n acc)
  case (Cons p m)
  obtain key v where p: "p = (key, v)" by (cases p)
  from Cons.prems obtain k where n: "n = Suc k" by (cases n) (auto simp: p)
  from Cons.prems have pv: "\<And>r. stops r \<Longrightarrow> parse_value k (json v @ r) = Some (v, r)"
    by (simp add: parses_def n p)
  from Cons.prems have acc: "oset acc key v = acc @ [(key, v)]" by (intro oset_new) (auto simp: p)
  have key: "\<And>r. \<exists>body. quoteString key @ r = CHR 0x22 # body \<and> parse_chars body = Some (key, r)"
    by (rule quoteString_cons)
  show ?case
  proof (cases m)
    case Nil
    then show ?thesis using key [of "CHR '':'' # json v @ CHR ''}'' # r"]
      by (auto simp: n p pv acc digit_facts)
  next
    case (Cons q qs)
    let ?rest = "js_join '','' (map (\<lambda>(k, v). quoteString k @ '':'' @ json v) m)"
    from Cons have "js_join '','' (map (\<lambda>(k, v). quoteString k @ '':'' @ json v) (p # m)) =
        quoteString key @ CHR '':'' # json v @ CHR '','' # ?rest" by (simp add: p)
    moreover obtain body where "quoteString key @ CHR '':'' # json v @ CHR '','' # ?rest @ CHR ''}'' # r =
        CHR 0x22 # body" "parse_chars body = Some (key, CHR '':'' # json v @ CHR '','' # ?rest @ CHR ''}'' # r)"
      using key by blast
    moreover have "parse_object k (acc @ [(key, v)]) (?rest @ CHR ''}'' # r) =
        Some (JObj (acc @ p # m), r)"
      using Cons.IH [of "acc @ [(key, v)]" k] Cons.prems Cons by (simp add: p n)
    ultimately show ?thesis by (simp add: n pv acc digit_facts)
  qed
qed simp

lemma join_first:
  assumes "\<exists>c cs. p = c # cs \<and> P c"
  shows "\<exists>c cs. js_join sep (p # ps) @ s = c # cs \<and> P c"
  using assms by (cases ps) auto

lemma parses_arr:
  assumes "list_all parses xs" and "list_all jsonable xs"
  shows "parses (JArr xs)"
proof (cases xs)
  case Nil
  show ?thesis unfolding parses_def
  proof (intro allI impI)
    fix n and r :: string
    assume "jfuel (JArr xs) \<le> n"
    then obtain k where "n = Suc k" by (cases n) auto
    with Nil show "parse_value n (json (JArr xs) @ r) = Some (JArr xs, r)" by simp
  qed
next
  case (Cons x ys)
  show ?thesis unfolding parses_def
  proof (intro allI impI)
    fix n and r :: string
    assume fuel: "jfuel (JArr xs) \<le> n"
    then obtain k where n: "n = Suc k" by (cases n) auto
    from assms(2) Cons have "\<exists>c cs. json x = c # cs \<and> \<not> is_ws c \<and> c \<noteq> CHR '']''"
      using json_first [of x] by (metis list.pred_inject(2))
    from join_first [OF this, of "'',''" "map json ys" "CHR '']'' # r"] obtain c cs where
      c: "js_join '','' (map json xs) @ CHR '']'' # r = c # cs" "\<not> is_ws c" "c \<noteq> CHR '']''"
      using Cons by auto
    with parse_array_json [OF assms(1), of k "[]" r] fuel Cons
    show "parse_value n (json (JArr xs) @ r) = Some (JArr xs, r)"
      by (simp add: n)
  qed
qed

lemma parses_obj:
  assumes "list_all (\<lambda>(k, v). parses v) m" and "distinct (okeys m)"
  shows "parses (JObj m)"
  unfolding parses_def
proof (intro allI impI)
  fix n and r :: string
  assume fuel: "jfuel (JObj m) \<le> n"
  then obtain k where n: "n = Suc k" by (cases n) auto
  show "parse_value n (json (JObj m) @ r) = Some (JObj m, r)"
  proof (cases m)
    case Nil
    then show ?thesis by (simp add: n)
  next
    case (Cons p ps)
    let ?text = "map (\<lambda>(k, v). quoteString k @ '':'' @ json v)"
    have "\<exists>c cs. (case p of (k, v) \<Rightarrow> quoteString k @ '':'' @ json v) = c # cs \<and> c = CHR 0x22"
      by (cases p) (simp add: quoteString_eq)
    from join_first [OF this, of "'',''" "?text ps" "CHR ''}'' # r"] obtain cs where
      "js_join '','' (?text m) @ CHR ''}'' # r = CHR 0x22 # cs" using Cons by auto
    with parse_object_json [OF assms(1), of "[]" k r] fuel Cons assms(2) show ?thesis
      by (simp add: n)
  qed
qed

lemma parses_json: "jsonable v \<Longrightarrow> parses v"
proof (induction v)
  case JNull
  show ?case unfolding parses_def
    by (intro allI impI, case_tac n) (auto simp: strip_prefix_def)
next
  case (JBool b)
  show ?case unfolding parses_def
    by (intro allI impI, case_tac n) (auto simp: strip_prefix_def)
next
  case (JNum i)
  show ?case unfolding parses_def
    by (intro allI impI, case_tac n) (simp_all add: parse_value_num del: parse_value.simps(2))
next
  case (JStr s)
  show ?case unfolding parses_def
    by (intro allI impI, case_tac n) (simp_all add: parse_value_str del: parse_value.simps(2))
next
  case (JArr xs)
  then show ?case by (intro parses_arr) (auto simp: list_all_iff)
next
  case (JObj m)
  then show ?case by (intro parses_obj) (fastforce simp: list_all_iff)+
qed simp

lemma length_js_join:
  "ps \<noteq> [] \<Longrightarrow> length (js_join '','' ps) + 1 = sum_list (map (\<lambda>p. Suc (length p)) ps)"
  by (induction "'',''" ps rule: js_join.induct) auto

lemma jfuel_le: "jsonable v \<Longrightarrow> jfuel v \<le> length (json v)"
proof (induction v)
  case (JNum i)
  obtain c cs where "str_of_int i = c # cs" by (rule str_of_int_first)
  then show ?case by simp
next
  case (JArr xs)
  then have "sum_list (map (\<lambda>x. Suc (jfuel x)) xs) \<le> sum_list (map (\<lambda>x. Suc (length (json x))) xs)"
    by (intro sum_list_mono) (auto simp: list_all_iff)
  then show ?case using length_js_join [of "map json xs"] by (cases "xs = []") (auto simp: o_def)
next
  case (JObj m)
  let ?t = "\<lambda>(k, v). quoteString k @ '':'' @ json v"
  have "sum_list (map (\<lambda>(k, v). Suc (jfuel v)) m) \<le> sum_list (map (\<lambda>p. Suc (length (?t p))) m)"
    using JObj by (intro sum_list_mono) (fastforce simp: list_all_iff)
  then show ?case using length_js_join [of "map ?t m"] by (cases "m = []") (auto simp: o_def)
qed (auto simp: quoteString_eq)

lemma json_parse_json:
  assumes "jsonable v"
  shows "json_parse (json v) = Some v"
proof -
  have "parse_value (Suc (length (json v))) (json v @ []) = Some (v, [])"
    using parses_json [OF assms] jfuel_le [OF assms] unfolding parses_def
    by (metis le_SucI stops_simps(1))
  then show ?thesis by (simp add: json_parse_def skip_ws_def)
qed

section \<open>Properties\<close>

text \<open>
  C13. \<^verbatim>\<open>JSON.parse\<close> reads back what \<^verbatim>\<open>$.toJSON\<close> writes, for every value without \<^verbatim>\<open>undefined\<close>: strings
  with quotes, backslashes and control characters, nested arrays and objects included.
\<close>

theorem json_round_trip:
  assumes "jsonable v"
  shows "\<exists>s. toJSON v = Some s \<and> json_parse s = Some v"
  using toJSON_json [OF assms] json_parse_json [OF assms] by blast

theorem json_round_trip_witness:
  "\<exists>s. toJSON (JObj [(''a'', JArr [JNum (- 12), JStr [CHR 0x22, CHR 0x01]]), (''b'', JNull)]) = Some s \<and>
     json_parse s = Some (JObj [(''a'', JArr [JNum (- 12), JStr [CHR 0x22, CHR 0x01]]), (''b'', JNull)])"
  by (rule json_round_trip) simp

end
