(* ===== verification/Twister_Rpc.thy ===== *)
theory Twister_Rpc
  imports Twister_Io Json_Rpc Json_Text
begin

text \<open>
  The other exported operations of \<^verbatim>\<open>twister_io.js\<close>: \<^verbatim>\<open>twisterRpc\<close> over the JSON-RPC client, the
  key dumps, \<^verbatim>\<open>dhtput\<close>, \<^verbatim>\<open>getposts\<close>, \<^verbatim>\<open>getlasthave\<close> and \<^verbatim>\<open>getStructure\<close>. A handler passed to
  \<^verbatim>\<open>twisterRpc\<close> is a definition of its own, from the answer to the effects it has.
\<close>

section \<open>twisterRpc\<close>

text \<open>The request: a new client each time, so always over HTTP and with id 1.\<close>

definition twisterRpc :: "string \<Rightarrow> js list \<Rightarrow> (js option \<times> rpc_client) result" where
  "twisterRpc meth params =
     rpc_call True meth (JArr params) 0 (new_client (Some ''/'') None (Some ''user''))"

text \<open>Which of the two functions of the caller runs, and with what.\<close>

datatype rpc_reply = ResultFunc js | ErrorFunc js

fun twisterRpc_cb :: "hcall \<Rightarrow> rpc_reply list" where
  "twisterRpc_cb (SuccessCb ret) = [ResultFunc ret]"
| "twisterRpc_cb (ErrorCb ret) = (if ret \<noteq> JNull then [ErrorFunc ret] else [])"

text \<open>An HTTP answer: the parsed body of a 2xx response, or the text of a failed one.\<close>

datatype http_answer = HttpOk js | HttpFail string

text \<open>\<open>errThrows\<close>: for which errors \<^verbatim>\<open>errorFunc\<close> raises an exception.\<close>

definition twisterRpc_answer :: "(js \<Rightarrow> bool) \<Rightarrow> http_answer \<Rightarrow> rpc_reply list result" where
  "twisterRpc_answer errThrows a =
     (let throws = (\<lambda>e. e \<noteq> JNull \<and> errThrows e)
      in (case a of
            HttpOk data \<Rightarrow>
              (case ajaxSuccess throws data of
                 Inl e \<Rightarrow> Inl e
               | Inr hs \<Rightarrow> Inr (concat (map twisterRpc_cb hs)))
          | HttpFail body \<Rightarrow> Inr (concat (map twisterRpc_cb (ajaxError throws body (json_parse body))))))"

section \<open>Key dumps and dhtput\<close>

text \<open>\<open>cbFunc\<close> names the caller's function; \<open>t\<close> is \<^verbatim>\<open>polyglot.t\<close>.\<close>

definition dumpPubkey :: "string \<Rightarrow> effs" where
  "dumpPubkey username = [Rpc ''dumppubkey'' [JStr username]]"

definition dumpPubkey_reply :: "(string \<Rightarrow> string) \<Rightarrow> string \<Rightarrow> rpc_reply \<Rightarrow> effs" where
  "dumpPubkey_reply t cbFunc r = (case r of
     ResultFunc ret \<Rightarrow> [Call cbFunc [ret]]
   | ErrorFunc _ \<Rightarrow> [Alert (t ''error_connecting_to_daemon'')])"

definition dumpPrivkey :: "string \<Rightarrow> effs" where
  "dumpPrivkey username = [Rpc ''dumpprivkey'' [JStr username]]"

definition dumpPrivkey_reply :: "string \<Rightarrow> rpc_reply \<Rightarrow> effs" where
  "dumpPrivkey_reply cbFunc r = (case r of
     ResultFunc ret \<Rightarrow> [Call cbFunc [ret]]
   | ErrorFunc _ \<Rightarrow> [Call cbFunc [JStr ''''], Log ''dumpprivkey: user unknown''])"

definition dhtput :: "string \<Rightarrow> string \<Rightarrow> string \<Rightarrow> js \<Rightarrow> string \<Rightarrow> int \<Rightarrow> effs" where
  "dhtput username resource multi v sig seq =
     [Rpc ''dhtput'' [JStr username, JStr resource, JStr multi, v, JStr sig, JNum seq]]"

text \<open>
  On an error the handler gets \<^verbatim>\<open>cbArg\<close> itself as \<^verbatim>\<open>args\<close>, not the pair with \<^verbatim>\<open>cbFunc\<close>: it reads
  \<^verbatim>\<open>cbArg.cbFunc\<close>, which is there only by chance.
\<close>

definition dhtput_reply :: "string option \<Rightarrow> js \<Rightarrow> rpc_reply \<Rightarrow> effs result" where
  "dhtput_reply cbFunc cbArg r = (case r of
     ResultFunc _ \<Rightarrow>
       Inr (case cbFunc of None \<Rightarrow> [] | Some f \<Rightarrow> [Call f [cbArg, JBool True]])
   | ErrorFunc ret \<Rightarrow>
       (case js_prop cbArg ''cbFunc'' of
          Inl e \<Rightarrow> Inl e
        | Inr f \<Rightarrow>
            (if truthy f
             then (case f of
                     JStr g \<Rightarrow> Inr [Log ''ajax error:'', Call g [JBool False]]
                   | _ \<Rightarrow> Inl TypeErr)
             else Inr [Log ''ajax error:''])))"

section \<open>Last haves\<close>

text \<open>\<^verbatim>\<open>processLastHave\<close> of \<^verbatim>\<open>twister_io.js\<close>: the loop over the users, with \<^verbatim>\<open>should_reload\<close>.\<close>

definition lastHaveStep :: "string \<times> int \<Rightarrow> int obj \<times> bool \<Rightarrow> int obj \<times> bool" where
  "lastHaveStep uh acc = (case (uh, acc) of ((user, have), (m, should_reload)) \<Rightarrow>
     (oset m user have,
      should_reload \<or> (case oget m user of None \<Rightarrow> False | Some old \<Rightarrow> have > old)))"

definition processLastHave :: "string \<Rightarrow> int obj \<Rightarrow> io_state \<Rightarrow> effs \<times> io_state" where
  "processLastHave reloadCallback userHaves st =
     (let (m, should_reload) = fold lastHaveStep userHaves (lastHaveMap st, False)
      in (if should_reload then [Call reloadCallback []] else [], st\<lparr>lastHaveMap := m\<rparr>))"

definition getlasthave :: "string \<Rightarrow> effs" where
  "getlasthave current_user = [Rpc ''getlasthave'' [JStr current_user]]"

section \<open>Posts and the page structure\<close>

text \<open>The comparisons are with the string \<^verbatim>\<open>'undefined'\<close>.\<close>

definition getposts :: "string \<Rightarrow> js \<Rightarrow> js \<Rightarrow> js \<Rightarrow> effs" where
  "getposts username limit max_post since =
     (let undefined_str = JStr ''undefined'';
          paramObj = [(''username'', JStr username)];
          paramObj1 = (if max_post \<noteq> undefined_str then oset paramObj ''max'' max_post else paramObj);
          paramObj2 = (if since \<noteq> undefined_str then oset paramObj1 ''since'' since else paramObj1);
          p_limit = (if limit = undefined_str then limit else JNum 10)
      in [Rpc ''getposts'' [p_limit, JArr [JObj paramObj2]]])"

text \<open>
  \<^verbatim>\<open>getStructure\<close>: the structure is JSON text from the block chain; the order in which to show the users
  is a DHT resource of the user it names, and replaces the name.
\<close>

definition getStructure :: effs where
  "getStructure = [Rpc ''getstructure'' []]"

definition getStructure_reply :: "rpc_reply \<Rightarrow> (js option \<times> effs) result" where
  "getStructure_reply r = (case r of
     ResultFunc (JStr s) \<Rightarrow>
       (case json_parse s of
          None \<Rightarrow> Inl (Thrown ''SyntaxError'')
        | Some structure \<Rightarrow>
            (case js_prop structure ''order'' of
               Inl e \<Rightarrow> Inl e
             | Inr ord \<Rightarrow> Inr (Some structure, [Log s, Log s, Rpc ''dhtget'' [ord, JStr ''order'', JStr ''s'']])))
   | ResultFunc _ \<Rightarrow> Inl (Thrown ''SyntaxError'')
   | ErrorFunc _ \<Rightarrow> Inr (None, [Log ''error'']))"

definition getStructure_order :: "string \<Rightarrow> js obj \<Rightarrow> dht_item list \<Rightarrow> effs result" where
  "getStructure_order cbFunc structure res = (case res of
     [] \<Rightarrow> Inl TypeErr
   | x # _ \<Rightarrow> Inr [Call cbFunc [JObj (oset structure ''order'' (p_v x))]])"

section \<open>Lemmas\<close>

lemma lastHaveStep_eq:
  "lastHaveStep (u, h) (m, b) =
     (oset m u h, b \<or> (case oget m u of None \<Rightarrow> False | Some old \<Rightarrow> old < h))"
  by (simp add: lastHaveStep_def)

lemma lastHave_map:
  "distinct (okeys hs) \<Longrightarrow> oget (fst (fold lastHaveStep hs (m, b))) u =
     (case oget hs u of None \<Rightarrow> oget m u | Some h \<Rightarrow> Some h)"
proof (induction hs arbitrary: m b)
  case (Cons p hs)
  obtain v h where p: "p = (v, h)" by (cases p)
  with Cons.prems have "oget hs v = None" by (simp add: map_of_eq_None_iff)
  with Cons p show ?case by (auto simp: lastHaveStep_eq oget_oset split: option.split)
qed simp

definition newer :: "int obj \<Rightarrow> int obj \<Rightarrow> bool" where
  "newer hs m = (\<exists>u h old. oget hs u = Some h \<and> oget m u = Some old \<and> old < h)"

lemma newer_Cons:
  "oget hs u = None \<Longrightarrow> newer ((u, h) # hs) m \<longleftrightarrow>
     (case oget m u of None \<Rightarrow> False | Some old \<Rightarrow> old < h) \<or> newer hs m"
  unfolding newer_def by (cases "oget m u") (auto, (metis option.distinct(1))+)

lemma newer_oset: "oget hs u = None \<Longrightarrow> newer hs (oset m u h) = newer hs m"
  unfolding newer_def by (metis oget_oset option.distinct(1))

lemma lastHave_reload:
  "distinct (okeys hs) \<Longrightarrow> snd (fold lastHaveStep hs (m, b)) \<longleftrightarrow> b \<or> newer hs m"
proof (induction hs arbitrary: m b)
  case Nil
  then show ?case by (simp add: newer_def)
next
  case (Cons p hs)
  obtain u h where p: "p = (u, h)" by (cases p)
  with Cons.prems have "oget hs u = None" by (simp add: map_of_eq_None_iff)
  with Cons p show ?case by (auto simp: lastHaveStep_eq newer_Cons newer_oset)
qed

section \<open>Properties\<close>

text \<open>
  \<^verbatim>\<open>twisterRpc\<close> posts the request to the page's own origin, and for an answer of the daemon that
  follows JSON-RPC 1.0 exactly one of the two functions runs: the result function for a result with
  \<^verbatim>\<open>error\<close> null, the error function for a failed request with an error object or with a body that
  is not JSON.
\<close>

theorem twisterRpc_one_handler:
  assumes "\<not> errThrows e" and "e \<noteq> JNull" and "json_parse body = None"
    and "json_parse text = Some (JObj [(''result'', JNull), (''error'', e), (''id'', JNum 1)])"
  shows "(\<exists>c. twisterRpc meth ps = Inr (Some (rpc_object meth (JArr ps) (Some 1)), c)) \<and>
    twisterRpc_answer errThrows (HttpOk (JObj [(''result'', r), (''error'', JNull), (''id'', JNum 1)])) =
      Inr [ResultFunc r] \<and>
    twisterRpc_answer errThrows (HttpFail text) = Inr [ErrorFunc e] \<and>
    twisterRpc_answer errThrows (HttpFail body) = Inr [ErrorFunc (JObj [(''error'', JStr body)])]"
  using assms
  by (simp add: twisterRpc_def rpc_call_def getSocket_def new_client_def Let_def
      twisterRpc_answer_def ajaxSuccess_def ajaxError_def ohas_def)

theorem twisterRpc_one_handler_witness:
  "twisterRpc_answer (\<lambda>_. False) (HttpFail ''{\"result\":null,\"error\":3,\"id\":1}'') = Inr [ErrorFunc (JNum 3)]"
proof -
  have "json_parse ''{\"result\":null,\"error\":3,\"id\":1}'' =
      Some (JObj [(''result'', JNull), (''error'', JNum 3), (''id'', JNum 1)])"
    by code_simp
  moreover have "json_parse ''<html>'' = None" by code_simp
  ultimately show ?thesis
    using twisterRpc_one_handler [of "\<lambda>_. False" "JNum 3" "''<html>''"
        "''{\"result\":null,\"error\":3,\"id\":1}''" "''m''" "[]" JNull]
    by blast
qed

text \<open>
  A 2xx answer with an error object runs both functions: the success handler of the client does
  not return after the error callback, so the result function gets the (null) result as well.
\<close>

theorem rpc_error_then_success:
  assumes "e \<noteq> JNull" and "\<not> errThrows e"
  shows "twisterRpc_answer errThrows (HttpOk (JObj [(''result'', r), (''error'', e), (''id'', JNum 1)])) =
    Inr [ErrorFunc e, ResultFunc r]"
  using assms by (simp add: twisterRpc_answer_def ajaxSuccess_def ohas_def Let_def)

theorem rpc_error_then_success_witness:
  "twisterRpc_answer (\<lambda>_. False)
     (HttpOk (JObj [(''result'', JNull), (''error'', JStr ''x''), (''id'', JNum 1)])) =
   Inr [ErrorFunc (JStr ''x''), ResultFunc JNull]"
  using rpc_error_then_success [of "JStr ''x''" "\<lambda>_. False" JNull] by simp

text \<open>
  \<^verbatim>\<open>processLastHave\<close> records the new numbers of every user in the answer and keeps those of the
  others, and asks for a reload exactly when a user it knew already has a higher number.
\<close>

theorem processLastHave_correct:
  assumes "distinct (okeys userHaves)"
  shows "oget (lastHaveMap (snd (processLastHave cb userHaves st))) u =
      (case oget userHaves u of None \<Rightarrow> oget (lastHaveMap st) u | Some h \<Rightarrow> Some h) \<and>
    (fst (processLastHave cb userHaves st) = [Call cb []] \<longleftrightarrow>
      (\<exists>v h old. oget userHaves v = Some h \<and> oget (lastHaveMap st) v = Some old \<and> old < h))"
  using lastHave_map [OF assms, of "lastHaveMap st" False u]
    lastHave_reload [OF assms, of "lastHaveMap st" False]
  by (simp add: processLastHave_def split_beta Let_def newer_def)

theorem processLastHave_correct_witness:
  "oget (lastHaveMap (snd (processLastHave ''reload'' [(''bob'', 3)] io_init))) ''bob'' = Some 3"
  using processLastHave_correct [of "[(''bob'', 3)]" "''reload''" io_init "''bob''"] by simp

text \<open>
  \<^verbatim>\<open>getposts\<close> asks for ten posts whatever limit the caller passes (unless it is the string
  \<^verbatim>\<open>'undefined'\<close>), and passes absent bounds on as members with the value \<^verbatim>\<open>undefined\<close>.
\<close>

theorem getposts_ignores_limit:
  "getposts username (JNum limit) JUndef JUndef =
     [Rpc ''getposts'' [JNum 10, JArr [JObj [(''username'', JStr username), (''max'', JUndef),
        (''since'', JUndef)]]]]"
  by (simp add: getposts_def Let_def)

end
