(* ===== verification/Storage_Api.thy ===== *)
theory Storage_Api
  imports Json_Text
begin

text \<open>
  \<^verbatim>\<open>jquery.storageapi.js\<close>: typed values over the browser's string storage. \<open>store\<close> is one
  \<^verbatim>\<open>Storage\<close> object (\<^verbatim>\<open>localStorage\<close> or \<^verbatim>\<open>sessionStorage\<close>): a map from names to texts. The functions
  with a variable number of arguments are split by the shape of their arguments (one name, a list of
  names, a path of names). The cookie fallback needs a plugin that is not part of the repository.

  The locale \<open>key_value_store\<close> is what the scripts rely on when they save and load their state. It is
  interpreted for the plain storage, where text that reads as JSON does not come back as text, and
  for a namespace, where every JSON value does.
\<close>

type_synonym store = "string obj"

section \<open>Conversion to a string\<close>

text \<open>\<^verbatim>\<open>String(v)\<close>, which \<^verbatim>\<open>setItem\<close> applies to its argument.\<close>

fun js_string :: "js \<Rightarrow> string" where
  "js_string JUndef = ''undefined''"
| "js_string JNull = ''null''"
| "js_string (JBool b) = (if b then ''true'' else ''false'')"
| "js_string (JNum n) = str_of_int n"
| "js_string (JStr s) = s"
| "js_string (JArr xs) = js_join '','' (map (\<lambda>x. case x of
      JUndef \<Rightarrow> '''' | JNull \<Rightarrow> '''' | _ \<Rightarrow> js_string x) xs)"
| "js_string (JObj m) = ''[object Object]''"

definition is_plain_object :: "js \<Rightarrow> bool" where
  "is_plain_object v = (case v of JObj _ \<Rightarrow> True | _ \<Rightarrow> False)"

text \<open>\<^verbatim>\<open>typeof v === 'object'\<close>.\<close>

definition typeof_object :: "js \<Rightarrow> bool" where
  "typeof_object v = (case v of JObj _ \<Rightarrow> True | JArr _ \<Rightarrow> True | JNull \<Rightarrow> True | _ \<Rightarrow> False)"

text \<open>\<^verbatim>\<open>JSON.stringify\<close> of a value that is not \<^verbatim>\<open>undefined\<close>.\<close>

definition stringify :: "js \<Rightarrow> string" where
  "stringify v = (case toJSON v of Some t \<Rightarrow> t | None \<Rightarrow> ''undefined'')"

section \<open>Reading\<close>

text \<open>\<^verbatim>\<open>JSON.parse(s.getItem(k))\<close>: a missing item is \<^verbatim>\<open>null\<close>, which parses as \<^verbatim>\<open>null\<close>.\<close>

definition parse_item :: "store \<Rightarrow> string \<Rightarrow> js option" where
  "parse_item s k = (case oget s k of None \<Rightarrow> Some JNull | Some t \<Rightarrow> json_parse t)"

definition storage_get :: "store \<Rightarrow> string \<Rightarrow> js" where
  "storage_get s k = (case parse_item s k of
     Some v \<Rightarrow> v
   | None \<Rightarrow> (case oget s k of Some t \<Rightarrow> JStr t | None \<Rightarrow> JNull))"

definition storage_get_many :: "store \<Rightarrow> string list \<Rightarrow> js" where
  "storage_get_many s ks = JObj (fold (\<lambda>k ret. oset ret k (storage_get s k)) ks [])"

text \<open>The inner levels: a level that is not there raises.\<close>

fun get_levels :: "js \<Rightarrow> string list \<Rightarrow> js result" where
  "get_levels v [] = Inr v"
| "get_levels v (k # ks) = (case js_prop v k of
     Inl e \<Rightarrow> Inl e
   | Inr JUndef \<Rightarrow> Inl (RefErr k)
   | Inr w \<Rightarrow> get_levels w ks)"

definition storage_get_path :: "store \<Rightarrow> string \<Rightarrow> string list \<Rightarrow> string \<Rightarrow> js result" where
  "storage_get_path s a1 ks k = (case parse_item s a1 of
     None \<Rightarrow> Inl (RefErr a1)
   | Some v \<Rightarrow> (case get_levels v ks of Inl e \<Rightarrow> Inl e | Inr w \<Rightarrow> js_prop w k))"

text \<open>\<^verbatim>\<open>tmp[k]\<close> for each of the names.\<close>

fun js_props :: "js \<Rightarrow> string list \<Rightarrow> js obj \<Rightarrow> js result" where
  "js_props v [] ret = Inr (JObj ret)"
| "js_props v (k # ks) ret = (case js_prop v k of
     Inl e \<Rightarrow> Inl e | Inr w \<Rightarrow> js_props v ks (oset ret k w))"

definition storage_get_path_many ::
    "store \<Rightarrow> string \<Rightarrow> string list \<Rightarrow> string list \<Rightarrow> js result" where
  "storage_get_path_many s a1 ks names = (case parse_item s a1 of
     None \<Rightarrow> Inl (RefErr a1)
   | Some v \<Rightarrow> (case get_levels v ks of Inl e \<Rightarrow> Inl e | Inr w \<Rightarrow> js_props w names []))"

section \<open>Writing\<close>

definition storage_set_all :: "store \<Rightarrow> js obj \<Rightarrow> store" where
  "storage_set_all s m = fold (\<lambda>(k, v) s'. oset s' k
     (if is_plain_object v then stringify v else js_string v)) m s"

definition storage_set :: "store \<Rightarrow> string \<Rightarrow> js \<Rightarrow> store" where
  "storage_set s k v = oset s k (if typeof_object v then stringify v else js_string v)"

text \<open>
  The node at a path: inner levels that are not plain objects become empty objects. A property
  assigned to a number, a string or an array is not part of its JSON text.
\<close>

fun set_path :: "js \<Rightarrow> string list \<Rightarrow> js \<Rightarrow> js result" where
  "set_path t [] v = Inr t"
| "set_path (JObj m) [k] v = Inr (JObj (oset m k v))"
| "set_path (JObj m) (k # k' # ks) v =
     (case set_path (case oget m k of Some (JObj m') \<Rightarrow> JObj m' | _ \<Rightarrow> JObj []) (k' # ks) v of
        Inl e \<Rightarrow> Inl e
      | Inr t \<Rightarrow> Inr (JObj (oset m k t)))"
| "set_path JNull (k # ks) v = Inl TypeErr"
| "set_path t [k] v = Inr t"
| "set_path t (k # k' # ks) v = Inl TypeErr"

definition storage_set_path :: "store \<Rightarrow> string \<Rightarrow> string list \<Rightarrow> js \<Rightarrow> store result" where
  "storage_set_path s a1 path v =
     (let to_store = (case oget s a1 of
            None \<Rightarrow> JObj []
          | Some t \<Rightarrow> (case json_parse t of None \<Rightarrow> JObj [] | Some x \<Rightarrow> x))
      in (case set_path to_store path v of
            Inl e \<Rightarrow> Inl e
          | Inr t \<Rightarrow> Inr (oset s a1 (stringify t))))"

section \<open>Removing\<close>

definition storage_remove :: "store \<Rightarrow> string list \<Rightarrow> store" where
  "storage_remove s ks = fold (\<lambda>k s'. odel s' k) ks s"

fun del_names :: "js \<Rightarrow> string list \<Rightarrow> js result" where
  "del_names (JObj m) names = Inr (JObj (fold (\<lambda>k m'. odel m' k) names m))"
| "del_names JUndef names = Inl TypeErr"
| "del_names JNull names = (if names = [] then Inr JNull else Inl TypeErr)"
| "del_names t names = Inr t"

fun del_path :: "js \<Rightarrow> string list \<Rightarrow> string list \<Rightarrow> js result" where
  "del_path t [] names = del_names t names"
| "del_path t (k # ks) names = (case js_prop t k of
     Inl e \<Rightarrow> Inl e
   | Inr JUndef \<Rightarrow> Inl (RefErr k)
   | Inr w \<Rightarrow>
       (case del_path w ks names of
          Inl e \<Rightarrow> Inl e
        | Inr w' \<Rightarrow> Inr (case t of JObj m \<Rightarrow> JObj (oset m k w') | _ \<Rightarrow> t)))"

definition storage_remove_path ::
    "store \<Rightarrow> string \<Rightarrow> string list \<Rightarrow> string list \<Rightarrow> store result" where
  "storage_remove_path s a1 ks names = (case parse_item s a1 of
     None \<Rightarrow> Inl (RefErr a1)
   | Some v \<Rightarrow> (case del_path v ks names of
        Inl e \<Rightarrow> Inl e
      | Inr t \<Rightarrow> Inr (oset s a1 (stringify t))))"

definition storage_keys :: "store \<Rightarrow> string list" where
  "storage_keys s = okeys s"

definition storage_removeAll :: "store \<Rightarrow> store" where
  "storage_removeAll s = fold (\<lambda>k s'. storage_remove s' [k]) (storage_keys s) s"

section \<open>Tests\<close>

definition present :: "js \<Rightarrow> bool" where
  "present v = (v \<noteq> JUndef \<and> v \<noteq> JNull)"

definition storage_isSet :: "store \<Rightarrow> string \<Rightarrow> bool" where
  "storage_isSet s k = present (storage_get s k)"

definition storage_isSet_many :: "store \<Rightarrow> string list \<Rightarrow> bool" where
  "storage_isSet_many s ks = list_all (storage_isSet s) ks"

definition storage_isSet_path :: "store \<Rightarrow> string \<Rightarrow> string list \<Rightarrow> string \<Rightarrow> bool" where
  "storage_isSet_path s a1 ks k = (case storage_get_path s a1 ks k of
     Inl _ \<Rightarrow> False | Inr v \<Rightarrow> present v)"

definition empty_item :: "js \<Rightarrow> bool" where
  "empty_item v = (v = JObj [] \<or> v = JArr [] \<or> \<not> truthy v)"

definition storage_isEmpty :: "store \<Rightarrow> string \<Rightarrow> bool" where
  "storage_isEmpty s k = empty_item (storage_get s k)"

definition storage_isEmpty_path :: "store \<Rightarrow> string \<Rightarrow> string list \<Rightarrow> string \<Rightarrow> bool" where
  "storage_isEmpty_path s a1 ks k = (case storage_get_path s a1 ks k of
     Inl _ \<Rightarrow> True | Inr v \<Rightarrow> empty_item v)"

section \<open>Namespaces\<close>

text \<open>
  \<^verbatim>\<open>$.initNamespaceStorage(name)\<close> on one storage; the namespace object passes its name as the first
  argument to the functions above (\<^verbatim>\<open>_callMethod\<close>).
\<close>

definition createNamespace :: "string \<Rightarrow> store \<Rightarrow> store result" where
  "createNamespace name s =
     (if name = '''' then Inl (Thrown ''First parameter must be a string'')
      else Inr (case oget s name of
                  Some (_ # _) \<Rightarrow> s
                | _ \<Rightarrow> oset s name ''{}''))"

definition ns_get :: "string \<Rightarrow> store \<Rightarrow> string \<Rightarrow> js result" where
  "ns_get ns s k = storage_get_path s ns [] k"

definition ns_set :: "string \<Rightarrow> store \<Rightarrow> string \<Rightarrow> js \<Rightarrow> store result" where
  "ns_set ns s k v = storage_set_path s ns [k] v"

text \<open>A sequence of \<^verbatim>\<open>set\<close> calls on one namespace.\<close>

fun ns_set_each :: "string \<Rightarrow> js obj \<Rightarrow> store \<Rightarrow> store result" where
  "ns_set_each ns [] s = Inr s"
| "ns_set_each ns ((k, v) # kvs) s = rbind (ns_set ns s k v) (ns_set_each ns kvs)"

definition ns_isSet :: "string \<Rightarrow> store \<Rightarrow> string \<Rightarrow> bool" where
  "ns_isSet ns s k = storage_isSet_path s ns [] k"

definition ns_remove :: "string \<Rightarrow> store \<Rightarrow> string \<Rightarrow> store result" where
  "ns_remove ns s k = storage_remove_path s ns [] [k]"

definition ns_removeAll :: "string \<Rightarrow> store \<Rightarrow> store" where
  "ns_removeAll ns s = storage_set s ns (JObj [])"

section \<open>The contract the scripts rely on\<close>

locale key_value_store =
  fixes ok :: "'s \<Rightarrow> bool"
    and storable :: "js \<Rightarrow> bool"
    and get :: "'s \<Rightarrow> string \<Rightarrow> js"
    and put :: "'s \<Rightarrow> string \<Rightarrow> js \<Rightarrow> 's"
  assumes put_ok: "ok s \<Longrightarrow> storable v \<Longrightarrow> ok (put s k v)"
    and get_put: "ok s \<Longrightarrow> storable v \<Longrightarrow> get (put s k v) k' = (if k' = k then v else get s k')"
begin

lemma puts_ok:
  "ok s \<Longrightarrow> list_all (\<lambda>(k, v). storable v) kvs \<Longrightarrow> ok (fold (\<lambda>(k, v) s. put s k v) kvs s)"
  by (induction kvs arbitrary: s) (auto simp: put_ok)

lemma get_puts:
  "ok s \<Longrightarrow> list_all (\<lambda>(k, v). storable v) kvs \<Longrightarrow> distinct (okeys kvs) \<Longrightarrow>
   get (fold (\<lambda>(k, v) s. put s k v) kvs s) k = (case oget kvs k of Some v \<Rightarrow> v | None \<Rightarrow> get s k)"
proof (induction kvs arbitrary: s)
  case (Cons p kvs)
  obtain k' v where p: "p = (k', v)" by (cases p)
  with Cons.prems have "oget kvs k' = None" by (simp add: map_of_eq_None_iff)
  with Cons p show ?case by (auto simp: put_ok get_put split: option.splits)
qed simp

end

subsection \<open>Plain storage\<close>

text \<open>A string that reads as JSON text comes back as the value it denotes, not as a string.\<close>

definition plain_storable :: "js \<Rightarrow> bool" where
  "plain_storable v = (case v of JStr t \<Rightarrow> json_parse t = None | _ \<Rightarrow> jsonable v)"

lemma stringify_json: "jsonable v \<Longrightarrow> stringify v = json v"
  by (simp add: stringify_def toJSON_json)

lemma storage_set_text:
  assumes "plain_storable v"
  shows "storage_set s k v = oset s k (case v of JStr t \<Rightarrow> t | _ \<Rightarrow> json v)"
  using assms
  by (cases v) (auto simp: plain_storable_def storage_set_def typeof_object_def stringify_json)

lemma storage_get_set:
  assumes "plain_storable v"
  shows "storage_get (storage_set s k v) k' = (if k' = k then v else storage_get s k')"
proof (cases "k' = k")
  case True
  show ?thesis
  proof (cases "\<exists>t. v = JStr t")
    case True
    with assms \<open>k' = k\<close> show ?thesis
      by (auto simp: storage_set_text [OF assms] storage_get_def parse_item_def oget_oset
          plain_storable_def)
  next
    case False
    with assms have "jsonable v" "(case v of JStr t \<Rightarrow> t | _ \<Rightarrow> json v) = json v"
      by (auto simp: plain_storable_def split: js.splits)
    with \<open>k' = k\<close> show ?thesis
      by (simp add: storage_set_text [OF assms] storage_get_def parse_item_def oget_oset
          json_parse_json)
  qed
next
  case False
  then have "oget (storage_set s k v) k' = oget s k'" by (simp add: storage_set_def oget_oset)
  with False show ?thesis by (simp only: storage_get_def parse_item_def if_False)
qed

interpretation plain: key_value_store "\<lambda>s. True" plain_storable storage_get storage_set
  by unfold_locales (simp_all add: storage_get_set)

subsection \<open>Namespaces\<close>

text \<open>\<open>ns_read\<close> and \<open>ns_write\<close> are \<open>ns_get\<close> and \<open>ns_set\<close> where these do not raise.\<close>

definition ns_read :: "string \<Rightarrow> store \<Rightarrow> string \<Rightarrow> js" where
  "ns_read ns s k = (case ns_get ns s k of Inr v \<Rightarrow> v | Inl _ \<Rightarrow> JUndef)"

definition ns_write :: "string \<Rightarrow> store \<Rightarrow> string \<Rightarrow> js \<Rightarrow> store" where
  "ns_write ns s k v = (case ns_set ns s k v of Inr s' \<Rightarrow> s' | Inl _ \<Rightarrow> s)"

definition ns_ok :: "string \<Rightarrow> store \<Rightarrow> bool" where
  "ns_ok ns s = (case oget s ns of None \<Rightarrow> False | Some t \<Rightarrow>
     (case json_parse t of Some (JObj m) \<Rightarrow> jsonable (JObj m) | _ \<Rightarrow> False))"

lemma ns_okE:
  assumes "ns_ok ns s"
  obtains t m where "oget s ns = Some t" "json_parse t = Some (JObj m)" "jsonable (JObj m)"
  using assms unfolding ns_ok_def by (auto split: option.splits js.splits)

lemma ns_get_ok:
  "oget s ns = Some t \<Longrightarrow> json_parse t = Some (JObj m) \<Longrightarrow>
   ns_get ns s k = Inr (case oget m k of None \<Rightarrow> JUndef | Some v \<Rightarrow> v)"
  by (simp add: ns_get_def storage_get_path_def parse_item_def)

lemma ns_set_ok:
  assumes "oget s ns = Some t" and "json_parse t = Some (JObj m)" and "jsonable (JObj m)"
    and "jsonable v"
  shows "ns_set ns s k v = Inr (oset s ns (json (JObj (oset m k v))))"
    and "json_parse (json (JObj (oset m k v))) = Some (JObj (oset m k v))"
    and "jsonable (JObj (oset m k v))"
proof -
  show j: "jsonable (JObj (oset m k v))" using assms by (auto intro: list_all_oset)
  with assms show "ns_set ns s k v = Inr (oset s ns (json (JObj (oset m k v))))"
    by (simp add: ns_set_def storage_set_path_def stringify_json del: json.simps jsonable.simps)
  show "json_parse (json (JObj (oset m k v))) = Some (JObj (oset m k v))"
    using j by (rule json_parse_json)
qed

lemma ns_write_ok:
  assumes "ns_ok ns s" and "jsonable v"
  shows "ns_ok ns (ns_write ns s k v)" and "ns_set ns s k v = Inr (ns_write ns s k v)"
    and "ns_read ns (ns_write ns s k v) k' = (if k' = k then v else ns_read ns s k')"
proof -
  obtain t m where t: "oget s ns = Some t" "json_parse t = Some (JObj m)" "jsonable (JObj m)"
    using ns_okE [OF assms(1)] by blast
  note set = ns_set_ok [OF t assms(2), of k]
  then have w: "ns_write ns s k v = oset s ns (json (JObj (oset m k v)))"
    by (simp add: ns_write_def del: json.simps)
  from set w show "ns_set ns s k v = Inr (ns_write ns s k v)" by simp
  from set w show "ns_ok ns (ns_write ns s k v)"
    by (simp add: ns_ok_def oget_oset del: json.simps jsonable.simps)
  have "ns_get ns (ns_write ns s k v) k' = Inr (case oget (oset m k v) k' of
      None \<Rightarrow> JUndef | Some v \<Rightarrow> v)"
    using set by (intro ns_get_ok) (simp_all add: w oget_oset del: json.simps)
  with ns_get_ok [OF t(1,2), of k'] show
    "ns_read ns (ns_write ns s k v) k' = (if k' = k then v else ns_read ns s k')"
    by (simp add: ns_read_def oget_oset)
qed

interpretation nstore: key_value_store "ns_ok ns" jsonable "ns_read ns" "ns_write ns" for ns
  by unfold_locales (simp_all add: ns_write_ok)

lemma createNamespace_ok:
  assumes "ns \<noteq> ''''" and "oget s ns = None \<or> ns_ok ns s"
  obtains s' where "createNamespace ns s = Inr s'" "ns_ok ns s'" "ns_ok ns s \<Longrightarrow> s' = s"
proof -
  have p: "json_parse ''{}'' = Some (JObj [])" by code_simp
  have e: "json_parse '''' = None" by code_simp
  show ?thesis
  proof (cases "ns_ok ns s")
    case True
    then obtain t m where t: "oget s ns = Some t" "json_parse t = Some (JObj m)" by (rule ns_okE)
    with e obtain c cs where "t = c # cs" by (cases t) auto
    with t assms(1) True that show ?thesis by (simp add: createNamespace_def)
  next
    case False
    with assms(2) have "oget s ns = None" by simp
    with assms(1) p that False show ?thesis by (simp add: createNamespace_def ns_ok_def oget_oset)
  qed
qed

lemma ns_isSet_read: "ns_ok ns s \<Longrightarrow> ns_isSet ns s k = present (ns_read ns s k)"
  by (erule ns_okE)
    (simp add: ns_isSet_def storage_isSet_path_def ns_read_def ns_get_def [symmetric] ns_get_ok)

lemma ns_set_each_write:
  "ns_ok ns s \<Longrightarrow> list_all (\<lambda>(k, v). jsonable v) kvs \<Longrightarrow>
   ns_set_each ns kvs s = Inr (fold (\<lambda>(k, v) s. ns_write ns s k v) kvs s)"
  by (induction kvs arbitrary: s) (auto simp: ns_write_ok)

text \<open>
  What a script that saves its variables and loads them again relies on: the namespace is there
  afterwards and every saved item reads back.
\<close>

lemma save_load:
  assumes "ns \<noteq> ''''" and "oget s ns = None \<or> ns_ok ns s" and "distinct (okeys kvs)"
    and "list_all (\<lambda>(k, v). jsonable v) kvs"
  shows "\<exists>s'. rbind (createNamespace ns s) (ns_set_each ns kvs) = Inr s' \<and>
    createNamespace ns s' = Inr s' \<and> ns_ok ns s' \<and>
    (\<forall>k v. oget kvs k = Some v \<longrightarrow> ns_read ns s' k = v)"
proof -
  obtain s0 where s0: "createNamespace ns s = Inr s0" "ns_ok ns s0"
    using createNamespace_ok [OF assms(1,2)] by metis
  let ?s = "fold (\<lambda>(k, v) s. ns_write ns s k v) kvs s0"
  have ok: "ns_ok ns ?s" using s0(2) assms(4) by (rule nstore.puts_ok)
  with createNamespace_ok [OF assms(1)] have "createNamespace ns ?s = Inr ?s" by metis
  moreover have "\<forall>k v. oget kvs k = Some v \<longrightarrow> ns_read ns ?s k = v"
    using nstore.get_puts [OF s0(2) assms(4,3)] by simp
  ultimately show ?thesis using s0 ok ns_set_each_write [OF s0(2) assms(4)] by auto
qed

lemma ns_set_other:
  assumes "ns_set ns s k v = Inr s'" and "ns' \<noteq> ns"
  shows "ns_get ns' s' k' = ns_get ns' s k'"
proof -
  have "oget s' ns' = oget s ns'"
    using assms by (auto simp: ns_set_def storage_set_path_def Let_def oget_oset split: sum.splits)
  then show ?thesis by (simp only: ns_get_def storage_get_path_def parse_item_def)
qed

section \<open>Properties\<close>

text \<open>
  In a namespace that exists, every JSON value that is set can be read back under its name; the
  other names of the namespace and all other namespaces keep their values.
\<close>

theorem namespace_round_trip:
  assumes "ns_ok ns s" and "jsonable v"
  shows "\<exists>s'. ns_set ns s k v = Inr s' \<and> ns_ok ns s' \<and>
    (\<forall>k'. ns_read ns s' k' = (if k' = k then v else ns_read ns s k')) \<and>
    (\<forall>ns' k'. ns' \<noteq> ns \<longrightarrow> ns_get ns' s' k' = ns_get ns' s k')"
  using ns_write_ok [OF assms] ns_set_other [OF ns_write_ok(2) [OF assms]] by blast

theorem namespace_round_trip_witness:
  "\<exists>s'. ns_set ''bob'' [(''bob'', ''{}'')] ''newMentions'' (JNum 2) = Inr s' \<and>
     ns_read ''bob'' s' ''newMentions'' = JNum 2"
proof -
  have "ns_ok ''bob'' [(''bob'', ''{}'')]" by code_simp
  from namespace_round_trip [OF this, of "JNum 2" "''newMentions''"] show ?thesis by auto
qed

text \<open>
  In the plain storage numbers, booleans, objects, arrays and strings that are not JSON text read
  back as they were set; a string that is JSON text reads back as the value it denotes.
\<close>

theorem plain_storage_round_trip:
  "(plain_storable v \<longrightarrow> storage_get (storage_set s k v) k = v) \<and>
   (json_parse t = Some w \<longrightarrow> storage_get (storage_set s k (JStr t)) k = w)"
proof (intro conjI impI)
  show "plain_storable v \<Longrightarrow> storage_get (storage_set s k v) k = v" by (simp add: storage_get_set)
  show "json_parse t = Some w \<Longrightarrow> storage_get (storage_set s k (JStr t)) k = w"
    by (simp add: storage_get_def storage_set_def typeof_object_def parse_item_def oget_oset)
qed

theorem plain_storage_round_trip_witness:
  "storage_get (storage_set [] ''options:theme'' (JStr ''nin'')) ''options:theme'' = JStr ''nin'' \<and>
   storage_get (storage_set [] ''options:x'' (JStr ''12'')) ''options:x'' = JNum 12"
proof -
  have "plain_storable (JStr ''nin'')" "json_parse ''12'' = Some (JNum 12)" by code_simp+
  then show ?thesis
    using plain_storage_round_trip [of "JStr ''nin''" "[]" "''options:theme''"]
      plain_storage_round_trip [of "JStr ''nin''" "[]" "''options:x''" "''12''" "JNum 12"]
    by simp
qed

section \<open>Namespaces implement maps\<close>

text \<open>
  The specification of the namespaces of a storage: a map from the names of namespaces to maps from
  keys to values, with the operations of a namespace object on it.
\<close>

datatype ns_op = OpSet string string js | OpRemove string string | OpRemoveAll string

type_synonym ns_maps = "string \<rightharpoonup> (string \<rightharpoonup> js)"

fun op_ns :: "ns_op \<Rightarrow> string" where
  "op_ns (OpSet ns k v) = ns"
| "op_ns (OpRemove ns k) = ns"
| "op_ns (OpRemoveAll ns) = ns"

fun op_ok :: "ns_op \<Rightarrow> bool" where
  "op_ok (OpSet ns k v) = jsonable v"
| "op_ok _ = True"

fun spec_step :: "ns_op \<Rightarrow> ns_maps \<Rightarrow> ns_maps" where
  "spec_step (OpSet ns k v) M = M(ns \<mapsto> (the (M ns))(k \<mapsto> v))"
| "spec_step (OpRemove ns k) M = M(ns \<mapsto> (the (M ns))(k := None))"
| "spec_step (OpRemoveAll ns) M = M(ns \<mapsto> Map.empty)"

fun ns_step :: "ns_op \<Rightarrow> store \<Rightarrow> store result" where
  "ns_step (OpSet ns k v) s = ns_set ns s k v"
| "ns_step (OpRemove ns k) s = ns_remove ns s k"
| "ns_step (OpRemoveAll ns) s = Inr (ns_removeAll ns s)"

fun ns_steps :: "ns_op list \<Rightarrow> store \<Rightarrow> store result" where
  "ns_steps [] s = Inr s"
| "ns_steps (op # ops) s = rbind (ns_step op s) (ns_steps ops)"

definition ns_abs :: "store \<Rightarrow> ns_maps" where
  "ns_abs s ns = (case oget s ns of None \<Rightarrow> None | Some t \<Rightarrow>
     (case json_parse t of Some (JObj m) \<Rightarrow> Some (map_of m) | _ \<Rightarrow> None))"

text \<open>Writing the text of an object replaces one map and leaves the others.\<close>

lemma ns_abs_write:
  assumes "jsonable (JObj m)"
  shows "ns_abs (oset s ns (json (JObj m))) = (ns_abs s)(ns \<mapsto> map_of m)"
    and "ns_ok ns' (oset s ns (json (JObj m))) = (ns' = ns \<or> ns_ok ns' s)"
  using json_parse_json [OF assms] assms
  by (auto simp: ns_abs_def ns_ok_def oget_oset fun_eq_iff simp del: json.simps jsonable.simps)

lemma ns_abs_ok: "oget s ns = Some t \<Longrightarrow> json_parse t = Some (JObj m) \<Longrightarrow> ns_abs s ns = Some (map_of m)"
  by (simp add: ns_abs_def)

lemma ns_step_refines:
  assumes "ns_ok (op_ns op) s" and "op_ok op"
  shows "\<exists>s'. ns_step op s = Inr s' \<and> ns_abs s' = spec_step op (ns_abs s) \<and> (\<forall>ns. ns_ok ns s \<longrightarrow> ns_ok ns s')"
proof -
  obtain t m where t: "oget s (op_ns op) = Some t" "json_parse t = Some (JObj m)" "jsonable (JObj m)"
    using ns_okE [OF assms(1)] by blast
  have written: ?thesis
    if "ns_step op s = Inr (oset s (op_ns op) (json (JObj m')))" "jsonable (JObj m')"
      "spec_step op (ns_abs s) = (ns_abs s)(op_ns op \<mapsto> map_of m')" for m'
    using ns_abs_write [OF that(2), where s = s and ns = "op_ns op"] that(1,3) by simp
  note a = ns_abs_ok [OF t(1,2)]
  show ?thesis
  proof (cases op)
    case (OpSet ns k v)
    then have "oget s ns = Some t" "jsonable v" using t(1) assms(2) by simp_all
    note set = ns_set_ok [OF this(1) t(2,3) this(2), of k]
    show ?thesis
      by (rule written [OF _ set(3)]) (use OpSet set(1) a in \<open>simp_all add: update_conv' del: json.simps\<close>)
  next
    case (OpRemove ns k)
    have j: "jsonable (JObj (odel m k))" using t(3) by (auto intro: list_all_odel)
    have "ns_remove ns s k = Inr (oset s ns (json (JObj (odel m k))))"
      using t(1,2) OpRemove stringify_json [OF j]
      by (simp add: ns_remove_def storage_remove_path_def parse_item_def del: json.simps)
    then show ?thesis
      by (intro written [OF _ j]) (use OpRemove a in \<open>simp_all add: delete_conv' del: json.simps\<close>)
  next
    case (OpRemoveAll ns)
    have j: "jsonable (JObj [])" by simp
    have "ns_removeAll ns s = oset s ns (json (JObj []))"
      using stringify_json [OF j] by (simp add: ns_removeAll_def storage_set_def typeof_object_def del: json.simps)
    then show ?thesis
      by (intro written [OF _ j]) (use OpRemoveAll in \<open>simp_all del: json.simps\<close>)
  qed
qed

text \<open>
  C6. The namespaces of a storage refine maps: any sequence of \<^verbatim>\<open>set\<close>, \<^verbatim>\<open>remove\<close> and \<^verbatim>\<open>removeAll\<close> calls
  with JSON values, on any of the namespaces that exist, succeeds; the texts in the storage then stand
  for the maps that the same operations give on the maps they stood for, and \<^verbatim>\<open>get\<close> reads these.
\<close>

theorem namespaces_refine_maps:
  assumes "list_all (\<lambda>op. op_ok op \<and> ns_ok (op_ns op) s) ops"
  shows "\<exists>s'. ns_steps ops s = Inr s' \<and> ns_abs s' = fold spec_step ops (ns_abs s) \<and>
    (\<forall>ns m k. ns_abs s' ns = Some m \<longrightarrow> ns_get ns s' k = Inr (case m k of None \<Rightarrow> JUndef | Some v \<Rightarrow> v))"
proof -
  have read: "ns_get ns s' k = Inr (case m k of None \<Rightarrow> JUndef | Some v \<Rightarrow> v)" if abs: "ns_abs s' ns = Some m" for s' ns m k
  proof -
    obtain t m' where "oget s' ns = Some t" "json_parse t = Some (JObj m')" "m = map_of m'"
      using abs by (auto simp: ns_abs_def split: option.splits js.splits)
    then show ?thesis using ns_get_ok by simp
  qed
  have "\<exists>s'. ns_steps ops s = Inr s' \<and> ns_abs s' = fold spec_step ops (ns_abs s)"
    using assms
  proof (induction ops arbitrary: s)
    case (Cons op ops)
    from Cons.prems have "ns_ok (op_ns op) s" "op_ok op" by simp_all
    from ns_step_refines [OF this] obtain s1 where s1: "ns_step op s = Inr s1"
      "ns_abs s1 = spec_step op (ns_abs s)" "\<forall>ns. ns_ok ns s \<longrightarrow> ns_ok ns s1" by blast
    from Cons.prems s1(3) have "list_all (\<lambda>op. op_ok op \<and> ns_ok (op_ns op) s1) ops"
      unfolding list_all_iff by simp
    from Cons.IH [OF this] s1(1,2) show ?case by simp
  qed simp
  with read show ?thesis by blast
qed

theorem namespaces_refine_maps_witness:
  "\<exists>s'. ns_steps [OpSet ''bob'' ''n'' (JNum 2), OpSet ''ann'' ''n'' (JNum 3), OpRemove ''bob'' ''old'']
      [(''ann'', ''{}''), (''bob'', json (JObj [(''old'', JNull)]))] = Inr s'
    \<and> ns_get ''bob'' s' ''n'' = Inr (JNum 2) \<and> ns_get ''bob'' s' ''old'' = Inr JUndef"
proof -
  let ?s = "[(''ann'', ''{}''), (''bob'', json (JObj [(''old'', JNull)]))]"
  let ?ops = "[OpSet ''bob'' ''n'' (JNum 2), OpSet ''ann'' ''n'' (JNum 3), OpRemove ''bob'' ''old'']"
  have ok: "ns_ok ''ann'' ?s" "ns_ok ''bob'' ?s" by code_simp+
  then have "list_all (\<lambda>op. op_ok op \<and> ns_ok (op_ns op) ?s) ?ops" by simp
  from namespaces_refine_maps [OF this] obtain s' where s': "ns_steps ?ops ?s = Inr s'"
    "ns_abs s' = fold spec_step ?ops (ns_abs ?s)"
    "\<And>ns m k. ns_abs s' ns = Some m \<Longrightarrow> ns_get ns s' k = Inr (case m k of None \<Rightarrow> JUndef | Some v \<Rightarrow> v)" by blast
  have "ns_abs s' ''bob'' = Some ((the (ns_abs ?s ''bob''))(''n'' \<mapsto> JNum 2, ''old'' := None))"
    unfolding s'(2) by simp
  from s'(3) [OF this] have "ns_get ''bob'' s' ''n'' = Inr (JNum 2)" "ns_get ''bob'' s' ''old'' = Inr JUndef" by simp_all
  with s'(1) show ?thesis by blast
qed

end
