(* ===== verification/Options.thy ===== *)
theory Options
  imports Storage_Api
begin

text \<open>
  \<^verbatim>\<open>options.js\<close>: the user's options, one item of the local storage each, and the controls of the
  options page. A \<^verbatim>\<open>set...Opt\<close> function shows the stored value in its control and installs a change
  handler; the handlers are definitions of their own, over the storage. The volume slider works with
  fractions and is not modelled.
\<close>

section \<open>Options in the storage\<close>

definition getOption :: "store \<Rightarrow> string \<Rightarrow> js \<Rightarrow> js" where
  "getOption s optionName defaultValue =
     (let keyName = ''options:'' @ optionName
      in if storage_isSet s keyName then storage_get s keyName else defaultValue)"

definition setOption :: "string \<Rightarrow> js \<Rightarrow> store \<Rightarrow> store" where
  "setOption optionName v s = storage_set s (''options:'' @ optionName) v"

section \<open>Sounds\<close>

text \<open>\<open>mpeg\<close>: the browser plays MP3 files (\<^verbatim>\<open>canPlayType\<close>).\<close>

definition play_effs :: "bool \<Rightarrow> string \<Rightarrow> effs" where
  "play_effs mpeg sound =
     (if mpeg
      then [Dom ''#player'' ''attr'' [JStr ''type'', JStr ''audio/mpeg''],
            Dom ''#player'' ''attr'' [JStr ''src'', JStr (''sound/'' @ sound @ ''.mp3'')]]
      else [Dom ''#player'' ''attr'' [JStr ''type'', JStr ''audio/ogg''],
            Dom ''#player'' ''attr'' [JStr ''src'', JStr (''sound/'' @ sound @ ''.ogg'')]])"

text \<open>\<^verbatim>\<open>soundNotifOptions\<close>: \<open>ids\<close> are the ids of the selects in the form.\<close>

definition soundNotifOptions :: "string list \<Rightarrow> store \<Rightarrow> effs" where
  "soundNotifOptions ids s =
     map (\<lambda>i. Dom (''#'' @ i) ''value'' [getOption s i (JStr ''false'')]) ids @
     [Dom ''#player'' ''pause'' [], Dom ''#player'' ''empty'' [],
      Dom ''form#notifyForm'' ''on'' [JStr ''change'', JStr ''select'']]"

text \<open>
  \<^verbatim>\<open>this.value == false\<close> for a string without white space, sign or point: the comparison is numeric,
  so it holds for the empty string and for zeros, and not for the string \<^verbatim>\<open>"false"\<close>.
\<close>

definition eq_false :: "string \<Rightarrow> bool" where
  "eq_false v = list_all (\<lambda>c. c = CHR ''0'') v"

definition soundNotif_change :: "bool \<Rightarrow> string \<Rightarrow> string \<Rightarrow> store \<Rightarrow> effs \<times> store" where
  "soundNotif_change mpeg i v s =
     (if eq_false v then [Dom ''#player'' ''pause'' []]
      else play_effs mpeg v @ [Dom ''#player'' ''play'' []], setOption i (JStr v) s)"

text \<open>\<^verbatim>\<open>sndDM == "false"\<close>: the stored text \<^verbatim>\<open>false\<close> reads back as a boolean, which is not equal to it.\<close>

definition DMsNotif :: "bool \<Rightarrow> store \<Rightarrow> effs" where
  "DMsNotif mpeg s =
     (let sndDM = getOption s ''sndDM'' (JStr ''false'')
      in if sndDM = JStr ''false'' then []
         else [Dom ''#player'' ''empty'' []] @ play_effs mpeg (js_string sndDM) @
              [Dom ''#player'' ''volume'' [getOption s ''playerVol'' (JNum 100)],
               Dom ''#player'' ''play'' []])"

definition mensNotif :: "bool \<Rightarrow> store \<Rightarrow> effs" where
  "mensNotif mpeg s =
     (let sndMention = getOption s ''sndMention'' (JStr ''false'')
      in if sndMention = JStr ''false'' then []
         else [Dom ''#playerSec'' ''empty'' []] @ play_effs mpeg (js_string sndMention) @
              [Dom ''#player'' ''volume'' [getOption s ''playerVol'' (JNum 100)],
               Dom ''#player'' ''play'' []])"

section \<open>Simple options\<close>

text \<open>The handler \<^verbatim>\<open>function () { $.Options.setOption(this.id, this.value); }\<close> of the element \<open>i\<close>.\<close>

definition optionChange :: "string \<Rightarrow> js \<Rightarrow> store \<Rightarrow> store" where
  "optionChange i v s = setOption i v s"

definition keysSendDefault :: js where
  "keysSendDefault = JStr ''ctrlenter''"

definition keysSend :: "store \<Rightarrow> effs" where
  "keysSend s = [Dom ''#keysOpt select'' ''value'' [getOption s ''keysSend'' keysSendDefault],
     Dom ''#keysOpt select'' ''on'' [JStr ''change'']]"

definition keyEnterToSend :: "store \<Rightarrow> bool" where
  "keyEnterToSend s = (getOption s ''keysSend'' keysSendDefault = JStr ''enter'')"

definition setLang :: "store \<Rightarrow> effs" where
  "setLang s = [Dom ''#language'' ''val'' [getOption s ''locLang'' (JStr ''auto'')],
     Dom ''#language'' ''on'' [JStr ''change'']]"

definition setLang_change :: "js \<Rightarrow> store \<Rightarrow> store" where
  "setLang_change v s = setOption ''locLang'' v s"

definition getTheme :: "store \<Rightarrow> js" where
  "getTheme s = getOption s ''theme'' (JStr ''original'')"

definition setTheme :: "store \<Rightarrow> effs" where
  "setTheme s = [Dom ''#theme'' ''val'' [getTheme s], Dom ''#theme'' ''on'' [JStr ''change'']]"

definition setTheme_change :: "js \<Rightarrow> store \<Rightarrow> effs \<times> store" where
  "setTheme_change v s = ([Call ''location.reload'' []], setOption ''theme'' v s)"

definition getLineFeedsOpt :: "store \<Rightarrow> js" where
  "getLineFeedsOpt s = getOption s ''displayLineFeeds'' (JStr ''disable'')"

definition setLineFeedsOpt :: "store \<Rightarrow> effs" where
  "setLineFeedsOpt s = [Dom ''#lineFeedsOpt select'' ''value'' [getLineFeedsOpt s],
     Dom ''#lineFeedsOpt select'' ''on'' [JStr ''change'']]"

definition getShowPreviewOpt :: "store \<Rightarrow> js" where
  "getShowPreviewOpt s = getOption s ''displayPreview'' (JStr ''disable'')"

definition setShowPreviewOpt :: "store \<Rightarrow> effs" where
  "setShowPreviewOpt s = [Dom ''#showPreviewOpt select'' ''value'' [getShowPreviewOpt s],
     Dom ''#showPreviewOpt select'' ''on'' [JStr ''change'']]"

definition getUnicodeConversionOpt :: "store \<Rightarrow> js" where
  "getUnicodeConversionOpt s = getOption s ''unicodeConversion'' (JStr ''disable'')"

definition setUnicodeConversionOpt :: "store \<Rightarrow> effs" where
  "setUnicodeConversionOpt s =
     [Dom ''#unicodeConversion'' ''value'' [getUnicodeConversionOpt s]] @
     (if getUnicodeConversionOpt s = JStr ''custom''
      then [Dom ''#unicodeConversionOpt .suboptions'' ''style.height'' [JStr ''230px'']] else []) @
     [Dom ''#unicodeConversion'' ''on'' [JStr ''change'']]"

definition unicodeConversion_change :: "js \<Rightarrow> store \<Rightarrow> effs \<times> store" where
  "unicodeConversion_change v s =
     ([Dom ''#unicodeConversionOpt .suboptions'' ''style.height''
         [JStr (if v = JStr ''custom'' then ''230px'' else ''0px'')]],
      setOption ''unicodeConversion'' v s)"

text \<open>The four check boxes of the custom conversion.\<close>

definition getConvertPunctuationsOpt :: "store \<Rightarrow> js" where
  "getConvertPunctuationsOpt s = getOption s ''convertPunctuationsOpt'' (JBool False)"

definition setConvertPunctuationsOpt :: "store \<Rightarrow> effs" where
  "setConvertPunctuationsOpt s =
     [Dom ''#convertPunctuationsOpt'' ''checked'' [getConvertPunctuationsOpt s],
      Dom ''#convertPunctuationsOpt'' ''on'' [JStr ''change'']]"

definition getConvertEmotionsOpt :: "store \<Rightarrow> js" where
  "getConvertEmotionsOpt s = getOption s ''convertEmotionsOpt'' (JBool False)"

definition setConvertEmotionsOpt :: "store \<Rightarrow> effs" where
  "setConvertEmotionsOpt s = [Dom ''#convertEmotionsOpt'' ''checked'' [getConvertEmotionsOpt s],
     Dom ''#convertEmotionsOpt'' ''on'' [JStr ''change'']]"

definition getConvertSignsOpt :: "store \<Rightarrow> js" where
  "getConvertSignsOpt s = getOption s ''convertSignsOpt'' (JBool False)"

definition setConvertSignsOpt :: "store \<Rightarrow> effs" where
  "setConvertSignsOpt s = [Dom ''#convertSignsOpt'' ''checked'' [getConvertSignsOpt s],
     Dom ''#convertSignsOpt'' ''on'' [JStr ''change'']]"

definition getConvertFractionsOpt :: "store \<Rightarrow> js" where
  "getConvertFractionsOpt s = getOption s ''convertFractionsOpt'' (JBool False)"

definition setConvertFractionsOpt :: "store \<Rightarrow> effs" where
  "setConvertFractionsOpt s = [Dom ''#convertFractionsOpt'' ''checked'' [getConvertFractionsOpt s],
     Dom ''#convertFractionsOpt'' ''on'' [JStr ''change'']]"

section \<open>Options with dependent controls\<close>

definition getUseProxyOpt :: "store \<Rightarrow> js" where
  "getUseProxyOpt s = getOption s ''useProxy'' (JStr ''disable'')"

definition setUseProxyOpt :: "store \<Rightarrow> effs" where
  "setUseProxyOpt s =
     [Dom ''#useProxy'' ''value'' [getUseProxyOpt s]] @
     (if getUseProxyOpt s = JStr ''disable''
      then [Dom ''#useProxyForImgOnly'' ''attr'' [JStr ''disabled'', JStr ''disabled'']] else []) @
     [Dom ''#useProxy'' ''on'' [JStr ''change'']]"

definition useProxy_change :: "js \<Rightarrow> store \<Rightarrow> effs \<times> store" where
  "useProxy_change v s =
     ([if v = JStr ''disable''
       then Dom ''#useProxyForImgOnly'' ''attr'' [JStr ''disabled'', JStr ''disabled'']
       else Dom ''#useProxyForImgOnly'' ''removeAttr'' [JStr ''disabled'']],
      setOption ''useProxy'' v s)"

definition getUseProxyForImgOnlyOpt :: "store \<Rightarrow> js" where
  "getUseProxyForImgOnlyOpt s = getOption s ''useProxyForImgOnly'' (JBool False)"

definition setUseProxyForImgOnlyOpt :: "store \<Rightarrow> effs" where
  "setUseProxyForImgOnlyOpt s =
     [Dom ''#useProxyForImgOnly'' ''checked'' [getUseProxyForImgOnlyOpt s],
      Dom ''#useProxyForImgOnly'' ''on'' [JStr ''change'']]"

definition getSplitPostsOpt :: "store \<Rightarrow> js" where
  "getSplitPostsOpt s = getOption s ''splitPosts'' (JStr ''disable'')"

definition setSplitPostsOpt :: "store \<Rightarrow> effs" where
  "setSplitPostsOpt s = [Dom ''#splitPosts'' ''value'' [getSplitPostsOpt s],
     Dom ''#splitPosts'' ''on'' [JStr ''change'']]"

definition getHideRepliesOpt :: "store \<Rightarrow> js" where
  "getHideRepliesOpt s = getOption s ''hideReplies'' (JStr ''following'')"

definition setHideRepliesOpt :: "store \<Rightarrow> effs" where
  "setHideRepliesOpt s = [Dom ''#hideReplies'' ''value'' [getHideRepliesOpt s],
     Dom ''#hideReplies'' ''on'' [JStr ''change'']]"

definition getHideCloseRTsOpt :: "store \<Rightarrow> js" where
  "getHideCloseRTsOpt s = getOption s ''hideCloseRTs'' (JStr ''disable'')"

definition hideCloseRTsDesc :: "js \<Rightarrow> eff" where
  "hideCloseRTsDesc v = Dom ''#hideCloseRTsDesc'' ''style.display''
     [JStr (if v = JStr ''disable'' then ''none'' else ''inline'')]"

definition setHideCloseRTsOpt :: "store \<Rightarrow> effs" where
  "setHideCloseRTsOpt s = [Dom ''#hideCloseRTs'' ''value'' [getHideCloseRTsOpt s],
     hideCloseRTsDesc (getHideCloseRTsOpt s), Dom ''#hideCloseRTs'' ''on'' [JStr ''change'']]"

definition hideCloseRTs_change :: "js \<Rightarrow> store \<Rightarrow> effs \<times> store" where
  "hideCloseRTs_change v s = ([hideCloseRTsDesc v], setOption ''hideCloseRTs'' v s)"

text \<open>\<^verbatim>\<open>parseInt\<close> of a string: leading white space, a sign, then digits; \<open>None\<close> is \<^verbatim>\<open>NaN\<close>.\<close>

definition parseInt :: "string \<Rightarrow> int option" where
  "parseInt s =
     (let t = skip_ws s;
          neg = (t \<noteq> [] \<and> hd t = CHR ''-'');
          u = (if t \<noteq> [] \<and> (hd t = CHR ''-'' \<or> hd t = CHR ''+'') then tl t else t);
          ds = takeWhile is_digit u
      in if ds = [] then None
         else Some (if neg then - int (nat_of_digits 0 ds) else int (nat_of_digits 0 ds)))"

definition getHideCloseRTsHourOpt :: "store \<Rightarrow> int option" where
  "getHideCloseRTsHourOpt s = parseInt (js_string (getOption s ''hideCloseRtsHour'' (JStr ''1'')))"

definition setHideCloseRTsHourOpt :: "store \<Rightarrow> effs" where
  "setHideCloseRTsHourOpt s =
     [Dom ''#hideCloseRtsHour'' ''value'' [JStr (case getHideCloseRTsHourOpt s of
        None \<Rightarrow> ''NaN'' | Some n \<Rightarrow> str_of_int n)],
      Dom ''#hideCloseRtsHour'' ''on'' [JStr ''keyup'']]"

text \<open>\<open>t\<close> is \<^verbatim>\<open>polyglot.t\<close>; only a string of digits is stored.\<close>

definition hideCloseRtsHour_keyup :: "(string \<Rightarrow> string) \<Rightarrow> string \<Rightarrow> store \<Rightarrow> effs \<times> store" where
  "hideCloseRtsHour_keyup t v s =
     (if v \<noteq> [] \<and> list_all is_digit v
      then ([Dom ''#hideCloseRtsHour'' ''style.backgroundColor'' [JStr ''''],
             Dom ''#hideCloseRtsHour + span'' ''text'' [JStr (t ''hour(s)'')]],
            setOption ''hideCloseRtsHour'' (JStr v) s)
      else ([Dom ''#hideCloseRtsHour'' ''style.backgroundColor'' [JStr ''#f00''],
             Dom ''#hideCloseRtsHour + span'' ''text'' [JStr (t ''only numbers are allowed!'')]], s))"

definition getIsFollowingMeOpt :: "store \<Rightarrow> js" where
  "getIsFollowingMeOpt s = getOption s ''isFollowingMe'' JUndef"

definition setIsFollowingMeOpt :: "store \<Rightarrow> effs" where
  "setIsFollowingMeOpt s = [Dom ''#isFollowingMe'' ''value'' [getIsFollowingMeOpt s],
     Dom ''#isFollowingMe'' ''on'' [JStr ''change'']]"

text \<open>\<open>volume\<close>: what \<^verbatim>\<open>volumeControl\<close> does.\<close>

definition InitOptions :: "string list \<Rightarrow> effs \<Rightarrow> store \<Rightarrow> effs" where
  "InitOptions ids volume s = soundNotifOptions ids s @ volume @ keysSend s @ setLang s @ setTheme s @
     setLineFeedsOpt s @ setShowPreviewOpt s @ setUnicodeConversionOpt s @
     setConvertPunctuationsOpt s @ setConvertEmotionsOpt s @ setConvertSignsOpt s @
     setConvertFractionsOpt s @ setUseProxyOpt s @ setUseProxyForImgOnlyOpt s @ setSplitPostsOpt s @
     setHideRepliesOpt s @ setHideCloseRTsHourOpt s @ setHideCloseRTsOpt s @ setIsFollowingMeOpt s"

section \<open>Lemmas\<close>

lemma getOption_setOption:
  assumes "plain_storable v" and "present v"
  shows "getOption (setOption n v s) n' d = (if n' = n then v else getOption s n' d)"
  using assms by (simp add: getOption_def setOption_def storage_isSet_def plain.get_put Let_def)

lemma skip_ws_digits: "list_all is_digit v \<Longrightarrow> v \<noteq> [] \<Longrightarrow> skip_ws v = v"
  by (cases v) (auto simp: digit_facts)

lemma hd_digit: "list_all is_digit v \<Longrightarrow> v \<noteq> [] \<Longrightarrow> hd v \<noteq> CHR ''-'' \<and> hd v \<noteq> CHR ''+''"
  by (cases v) (auto simp: is_digit_def)

lemma takeWhile_all: "list_all P v \<Longrightarrow> takeWhile P v = v"
  by (induction v) auto

lemma parseInt_digits:
  "list_all is_digit v \<Longrightarrow> v \<noteq> [] \<Longrightarrow> parseInt v = Some (int (nat_of_digits 0 v))"
  using hd_digit [of v] by (simp add: parseInt_def skip_ws_digits takeWhile_all Let_def)

lemma parseInt_str_of_int: "0 \<le> n \<Longrightarrow> parseInt (str_of_int n) = Some n"
  using parseInt_digits [OF str_of_nat_digits str_of_nat_ne(1), of "nat n"]
  by (simp add: str_of_int_def nat_of_str_of_nat)

text \<open>
  The text of an hour is a JSON number or, with a leading zero, not JSON: in both cases the stored
  item stands for the same number.
\<close>

lemma is_digit_not_special: "is_digit c \<Longrightarrow> c \<noteq> CHR ''-''"
  by (auto simp: is_digit_def)

lemma json_parse_digits:
  assumes "list_all is_digit v" and "v \<noteq> []"
  shows "json_parse v = (if hd v = CHR ''0'' \<and> length v > 1 then None
    else Some (JNum (int (nat_of_digits 0 v))))"
proof -
  obtain c cs where v: "v = c # cs" using assms(2) by (cases v) auto
  with assms(1) have "is_digit c" by simp
  from digit_facts(1) [OF this] digit_facts(2) [OF this]
  have "parse_value (Suc (length v)) v = parse_int v" by (simp add: v)
  moreover have d: "dropWhile is_digit v = []" using assms(1) by (simp add: list_all_iff)
  have "hd v \<noteq> CHR ''-''" using v \<open>is_digit c\<close> by (auto dest: is_digit_not_special)
  then have "parse_int v = (if hd v = CHR ''0'' \<and> length v > 1 then None
      else Some (JNum (int (nat_of_digits 0 v)), []))"
    using assms by (simp add: parse_int_def Let_def takeWhile_all [OF assms(1)] d)
  ultimately show ?thesis
    by (simp add: json_parse_def skip_ws_def del: parse_value.simps)
qed

lemma digits_item:
  assumes "list_all is_digit v" and "v \<noteq> []"
  shows "parseInt (js_string (getOption (setOption n (JStr v) s) n d)) = Some (int (nat_of_digits 0 v))"
proof (cases "hd v = CHR ''0'' \<and> length v > 1")
  case True
  with json_parse_digits [OF assms] have "plain_storable (JStr v)" by (simp add: plain_storable_def)
  then show ?thesis by (simp add: getOption_setOption present_def parseInt_digits assms)
next
  case False
  with json_parse_digits [OF assms] have p: "json_parse v = Some (JNum (int (nat_of_digits 0 v)))"
    by simp
  have "getOption (setOption n (JStr v) s) n d = JNum (int (nat_of_digits 0 v))"
    by (simp add: getOption_def setOption_def storage_isSet_def storage_get_def storage_set_def
        typeof_object_def parse_item_def oget_oset present_def p Let_def)
  then show ?thesis by (simp add: parseInt_str_of_int)
qed

section \<open>Properties\<close>

text \<open>
  An option that has been set reads back as it was set, whatever its default, and no other option
  changes, for every value the storage keeps apart from JSON text (see \<open>plain_storable\<close>).
\<close>

theorem option_round_trip:
  assumes "plain_storable v" and "present v"
  shows "getOption (setOption n v s) n' d = (if n' = n then v else getOption s n' d)"
  using assms by (rule getOption_setOption)

theorem option_round_trip_witness:
  "getTheme (snd (setTheme_change (JStr ''calm'') [])) = JStr ''calm''"
proof -
  have "plain_storable (JStr ''calm'')" "present (JStr ''calm'')" by code_simp+
  from option_round_trip [OF this, of "''theme''" "[]" "''theme''" "JStr ''original''"]
  show ?thesis by (simp add: getTheme_def setTheme_change_def)
qed

text \<open>
  The window for close retweets is stored only when the text is a number, and is then read back as
  that number; any other text leaves the option as it was.
\<close>

theorem hideCloseRtsHour_round_trip:
  "getHideCloseRTsHourOpt (snd (hideCloseRtsHour_keyup t v s)) =
     (if v \<noteq> [] \<and> list_all is_digit v then Some (int (nat_of_digits 0 v))
      else getHideCloseRTsHourOpt s)"
  by (simp add: hideCloseRtsHour_keyup_def getHideCloseRTsHourOpt_def digits_item)

text \<open>
  Choosing no sound does not silence the notifications: the value \<^verbatim>\<open>"false"\<close> of the control is
  stored as text, read back as a boolean, and compared with a string.
\<close>

theorem no_sound_still_plays:
  "DMsNotif True (snd (soundNotif_change True ''sndDM'' ''false'' [])) =
     [Dom ''#player'' ''empty'' [], Dom ''#player'' ''attr'' [JStr ''type'', JStr ''audio/mpeg''],
      Dom ''#player'' ''attr'' [JStr ''src'', JStr ''sound/false.mp3''],
      Dom ''#player'' ''volume'' [JNum 100], Dom ''#player'' ''play'' []]"
  by code_simp

end
