(* ===== verification/Mobile_Abstract.thy ===== *)
theory Mobile_Abstract
  imports Options
begin

text \<open>
  \<^verbatim>\<open>mobile_abstract.js\<close>: the layer that hides the differences between the desktop pages and the jQuery
  Mobile pages. \<open>mobile\<close> is \<^verbatim>\<open>$.hasOwnProperty("mobile")\<close>, \<open>curPage\<close> the id of the active mobile page.

  The URL functions come in pairs that encode a user name into a fragment and recover it; the locale
  \<open>url_codec\<close> states what the pages rely on, and both pairs interpret it.
\<close>

section \<open>Loading indicators and lists\<close>

abbreviation hideLoading :: eff where
  "hideLoading \<equiv> MobileCall ''hidePageLoadingMsg'' []"

definition postboardLoading :: "bool \<Rightarrow> effs" where
  "postboardLoading mobile =
     (if mobile then [MobileCall ''showPageLoadingMsg'' []]
      else [Dom ''.postboard-loading'' ''show'' []])"

definition postboardLoaded :: "bool \<Rightarrow> string \<Rightarrow> effs" where
  "postboardLoaded mobile curPage =
     (if mobile
      then [hideLoading, Dom (''#'' @ curPage @ '' .content ul.posts'') ''listview'' [JStr ''refresh''],
            Call ''installPostboardClick'' []]
      else [Dom ''.postboard-loading'' ''hide'' []])"

definition dmThreadListLoaded :: "bool \<Rightarrow> effs" where
  "dmThreadListLoaded mobile =
     (if mobile
      then [hideLoading, Dom ''#directmsg ul.direct-messages-thread'' ''listview'' [JStr ''refresh'']]
      else [])"

definition dmChatListLoaded :: "bool \<Rightarrow> effs" where
  "dmChatListLoaded mobile =
     (if mobile
      then [hideLoading, Dom ''#dmchat ul.direct-messages-list'' ''listview'' [JStr ''refresh''],
            MobileCall ''silentScroll'' [JStr ''.dm-form'']]
      else [Dom ''.modal-content'' ''scrollTop'' [JStr ''scrollHeight'']])"

definition relatedPostLoaded :: "bool \<Rightarrow> string \<Rightarrow> effs" where
  "relatedPostLoaded mobile curPage =
     (if mobile
      then [hideLoading, Dom (''#'' @ curPage @ '' .content ul.posts'') ''listview'' [JStr ''refresh'']]
      else [Dom ''.postboard-loading'' ''hide'' []])"

definition followingListLoaded :: "bool \<Rightarrow> effs" where
  "followingListLoaded mobile =
     (if mobile then [hideLoading, Dom ''.following-list'' ''listview'' [JStr ''refresh'']]
      else [Dom ''.postboard-loading'' ''hide'' []])"

definition searchUserListLoaded :: "bool \<Rightarrow> effs" where
  "searchUserListLoaded mobile =
     (if mobile then [hideLoading, Dom ''.userMenu-search-profiles'' ''listview'' [JStr ''refresh'']]
      else [Dom ''.search-results'' ''slideDown'' [JStr ''fast'']])"

abbreviation setTitle :: "string \<Rightarrow> eff" where
  "setTitle t \<equiv> Dom ''document'' ''title'' [JStr t]"

definition reportNewPosts :: "bool \<Rightarrow> int \<Rightarrow> effs" where
  "reportNewPosts mobile newPosts =
     (if mobile
      then (if newPosts \<noteq> 0
            then [setTitle (''('' @ str_of_int newPosts @ '') twister''),
                  Dom ''.timeline-refresh .ui-btn-text'' ''text'' [JStr (''('' @ str_of_int newPosts @ '')'')]]
            else [setTitle ''twister'', Dom ''.timeline-refresh .ui-btn-text'' ''text'' [JStr ''Refresh'']])
      else (if newPosts \<noteq> 0
            then [setTitle (''('' @ str_of_int newPosts @ '') twister''),
                  Dom ''.wrapper .postboard-news'' ''text'' [JStr (str_of_int newPosts @ '' new posts'')],
                  Dom ''.wrapper .postboard-news'' ''fadeIn'' [JStr ''slow'']]
            else [Dom ''.wrapper .postboard-news'' ''hide'' [], setTitle ''twister'']))"

definition getStreamPostsParent :: "bool \<Rightarrow> string" where
  "getStreamPostsParent mobile = (if mobile then ''.timeline ul'' else ''#posts'')"

text \<open>The template is kept by the layer on the mobile pages only.\<close>

definition setPostTemplate :: "bool \<Rightarrow> string \<Rightarrow> string option \<Rightarrow> string option" where
  "setPostTemplate mobile p postTemplate = (if mobile then Some p else postTemplate)"

definition getPostTemplate :: "bool \<Rightarrow> string option \<Rightarrow> string option" where
  "getPostTemplate mobile postTemplate = (if mobile then postTemplate else Some ''#post-template'')"

section \<open>URLs\<close>

definition userUrl :: "string \<Rightarrow> string" where
  "userUrl username = ''#profile?user='' @ username"

text \<open>The common body of \<^verbatim>\<open>urlToUser\<close> and \<^verbatim>\<open>followingUrlToUser\<close>.\<close>

definition after_marker :: "string \<Rightarrow> string \<Rightarrow> string" where
  "after_marker dummyUrl url = (case js_indexOf url dummyUrl of
     Some urlIdx \<Rightarrow> drop (urlIdx + length dummyUrl) url
   | None \<Rightarrow> '''')"

definition urlToUser :: "string \<Rightarrow> string" where
  "urlToUser url = after_marker (userUrl '''') url"

definition followingUrl :: "string \<Rightarrow> string" where
  "followingUrl username = ''#following?user='' @ username"

definition followingUrlToUser :: "string \<Rightarrow> string" where
  "followingUrlToUser url = after_marker (followingUrl '''') url"

definition mentionsUrl :: "string \<Rightarrow> string" where
  "mentionsUrl username = ''#mentions?user='' @ username"

definition hashtagUrl :: "string \<Rightarrow> string" where
  "hashtagUrl h = ''#hashtag?hashtag='' @ h"

definition dmchatUrl :: "string \<Rightarrow> string" where
  "dmchatUrl username = ''#dmchat?user='' @ username"

definition followUrl :: "string \<Rightarrow> string" where
  "followUrl username = ''#following?follow='' @ username"

definition unfollowUrl :: "string \<Rightarrow> string" where
  "unfollowUrl username = ''#following?unfollow='' @ username"

text \<open>\<^verbatim>\<open>encodeURIComponent\<close>: the UTF-8 bytes of every character that is not unreserved.\<close>

definition uri_unreserved :: "char \<Rightarrow> bool" where
  "uri_unreserved c = (let n = of_char c :: nat in
     48 \<le> n \<and> n \<le> 57 \<or> 65 \<le> n \<and> n \<le> 90 \<or> 97 \<le> n \<and> n \<le> 122 \<or>
     c \<in> set ''-_.!~*()'' \<or> n = 39)"

definition hex_upper :: "nat \<Rightarrow> char" where
  "hex_upper n = (if n < 10 then char_of (48 + n) else char_of (55 + n))"

definition pct :: "nat \<Rightarrow> string" where
  "pct b = [CHR ''%'', hex_upper (b div 16), hex_upper (b mod 16)]"

definition encodeURIComponent :: "string \<Rightarrow> string" where
  "encodeURIComponent s = concat (map (\<lambda>c.
     if uri_unreserved c then [c]
     else let n = of_char c in
       if n < 128 then pct n else pct (192 + n div 64) @ pct (128 + n mod 64)) s)"

definition newPostToUrl :: "string \<Rightarrow> string" where
  "newPostToUrl username = ''#newmsg?replyto='' @ encodeURIComponent (''@'' @ username)"

definition newPostHashtagToUrl :: "string \<Rightarrow> string" where
  "newPostHashtagToUrl hashtag = ''#newmsg?replyto='' @ encodeURIComponent (''#'' @ hashtag)"

section \<open>Counters\<close>

definition updateNewMentionsUI :: "bool \<Rightarrow> int \<Rightarrow> effs" where
  "updateNewMentionsUI mobile newMentions =
     (if mobile
      then [Dom ''.mentions-count .ui-btn-text'' ''text''
              [JStr (if newMentions \<noteq> 0 then ''@ ('' @ str_of_int newMentions @ '')'' else ''@'')]]
      else if newMentions \<noteq> 0
      then [Dom ''.userMenu-connections .messages-qtd'' ''text'' [JNum newMentions],
            Dom ''.userMenu-connections .messages-qtd'' ''fadeIn'' []]
      else [Dom ''.userMenu-connections .messages-qtd'' ''hide'' []])"

text \<open>\<open>counters\<close>: for each \<^verbatim>\<open>.newdms-count\<close> element, whether it has a text element inside.\<close>

definition updateNewDMsUI :: "bool \<Rightarrow> bool list \<Rightarrow> int \<Rightarrow> effs" where
  "updateNewDMsUI mobile counters newDMs =
     (if mobile
      then map (\<lambda>inner. Dom (if inner then ''.newdms-count .ui-btn-text'' else ''.newdms-count'') ''text''
             [JStr (if newDMs \<noteq> 0 then ''Direct Msg ('' @ str_of_int newDMs @ '')'' else ''Direct Msg'')])
           counters
      else if newDMs \<noteq> 0
      then [Dom ''.userMenu-messages .messages-qtd'' ''text'' [JNum newDMs],
            Dom ''.userMenu-messages .messages-qtd'' ''fadeIn'' []]
      else [Dom ''.userMenu-messages .messages-qtd'' ''hide'' []])"

definition updateMyOwnPostCount :: "bool \<Rightarrow> int \<Rightarrow> effs" where
  "updateMyOwnPostCount mobile numPosts =
     (if mobile then [Log ''FIXME: implement MAL_updateMyOwnPostCount'']
      else [Dom ''.mini-profile .posts-count'' ''text'' [JNum numPosts]])"

section \<open>Navigation, status and buttons\<close>

definition goPage :: "bool \<Rightarrow> string \<Rightarrow> string \<Rightarrow> effs" where
  "goPage mobile fragment page =
     (if mobile then [MobileCall ''navigate'' [JStr fragment]] else [Nav page])"

definition goHome :: "bool \<Rightarrow> effs" where
  "goHome mobile = goPage mobile ''#home'' ''home.html''"

definition goLogin :: "bool \<Rightarrow> effs" where
  "goLogin mobile = goPage mobile ''#login'' ''login.html''"

definition goNetwork :: "bool \<Rightarrow> effs" where
  "goNetwork mobile = goPage mobile ''#network'' ''network.html''"

definition goProfileEdit :: "bool \<Rightarrow> effs" where
  "goProfileEdit mobile = goPage mobile ''#profile-edit'' ''profile-edit.html''"

definition setNetworkStatusMsg :: "string \<Rightarrow> bool \<Rightarrow> effs" where
  "setNetworkStatusMsg msg statusGood =
     [Dom ''.network-status'' ''text'' [JStr msg],
      Dom ''.connection-status'' (if statusGood then ''addClass'' else ''removeClass'') [JStr ''connected'']]"

definition enableButton :: "bool \<Rightarrow> string \<Rightarrow> effs" where
  "enableButton mobile button =
     (if mobile then [Dom button ''button'' [JStr ''enable'']]
      else [Dom button ''removeClass'' [JStr ''disabled''], Dom button ''removeAttr'' [JStr ''disabled'']])"

definition disableButton :: "bool \<Rightarrow> string \<Rightarrow> effs" where
  "disableButton mobile button =
     (if mobile then [Dom button ''button'' [JStr ''disable'']]
      else [Dom button ''addClass'' [JStr ''disabled''],
            Dom button ''attr'' [JStr ''disabled'', JStr ''true'']])"

text \<open>\<^verbatim>\<open>changedUser\<close>: the three resets are operations of their components.\<close>

definition changedUser :: "bool \<Rightarrow> effs" where
  "changedUser mobile =
     (if mobile
      then [Call ''timelineChangedUser'' [], Dom ''#home .posts'' ''html'' [JStr ''''],
            Call ''newmsgsChangedUser'' [], Call ''followingChangedUser'' [],
            Call ''twisterInitialized'' [JBool False]]
      else [Nav ''home.html''])"

definition soundNotifyMentions :: "bool \<Rightarrow> bool \<Rightarrow> store \<Rightarrow> effs" where
  "soundNotifyMentions mobile mpeg s = (if mobile then [] else mensNotif mpeg s)"

definition soundNotifyDM :: "bool \<Rightarrow> bool \<Rightarrow> store \<Rightarrow> effs" where
  "soundNotifyDM mobile mpeg s = (if mobile then [] else DMsNotif mpeg s)"

section \<open>The contract of the URL functions\<close>

locale url_codec =
  fixes encode :: "string \<Rightarrow> string" and decode :: "string \<Rightarrow> string"
  assumes decode_encode: "CHR ''#'' \<notin> set page \<Longrightarrow> decode (page @ encode u) = u"
    and decode_foreign: "decode url \<noteq> '''' \<Longrightarrow> \<exists>page u. url = page @ encode u \<and> u = decode url"
begin

lemma encode_inj: "encode u = encode v \<longleftrightarrow> u = v"
  using decode_encode [of "''''"] by (metis append_Nil empty_iff list.set(1))

lemma decode_fragment: "decode (encode u) = u"
  using decode_encode [of "''''" u] by simp

lemma decode_stable: "CHR ''#'' \<notin> set page \<Longrightarrow> CHR ''#'' \<notin> set page' \<Longrightarrow>
    page @ encode u = page' @ encode v \<Longrightarrow> u = v"
  by (metis decode_encode)

end

lemma after_marker_append:
  "h \<notin> set page \<Longrightarrow> after_marker (h # p) (page @ (h # p) @ u) = u"
  using js_indexOf_skip [of h page p u] by (simp add: after_marker_def)

lemma after_marker_foreign:
  assumes "after_marker p url \<noteq> ''''"
  shows "\<exists>page. url = page @ p @ after_marker p url"
proof (cases "js_indexOf url p")
  case (Some i)
  then obtain a b where "url = a @ p @ b" "length a = i" using js_indexOf_some by blast
  with Some show ?thesis by (auto simp: after_marker_def)
qed (use assms in \<open>simp add: after_marker_def\<close>)

interpretation user_url: url_codec userUrl urlToUser
proof
  show "CHR ''#'' \<notin> set page \<Longrightarrow> urlToUser (page @ userUrl u) = u" for page u
    using after_marker_append [of "CHR ''#''" page "''profile?user=''" u]
    by (simp add: urlToUser_def userUrl_def)
  show "urlToUser url \<noteq> '''' \<Longrightarrow> \<exists>page u. url = page @ userUrl u \<and> u = urlToUser url" for url
    using after_marker_foreign [of "userUrl ''''" url] by (simp add: urlToUser_def userUrl_def)
qed

interpretation following_url: url_codec followingUrl followingUrlToUser
proof
  show "CHR ''#'' \<notin> set page \<Longrightarrow> followingUrlToUser (page @ followingUrl u) = u" for page u
    using after_marker_append [of "CHR ''#''" page "''following?user=''" u]
    by (simp add: followingUrlToUser_def followingUrl_def)
  show "followingUrlToUser url \<noteq> '''' \<Longrightarrow>
      \<exists>page u. url = page @ followingUrl u \<and> u = followingUrlToUser url" for url
    using after_marker_foreign [of "followingUrl ''''" url]
    by (simp add: followingUrlToUser_def followingUrl_def)
qed

section \<open>Properties\<close>

text \<open>
  The user name is recovered from a profile URL and from a following URL of any page.
\<close>

theorem user_urls_round_trip:
  assumes "CHR ''#'' \<notin> set page"
  shows "urlToUser (page @ userUrl u) = u \<and> followingUrlToUser (page @ followingUrl u) = u"
  using user_url.decode_encode [OF assms] following_url.decode_encode [OF assms] by simp

theorem user_urls_round_trip_witness:
  "urlToUser (''home.html'' @ userUrl ''bob'') = ''bob'' \<and>
   followingUrlToUser (''home.html'' @ followingUrl ''bob'') = ''bob''"
  using user_urls_round_trip [of "''home.html''" "''bob''"] by simp

end
