(* ===== verification/Twister_Newmsgs.thy ===== *)
theory Twister_Newmsgs
  imports Mobile_Abstract
begin

text \<open>
  \<^verbatim>\<open>twister_newmsgs.js\<close>: counters of new mentions and new direct messages, kept per user in the local
  storage. The time is in milliseconds (\<open>nowMs\<close>), so that the comparison with \<^verbatim>\<open>getTime() / 1000\<close> is
  exact. \<open>ui\<close> names the page's parameters: mobile pages, MP3 support, the direct-message counters.

  A stored mention is an object with the members \<^verbatim>\<open>mentionTime\<close> and \<^verbatim>\<open>data\<close>; a member that is missing
  is read as 0 or \<^verbatim>\<open>undefined\<close>, which \<^verbatim>\<open>purgeOldMentions\<close> treats alike.
\<close>

record mention =
  mentionTime :: int
  mentionData :: js

record newmsgs_state =
  knownMentions :: "mention obj"
  lastMentionTime :: int
  newMentions :: int
  lastDMIdPerUser :: "int obj"
  newDMsPerUser :: "int obj"

record ui =
  ui_mobile :: bool
  ui_mpeg :: bool
  ui_dmCounters :: "bool list"

definition newmsgs_init :: newmsgs_state where
  "newmsgs_init = \<lparr>knownMentions = [], lastMentionTime = 0, newMentions = 0, lastDMIdPerUser = [],
     newDMsPerUser = []\<rparr>"

definition PURGE_OLD_MENTIONS_TIMEOUT :: int where
  "PURGE_OLD_MENTIONS_TIMEOUT = 3600 * 24 * 30"

section \<open>Values in the storage\<close>

definition mention_js :: "mention \<Rightarrow> js" where
  "mention_js m = JObj [(''mentionTime'', JNum (mentionTime m)), (''data'', mentionData m)]"

definition mention_of_js :: "js \<Rightarrow> mention" where
  "mention_of_js v =
     \<lparr>mentionTime = (case js_prop v ''mentionTime'' of Inr (JNum n) \<Rightarrow> n | _ \<Rightarrow> 0),
      mentionData = (case js_prop v ''data'' of Inr d \<Rightarrow> d | Inl _ \<Rightarrow> JUndef)\<rparr>"

definition obj_of_js :: "(js \<Rightarrow> 'a) \<Rightarrow> js \<Rightarrow> 'a obj" where
  "obj_of_js f v = (case v of JObj m \<Rightarrow> map (\<lambda>(k, x). (k, f x)) m | _ \<Rightarrow> [])"

definition js_of_obj :: "('a \<Rightarrow> js) \<Rightarrow> 'a obj \<Rightarrow> js" where
  "js_of_obj f m = JObj (map (\<lambda>(k, x). (k, f x)) m)"

definition int_of_js :: "js \<Rightarrow> int" where
  "int_of_js v = (case v of JNum n \<Rightarrow> n | _ \<Rightarrow> 0)"

section \<open>Mentions\<close>

definition mention_key :: "string \<Rightarrow> int \<Rightarrow> string" where
  "mention_key user t = user @ '';'' @ str_of_int t"

definition stale :: "int \<Rightarrow> mention \<Rightarrow> bool" where
  "stale lastTime m = (mentionTime m = 0 \<or> \<not> truthy (mentionData m) \<or>
     mentionTime m + PURGE_OLD_MENTIONS_TIMEOUT < lastTime)"

definition purgeOldMentions :: "newmsgs_state \<Rightarrow> newmsgs_state" where
  "purgeOldMentions st = st\<lparr>knownMentions :=
     filter (\<lambda>(k, m). \<not> stale (lastMentionTime st) m) (knownMentions st)\<rparr>"

definition saveMentionsToStorage :: "string \<Rightarrow> newmsgs_state \<Rightarrow> store \<Rightarrow> store result" where
  "saveMentionsToStorage defaultScreenName st s =
     rbind (createNamespace defaultScreenName s) (ns_set_each defaultScreenName
       [(''knownMentions'', js_of_obj mention_js (knownMentions st)),
        (''lastMentionTime'', JNum (lastMentionTime st)),
        (''newMentions'', JNum (newMentions st))])"

definition load_item :: "string \<Rightarrow> store \<Rightarrow> string \<Rightarrow> (js \<Rightarrow> 'a) \<Rightarrow> 'a \<Rightarrow> 'a" where
  "load_item ns s k f old = (if ns_isSet ns s k then f (ns_read ns s k) else old)"

definition loadMentionsFromStorage :: "string \<Rightarrow> store \<Rightarrow> newmsgs_state \<Rightarrow> newmsgs_state result" where
  "loadMentionsFromStorage defaultScreenName s st =
     rbind (createNamespace defaultScreenName s) (\<lambda>s0. Inr (st\<lparr>
       knownMentions := load_item defaultScreenName s0 ''knownMentions'' (obj_of_js mention_of_js) (knownMentions st),
       lastMentionTime := load_item defaultScreenName s0 ''lastMentionTime'' int_of_js (lastMentionTime st),
       newMentions := load_item defaultScreenName s0 ''newMentions'' int_of_js (newMentions st)\<rparr>))"

text \<open>The state after \<^verbatim>\<open>processMention\<close>, and whether it has been saved and is new.\<close>

definition addMention :: "int \<Rightarrow> string \<Rightarrow> int \<Rightarrow> js \<Rightarrow> newmsgs_state \<Rightarrow> newmsgs_state \<times> bool \<times> bool" where
  "addMention nowMs user t d st =
     (let key = mention_key user t
      in if 1000 * t > nowMs + 3600 * 1000 then (st, False, False)
         else if ohas (knownMentions st) key then (st, False, False)
         else let isnew = (t + 3600 > lastMentionTime st);
                  st1 = (if isnew then st\<lparr>newMentions := newMentions st + 1, lastMentionTime := t\<rparr> else st);
                  st2 = st1\<lparr>knownMentions := oset (knownMentions st1) key
                          \<lparr>mentionTime = t, mentionData = d\<rparr>\<rparr>
              in (purgeOldMentions st2, True, isnew))"

definition processMention ::
    "ui \<Rightarrow> string \<Rightarrow> int \<Rightarrow> string \<Rightarrow> int \<Rightarrow> js \<Rightarrow> newmsgs_state \<Rightarrow> store \<Rightarrow>
     (effs \<times> newmsgs_state \<times> store) result" where
  "processMention u defaultScreenName nowMs user t d st s =
     (let (st', changed, isnew) = addMention nowMs user t d st;
          warn = (if 1000 * t > nowMs + 3600 * 1000
                  then [Log ''mention from the future will be ignored''] else [])
      in if changed
         then rbind (saveMentionsToStorage defaultScreenName st' s) (\<lambda>s'.
              Inr (warn @ (if isnew then soundNotifyMentions (ui_mobile u) (ui_mpeg u) s' else []), st', s'))
         else Inr (warn, st', s))"

definition requestMentionsCount :: "string \<Rightarrow> effs" where
  "requestMentionsCount defaultScreenName = [Call ''dhtget'' [JStr defaultScreenName, JStr ''mention'',
     JStr ''m'', JArr [JNum 10000, JNum 2000, JNum 3]]]"

text \<open>
  Its callback, for the items of the answer: the author and the time of the \<^verbatim>\<open>userpost\<close>, and the item.
\<close>

fun processMentions ::
    "ui \<Rightarrow> string \<Rightarrow> int \<Rightarrow> (string \<times> int \<times> js) list \<Rightarrow> newmsgs_state \<Rightarrow> store \<Rightarrow>
     (effs \<times> newmsgs_state \<times> store) result" where
  "processMentions u me nowMs [] st s = Inr (updateNewMentionsUI (ui_mobile u) (newMentions st), st, s)"
| "processMentions u me nowMs ((n, t, d) # items) st s =
     rbind (processMention u me nowMs n t d st s) (\<lambda>(e, st', s').
     rbind (processMentions u me nowMs items st' s') (\<lambda>(es, st'', s''). Inr (e @ es, st'', s'')))"

definition mentionsReceived ::
    "ui \<Rightarrow> string \<Rightarrow> int \<Rightarrow> (string \<times> int \<times> js) list option \<Rightarrow> newmsgs_state \<Rightarrow> store \<Rightarrow>
     (effs \<times> newmsgs_state \<times> store) result" where
  "mentionsReceived u me nowMs items st s = (case items of
     None \<Rightarrow> Inr ([], st, s)
   | Some xs \<Rightarrow> processMentions u me nowMs xs st s)"

definition resetMentionsCount :: "ui \<Rightarrow> string \<Rightarrow> newmsgs_state \<Rightarrow> store \<Rightarrow>
    (effs \<times> newmsgs_state \<times> store) result" where
  "resetMentionsCount u me st s =
     (let st' = st\<lparr>newMentions := 0\<rparr>
      in rbind (saveMentionsToStorage me st' s) (\<lambda>s'.
         Inr (updateNewMentionsUI (ui_mobile u) (newMentions st'), st', s')))"

definition initMentionsCount :: "ui \<Rightarrow> string \<Rightarrow> store \<Rightarrow> newmsgs_state \<Rightarrow> (effs \<times> newmsgs_state) result" where
  "initMentionsCount u me s st =
     rbind (loadMentionsFromStorage me s st) (\<lambda>st'.
     Inr (updateNewMentionsUI (ui_mobile u) (newMentions st') @ requestMentionsCount me @
       [Timer ''requestMentionsCount()'' 10000], st'))"

definition getMentionsData :: "newmsgs_state \<Rightarrow> js list" where
  "getMentionsData st = map mentionData (filter (\<lambda>m. truthy (mentionData m)) (map snd (knownMentions st)))"

section \<open>Direct messages\<close>

definition saveDMsToStorage :: "string \<Rightarrow> newmsgs_state \<Rightarrow> store \<Rightarrow> store result" where
  "saveDMsToStorage me st s =
     rbind (createNamespace me s) (ns_set_each me
       [(''lastDMIdPerUser'', js_of_obj JNum (lastDMIdPerUser st)),
        (''newDMsPerUser'', js_of_obj JNum (newDMsPerUser st))])"

definition loadDMsFromStorage :: "string \<Rightarrow> store \<Rightarrow> newmsgs_state \<Rightarrow> newmsgs_state result" where
  "loadDMsFromStorage me s st =
     rbind (createNamespace me s) (\<lambda>s0. Inr (st\<lparr>
       lastDMIdPerUser := load_item me s0 ''lastDMIdPerUser'' (obj_of_js int_of_js) (lastDMIdPerUser st),
       newDMsPerUser := load_item me s0 ''newDMsPerUser'' (obj_of_js int_of_js) (newDMsPerUser st)\<rparr>))"

definition requestDMsCount :: "string \<Rightarrow> string list \<Rightarrow> effs" where
  "requestDMsCount me followingUsers = [Rpc ''getdirectmsgs'' [JStr me, JNum 1,
     JArr (map (\<lambda>u. JObj [(''username'', JStr u)]) followingUsers)]]"

text \<open>One user of the answer; \<open>i\<close> is the id of the latest message.\<close>

definition dmStep :: "string \<times> int \<Rightarrow> newmsgs_state \<times> bool \<Rightarrow> newmsgs_state \<times> bool" where
  "dmStep ui acc = (case (ui, acc) of ((u, i), (st, updated)) \<Rightarrow>
     (let r = (if ohas (lastDMIdPerUser st) u \<and> ohas (newDMsPerUser st) u
               then if i \<noteq> the (oget (lastDMIdPerUser st) u)
                    then (st\<lparr>newDMsPerUser := oset (newDMsPerUser st) u
                            (the (oget (newDMsPerUser st) u) + (i - the (oget (lastDMIdPerUser st) u)))\<rparr>, True)
                    else (st, updated)
               else (st\<lparr>newDMsPerUser := oset (newDMsPerUser st) u (i + 1)\<rparr>, True))
      in ((fst r)\<lparr>lastDMIdPerUser := oset (lastDMIdPerUser (fst r)) u i\<rparr>, snd r)))"

definition getNewDMsCount :: "newmsgs_state \<Rightarrow> int" where
  "getNewDMsCount st = sum_list (map snd (newDMsPerUser st))"

definition dmsReceived :: "ui \<Rightarrow> string \<Rightarrow> int obj \<Rightarrow> newmsgs_state \<Rightarrow> store \<Rightarrow>
    (effs \<times> newmsgs_state \<times> store) result" where
  "dmsReceived u me dmUsers st s =
     (let (st', updated) = fold dmStep dmUsers (st, False)
      in if updated
         then rbind (saveDMsToStorage me st' s) (\<lambda>s'.
              Inr (updateNewDMsUI (ui_mobile u) (ui_dmCounters u) (getNewDMsCount st'), st', s'))
         else Inr ([], st', s))"

definition resetNewDMsCountForUser :: "ui \<Rightarrow> string \<Rightarrow> string \<Rightarrow> int \<Rightarrow> newmsgs_state \<Rightarrow> store \<Rightarrow>
    (effs \<times> newmsgs_state \<times> store) result" where
  "resetNewDMsCountForUser u me user lastId st s =
     (let st' = st\<lparr>newDMsPerUser := oset (newDMsPerUser st) user 0,
                   lastDMIdPerUser := oset (lastDMIdPerUser st) user lastId\<rparr>
      in rbind (saveDMsToStorage me st' s) (\<lambda>s'.
         Inr (updateNewDMsUI (ui_mobile u) (ui_dmCounters u) (getNewDMsCount st'), st', s')))"

definition initDMsCount :: "ui \<Rightarrow> string \<Rightarrow> string list \<Rightarrow> store \<Rightarrow> newmsgs_state \<Rightarrow>
    (effs \<times> newmsgs_state) result" where
  "initDMsCount u me followingUsers s st =
     rbind (loadDMsFromStorage me s st) (\<lambda>st'.
     Inr (updateNewDMsUI (ui_mobile u) (ui_dmCounters u) (getNewDMsCount st') @
       requestDMsCount me followingUsers, st'))"

text \<open>The direct-message counters are not reset.\<close>

definition newmsgsChangedUser :: "newmsgs_state \<Rightarrow> newmsgs_state" where
  "newmsgsChangedUser st = st\<lparr>knownMentions := [], lastMentionTime := 0, newMentions := 0\<rparr>"

section \<open>Lemmas\<close>

lemma obj_round_trip: "(\<And>x. g (f x) = x) \<Longrightarrow> obj_of_js g (js_of_obj f m) = m"
  by (induction m) (auto simp: obj_of_js_def js_of_obj_def)

lemma mention_round_trip: "mention_of_js (mention_js m) = m"
  by (simp add: mention_of_js_def mention_js_def)

lemma jsonable_js_of_obj:
  "distinct (okeys m) \<Longrightarrow> list_all (\<lambda>(k, x). jsonable (f x)) m \<Longrightarrow> jsonable (js_of_obj f m)"
  by (auto simp: js_of_obj_def list_all_iff o_def split_beta)

lemma load_item_present: "ns_ok ns s \<Longrightarrow> ns_read ns s k = v \<Longrightarrow> present v \<Longrightarrow> load_item ns s k f old = f v"
  by (simp add: load_item_def ns_isSet_read)

lemma present_simps [simp]: "present (JNum n)" "present (js_of_obj f m)"
  by (simp_all add: present_def js_of_obj_def)

text \<open>The invariant of the mentions: no key twice, and nothing older than a month.\<close>

definition mentions_ok :: "newmsgs_state \<Rightarrow> bool" where
  "mentions_ok st \<longleftrightarrow> distinct (okeys (knownMentions st)) \<and>
     list_all (\<lambda>(k, m). \<not> stale (lastMentionTime st) m) (knownMentions st)"

lemma distinct_okeys_filter: "distinct (okeys m) \<Longrightarrow> distinct (okeys (filter P m))"
  by (induction m) (auto simp: image_iff)

lemma purge_ok: "distinct (okeys (knownMentions st)) \<Longrightarrow> mentions_ok (purgeOldMentions st)"
  by (simp add: mentions_ok_def purgeOldMentions_def distinct_okeys_filter list_all_iff)

lemma addMention_ok: "mentions_ok st \<Longrightarrow> mentions_ok (fst (addMention nowMs u t d st))"
  by (auto simp: addMention_def Let_def mentions_ok_def intro!: purge_ok [unfolded mentions_ok_def])

lemma filter_id_list_all: "list_all P xs \<Longrightarrow> filter P xs = xs"
  by (induction xs) auto

lemma oget_filter:
  "distinct (okeys m) \<Longrightarrow> oget (filter (\<lambda>(k, x). P x) m) k =
     (case oget m k of None \<Rightarrow> None | Some x \<Rightarrow> if P x then Some x else None)"
proof (induction m)
  case (Cons p m)
  then show ?case
    by (cases p) (auto simp: map_of_eq_None_iff [symmetric] split: option.splits)
qed simp

lemma oset_filter:
  assumes "\<not> P v" and "k \<notin> fst ` set m"
  shows "filter (\<lambda>(k, x). P x) (oset m k v) = filter (\<lambda>(k, x). P x) m"
  using assms by (simp add: oset_new)

text \<open>\<^verbatim>\<open>dmStep\<close> in terms of the two maps.\<close>

definition dmCount :: "newmsgs_state \<Rightarrow> string \<Rightarrow> int \<Rightarrow> int" where
  "dmCount st u i = (case (oget (lastDMIdPerUser st) u, oget (newDMsPerUser st) u) of
     (Some l, Some n) \<Rightarrow> n + (i - l) | _ \<Rightarrow> i + 1)"

lemma dmStep_maps:
  "oget (lastDMIdPerUser (fst (dmStep (u, i) (st, b)))) v =
     (if v = u then Some i else oget (lastDMIdPerUser st) v)"
  "oget (newDMsPerUser (fst (dmStep (u, i) (st, b)))) v =
     (if v = u then Some (dmCount st u i) else oget (newDMsPerUser st) v)"
  by (auto simp: dmStep_def Let_def oget_oset ohas_def dmCount_def split: option.splits)

lemma dmSteps_maps:
  assumes "distinct (okeys dms)"
  shows "oget (lastDMIdPerUser (fst (fold dmStep dms (st, b)))) v =
     (case oget dms v of Some i \<Rightarrow> Some i | None \<Rightarrow> oget (lastDMIdPerUser st) v) \<and>
   oget (newDMsPerUser (fst (fold dmStep dms (st, b)))) v =
     (case oget dms v of Some i \<Rightarrow> Some (dmCount st v i) | None \<Rightarrow> oget (newDMsPerUser st) v)"
  using assms
proof (induction dms arbitrary: st b)
  case (Cons p dms)
  obtain u i where p: "p = (u, i)" by (cases p)
  with Cons.prems have u: "oget dms u = None" by (simp add: map_of_eq_None_iff)
  obtain st' b' where st': "dmStep (u, i) (st, b) = (st', b')" by (cases "dmStep (u, i) (st, b)")
  note m = dmStep_maps [of u i st b, unfolded st' fst_conv]
  have "dmCount st' v j = dmCount st v j" if "v \<noteq> u" for j using that by (simp add: dmCount_def m)
  with Cons p u show ?case by (auto simp: st' m split: option.splits)
qed simp

lemma addMention_twice:
  assumes "mentions_ok st" and "t \<noteq> 0" and "truthy d"
  shows "fst (addMention nowMs u t d (fst (addMention nowMs u t d st))) = fst (addMention nowMs u t d st)"
proof (cases "1000 * t > nowMs + 3600 * 1000 \<or> ohas (knownMentions st) (mention_key u t)")
  case True
  then show ?thesis by (auto simp: addMention_def Let_def)
next
  case False
  let ?k = "mention_key u t" and ?m = "\<lparr>mentionTime = t, mentionData = d\<rparr>"
  define l where "l = (if t + 3600 > lastMentionTime st then t else lastMentionTime st)"
  define n where "n = (if t + 3600 > lastMentionTime st then newMentions st + 1 else newMentions st)"
  define r where "r = st\<lparr>newMentions := n, lastMentionTime := l,
     knownMentions := filter (\<lambda>(k, m). \<not> stale l m) (oset (knownMentions st) ?k ?m)\<rparr>"
  have r: "fst (addMention nowMs u t d st) = r"
    using False by (simp add: addMention_def Let_def purgeOldMentions_def r_def l_def n_def)
  have fresh: "?k \<notin> fst ` set (knownMentions st)" using False by (simp add: ohas_iff)
  show ?thesis
  proof (cases "stale l ?m")
    case False
    with fresh have "ohas (knownMentions r) ?k" by (simp add: r_def oset_new ohas_iff)
    then have "fst (addMention nowMs u t d r) = r" by (simp add: addMention_def Let_def)
    then show ?thesis by (simp only: r)
  next
    case True
    with assms(2,3) have old: "t + PURGE_OLD_MENTIONS_TIMEOUT < l" by (simp add: stale_def)
    then have "l = lastMentionTime st" "n = newMentions st"
      by (auto simp: l_def n_def PURGE_OLD_MENTIONS_TIMEOUT_def split: if_splits)
    moreover have k: "knownMentions r = filter (\<lambda>(k, m). \<not> stale l m) (knownMentions st)"
      using oset_filter [of "\<lambda>m. \<not> stale l m"] True fresh by (simp add: r_def)
    moreover from this assms(1) \<open>l = lastMentionTime st\<close> have "knownMentions r = knownMentions st"
      by (simp add: mentions_ok_def filter_id_list_all)
    ultimately have "r = st" by (simp add: r_def)
    then show ?thesis by (simp only: r)
  qed
qed

section \<open>Properties\<close>

text \<open>
  C22. A mention is counted at most once: handling the same mention again, as every poll does, changes
  neither the counter nor the known mentions. The known mentions never hold a key twice or an entry
  more than a month older than the last mention.
\<close>

theorem mention_counted_once:
  assumes "mentions_ok st" and "t \<noteq> 0" and "truthy d"
  shows "fst (addMention nowMs u t d (fst (addMention nowMs u t d st))) = fst (addMention nowMs u t d st) \<and>
    mentions_ok (fst (addMention nowMs u t d st))"
  using addMention_twice [OF assms] addMention_ok [OF assms(1)] by simp

theorem mention_counted_once_witness:
  "newMentions (fst (addMention 9000000 ''bob'' 8000 (JNum 1) newmsgs_init)) = 1 \<and>
   newMentions (fst (addMention 9000000 ''bob'' 8000 (JNum 1)
     (fst (addMention 9000000 ''bob'' 8000 (JNum 1) newmsgs_init)))) = 1"
  using mention_counted_once [of newmsgs_init 8000 "JNum 1" 9000000 "''bob''"]
  by (simp add: mentions_ok_def newmsgs_init_def)
    (simp add: addMention_def purgeOldMentions_def ohas_def Let_def)

text \<open>
  What \<^verbatim>\<open>saveMentionsToStorage\<close> writes, \<^verbatim>\<open>loadMentionsFromStorage\<close> reads back into any state: the
  known mentions, the time of the last one and the counter.
\<close>

theorem mentions_save_load:
  assumes "me \<noteq> ''''" and "oget s me = None \<or> ns_ok me s"
    and "distinct (okeys (knownMentions st))"
    and "list_all (\<lambda>(k, m). jsonable (mentionData m)) (knownMentions st)"
  shows "\<exists>s'. saveMentionsToStorage me st s = Inr s' \<and>
    loadMentionsFromStorage me s' st0 = Inr (st0\<lparr>knownMentions := knownMentions st,
      lastMentionTime := lastMentionTime st, newMentions := newMentions st\<rparr>)"
proof -
  let ?kvs = "[(''knownMentions'', js_of_obj mention_js (knownMentions st)),
    (''lastMentionTime'', JNum (lastMentionTime st)), (''newMentions'', JNum (newMentions st))]"
  have "list_all (\<lambda>(k, v). jsonable v) ?kvs"
    using jsonable_js_of_obj [of "knownMentions st" mention_js] assms(3,4)
    by (simp add: mention_js_def)
  then obtain s' where s': "rbind (createNamespace me s) (ns_set_each me ?kvs) = Inr s'"
    "createNamespace me s' = Inr s'" "ns_ok me s'"
    and rd: "\<forall>k v. oget ?kvs k = Some v \<longrightarrow> ns_read me s' k = v"
    using save_load [OF assms(1,2), of ?kvs] by auto
  have "ns_read me s' ''knownMentions'' = js_of_obj mention_js (knownMentions st)"
    "ns_read me s' ''lastMentionTime'' = JNum (lastMentionTime st)"
    "ns_read me s' ''newMentions'' = JNum (newMentions st)"
    using rd by simp_all
  note items = this [THEN load_item_present [OF s'(3)]]
  have "load_item me s' ''knownMentions'' (obj_of_js mention_of_js) (knownMentions st0) = knownMentions st"
    "load_item me s' ''lastMentionTime'' int_of_js (lastMentionTime st0) = lastMentionTime st"
    "load_item me s' ''newMentions'' int_of_js (newMentions st0) = newMentions st"
    by (simp_all add: items obj_round_trip mention_round_trip int_of_js_def)
  then show ?thesis using s' by (simp add: saveMentionsToStorage_def loadMentionsFromStorage_def)
qed

theorem mentions_save_load_witness:
  "\<exists>s'. saveMentionsToStorage ''bob'' (newmsgs_init\<lparr>newMentions := 3\<rparr>) [] = Inr s' \<and>
     loadMentionsFromStorage ''bob'' s' newmsgs_init = Inr (newmsgs_init\<lparr>newMentions := 3\<rparr>)"
  using mentions_save_load [of "''bob''" "[]" "newmsgs_init\<lparr>newMentions := 3\<rparr>" newmsgs_init]
  by (simp add: newmsgs_init_def)

text \<open>
  The counter of a user's unread direct messages is the number of ids since the conversation was
  last read: after reading up to \<open>lastId\<close>, an answer whose latest message has id \<open>i\<close> makes it
  \<open>i - lastId\<close>; users who are not in the answer keep their counter.
\<close>

theorem dm_unread_since_read:
  assumes "resetNewDMsCountForUser u me user lastId st s = Inr (e1, st1, s1)"
    and "dmsReceived u me dms st1 s1 = Inr (e2, st2, s2)" and "distinct (okeys dms)"
  shows "oget (newDMsPerUser st2) user = Some (case oget dms user of None \<Rightarrow> 0 | Some i \<Rightarrow> i - lastId) \<and>
    (\<forall>v. oget dms v = None \<and> v \<noteq> user \<longrightarrow> oget (newDMsPerUser st2) v = oget (newDMsPerUser st) v)"
proof -
  have st1: "newDMsPerUser st1 = oset (newDMsPerUser st) user 0"
    "lastDMIdPerUser st1 = oset (lastDMIdPerUser st) user lastId"
    using assms(1) by (auto simp: resetNewDMsCountForUser_def Let_def rbind_Inr_iff)
  have st2: "st2 = fst (fold dmStep dms (st1, False))"
    using assms(2) by (auto simp: dmsReceived_def rbind_Inr_iff split: prod.splits if_splits)
  show ?thesis using dmSteps_maps [OF assms(3), of st1 False]
    by (auto simp: st2 st1 oget_oset dmCount_def split: option.splits)
qed

lemma saveDMs_example:
  "\<exists>s'. saveDMsToStorage ''bob'' st [] = Inr s' \<and> ns_ok ''bob'' s'" if
  "distinct (okeys (lastDMIdPerUser st))" "distinct (okeys (newDMsPerUser st))"
proof -
  let ?kvs = "[(''lastDMIdPerUser'', js_of_obj JNum (lastDMIdPerUser st)),
    (''newDMsPerUser'', js_of_obj JNum (newDMsPerUser st))]"
  have "list_all (\<lambda>(k, v). jsonable v) ?kvs"
    using that by (auto intro!: jsonable_js_of_obj simp: list_all_iff)
  from save_load [of "''bob''" "[]" ?kvs, OF _ _ _ this] show ?thesis
    by (auto simp: saveDMsToStorage_def)
qed

theorem dm_unread_since_read_witness:
  "\<exists>e1 st1 s1. resetNewDMsCountForUser \<lparr>ui_mobile = False, ui_mpeg = True, ui_dmCounters = []\<rparr>
      ''bob'' ''eve'' 4 newmsgs_init [] = Inr (e1, st1, s1) \<and>
    (\<forall>e2 st2 s2. dmsReceived \<lparr>ui_mobile = False, ui_mpeg = True, ui_dmCounters = []\<rparr> ''bob''
       [(''eve'', 7)] st1 s1 = Inr (e2, st2, s2) \<longrightarrow> oget (newDMsPerUser st2) ''eve'' = Some 3)"
proof -
  let ?u = "\<lparr>ui_mobile = False, ui_mpeg = True, ui_dmCounters = []\<rparr>"
  have "\<exists>x. resetNewDMsCountForUser ?u ''bob'' ''eve'' 4 newmsgs_init [] = Inr x"
    using saveDMs_example [of "newmsgs_init\<lparr>newDMsPerUser := [(''eve'', 0)], lastDMIdPerUser := [(''eve'', 4)]\<rparr>"]
    by (auto simp: resetNewDMsCountForUser_def newmsgs_init_def Let_def)
  then obtain e1 st1 s1 where
    "resetNewDMsCountForUser ?u ''bob'' ''eve'' 4 newmsgs_init [] = Inr (e1, st1, s1)" by auto
  with dm_unread_since_read [OF this, of "[(''eve'', 7)]"] show ?thesis by fastforce
qed

end
