(* ===== verification/Twister_Following.thy ===== *)
theory Twister_Following
  imports Twister_Newmsgs Twister_Rpc
begin

text \<open>
  \<^verbatim>\<open>twister_following.js\<close>: the users being followed. Most of the file is commented out; this models
  what runs. The entries of \<open>followingUsers\<close> are objects that \<^verbatim>\<open>follow\<close> passes to an asynchronous
  request, which fills them in later: they live in a heap (\<open>objects\<close>, an address is an index), and the
  map holds addresses. Times of the \<^verbatim>\<open>TwisterFollowing\<close> object are in milliseconds, also in the
  storage, where the code writes the same number divided by 1000.
\<close>

section \<open>State\<close>

record following_state =
  followingUsers :: "nat obj"
  objects :: "js obj list"
  isFollowPublic :: "js obj"
  followingSeqNum :: int
  followSuggestions :: "string list"
  lastLoadFromDhtTime :: int

definition following_init :: following_state where
  "following_init = \<lparr>followingUsers = [], objects = [], isFollowPublic = [], followingSeqNum = 0,
     followSuggestions = [], lastLoadFromDhtTime = 0\<rparr>"

text \<open>The object of a user, with its current members.\<close>

definition user_object :: "following_state \<Rightarrow> nat \<Rightarrow> js" where
  "user_object st a = JObj (objects st ! a)"

definition followingUsers_js :: "following_state \<Rightarrow> js" where
  "followingUsers_js st = js_of_obj (user_object st) (followingUsers st)"

section \<open>Storage\<close>

definition saveFollowingToStorage :: "string \<Rightarrow> following_state \<Rightarrow> store \<Rightarrow> store result" where
  "saveFollowingToStorage me st s =
     rbind (createNamespace me s) (ns_set_each me
       [(''followingUsers'', followingUsers_js st),
        (''isFollowPublic'', JObj (isFollowPublic st)),
        (''followingSeqNum'', JNum (followingSeqNum st)),
        (''lastLoadFromDhtTime'', JNum (lastLoadFromDhtTime st))])"

text \<open>Reading a stored map of objects creates new objects.\<close>

definition obj_members :: "js \<Rightarrow> js obj" where
  "obj_members v = (case v of JObj m \<Rightarrow> m | _ \<Rightarrow> [])"

definition load_users :: "js \<Rightarrow> following_state \<Rightarrow> following_state" where
  "load_users v st =
     (let m = obj_members v; n = length (objects st)
      in st\<lparr>followingUsers := zip (okeys m) [n..<n + length m],
            objects := objects st @ map (obj_members \<circ> snd) m\<rparr>)"

definition loadFollowingFromStorage :: "string \<Rightarrow> store \<Rightarrow> following_state \<Rightarrow> following_state result" where
  "loadFollowingFromStorage me s st =
     rbind (createNamespace me s) (\<lambda>s0.
       let st1 = (if ns_isSet me s0 ''followingUsers''
                  then load_users (ns_read me s0 ''followingUsers'') st else st);
           seq = ns_read me s0 ''followingSeqNum''
       in Inr (st1\<lparr>
            isFollowPublic := load_item me s0 ''isFollowPublic'' obj_members (isFollowPublic st),
            followingSeqNum := (case seq of
                JNum n \<Rightarrow> if n > followingSeqNum st then n else followingSeqNum st
              | _ \<Rightarrow> followingSeqNum st),
            lastLoadFromDhtTime := load_item me s0 ''lastLoadFromDhtTime'' int_of_js (lastLoadFromDhtTime st)\<rparr>))"

section \<open>Operations\<close>

definition getWitnessFromDht :: "string \<Rightarrow> effs" where
  "getWitnessFromDht username =
     [Call ''dhtget'' [JStr username, JStr ''witness'', JStr ''s'']]"

text \<open>\<^verbatim>\<open>writeWitnessToLocal\<close> on the object at address \<open>a\<close>.\<close>

definition writeWitnessToLocal :: "nat \<Rightarrow> js \<Rightarrow> js \<Rightarrow> following_state \<Rightarrow> following_state" where
  "writeWitnessToLocal a witness seqNum st =
     st\<lparr>objects := (objects st)[a := oset (oset (objects st ! a) ''witness'' witness) ''seqNum'' seqNum]\<rparr>"

text \<open>The callback of the request: \<open>raw\<close> is the raw answer, absent on a failure.\<close>

definition witnessReceived :: "nat \<Rightarrow> js \<Rightarrow> dht_item list option \<Rightarrow> following_state \<Rightarrow> following_state result" where
  "witnessReceived a witness raw st = (case raw of
     None \<Rightarrow> Inr (writeWitnessToLocal a witness JUndef st)
   | Some (x # _) \<Rightarrow> Inr (writeWitnessToLocal a witness (JNum (p_seq x)) st)
   | Some [] \<Rightarrow> Inl TypeErr)"

text \<open>\<^verbatim>\<open>user\<close> is the key, a string: \<^verbatim>\<open>user.witness\<close> reads a property of the string.\<close>

definition updateFollowing :: "string \<Rightarrow> following_state \<Rightarrow> effs" where
  "updateFollowing me st =
     (let users = filter (\<lambda>user. js_prop (JStr user) ''witness'' \<noteq> Inr JUndef) (okeys (followingUsers st));
          witnesses = map (\<lambda>user. case js_prop (JStr user) ''witness'' of Inr w \<Rightarrow> w | Inl _ \<Rightarrow> JUndef) users
      in [Rpc ''follow'' [JStr me, JArr (map JStr users), JArr witnesses]])"

text \<open>Its handlers; on an error \<^verbatim>\<open>args\<close> is \<^verbatim>\<open>cbArg\<close> itself, as in \<^verbatim>\<open>dhtput\<close>.\<close>

definition updateFollowing_reply :: "string option \<Rightarrow> js \<Rightarrow> rpc_reply \<Rightarrow> effs result" where
  "updateFollowing_reply cbFunc cbArg r = dhtput_reply cbFunc cbArg r"

definition loadFollowing :: "string \<Rightarrow> (string \<times> js) option \<Rightarrow> store \<Rightarrow> following_state \<Rightarrow>
    (effs \<times> following_state) result" where
  "loadFollowing me cb s st =
     rbind (loadFollowingFromStorage me s st) (\<lambda>st'.
     Inr (updateFollowing me st' @ (case cb of None \<Rightarrow> [] | Some (f, arg) \<Rightarrow> [Call f [arg]]), st'))"

definition saveFollowing :: "string \<Rightarrow> following_state \<Rightarrow> store \<Rightarrow> (effs \<times> store) result" where
  "saveFollowing me st s =
     rbind (saveFollowingToStorage me st s) (\<lambda>s'. Inr (updateFollowing me st, s'))"

text \<open>\<open>publicFollow\<close> may be left out (\<open>None\<close>).\<close>

definition follow_entry :: "string \<Rightarrow> following_state \<Rightarrow> nat \<times> following_state" where
  "follow_entry user st = (case oget (followingUsers st) user of
     Some a \<Rightarrow> (a, st)
   | None \<Rightarrow> (length (objects st), st\<lparr>followingUsers := oset (followingUsers st) user (length (objects st)),
       objects := objects st @ [[]]\<rparr>))"

definition follow :: "string \<Rightarrow> string \<Rightarrow> bool option \<Rightarrow> following_state \<Rightarrow> store \<Rightarrow>
    (effs \<times> nat \<times> following_state \<times> store) result" where
  "follow me user publicFollow st s =
     (let (a, st1) = follow_entry user st;
          st2 = (if publicFollow \<noteq> Some False
                 then st1\<lparr>isFollowPublic := oset (isFollowPublic st1) user (JBool True)\<rparr>
                 else st1\<lparr>isFollowPublic := odel (isFollowPublic st1) user\<rparr>)
      in rbind (saveFollowing me st2 s) (\<lambda>(e, s'). Inr (getWitnessFromDht user @ e, a, st2, s')))"

definition followingChangedUser :: "following_state \<Rightarrow> following_state" where
  "followingChangedUser st = st\<lparr>followingUsers := [], isFollowPublic := [], followingSeqNum := 0,
     followSuggestions := [], lastLoadFromDhtTime := 0\<rparr>"

section \<open>The TwisterFollowing object\<close>

record tf_state =
  followingsFollowings :: js
  knownFollowers :: "string list"
  knownFollowersResetTime :: int
  notFollowers :: "string list"

definition minUpdateInterval :: int where
  "minUpdateInterval = 43200"

definition maxUpdateInterval :: int where
  "maxUpdateInterval = 691200"

definition strings_js :: "string list \<Rightarrow> js" where
  "strings_js xs = JArr (map JStr xs)"

definition strings_of_js :: "js \<Rightarrow> string list" where
  "strings_of_js v = (case v of JArr xs \<Rightarrow> map js_string xs | _ \<Rightarrow> [])"

text \<open>\<open>tf_load\<close> works on the local and the session storage and writes the new reset time.\<close>

definition tf_load :: "string \<Rightarrow> int \<Rightarrow> store \<Rightarrow> store \<Rightarrow> tf_state \<Rightarrow> (tf_state \<times> store) result" where
  "tf_load user nowMs loc ses tf =
     rbind (createNamespace user loc) (\<lambda>l. rbind (createNamespace user ses) (\<lambda>e.
       let ff = load_item user l ''followingsFollowings'' id (followingsFollowings tf);
           t = load_item user l ''knownFollowersResetTime'' int_of_js (knownFollowersResetTime tf);
           nf = load_item user e ''notFollowers'' strings_of_js (notFollowers tf)
       in if nowMs - t < 1000 * maxUpdateInterval \<and> ns_isSet user l ''knownFollowers''
          then Inr (\<lparr>followingsFollowings = ff,
                 knownFollowers = strings_of_js (ns_read user l ''knownFollowers''),
                 knownFollowersResetTime = t, notFollowers = nf\<rparr>, l)
          else rbind (ns_set user l ''knownFollowersResetTime'' (JNum nowMs)) (\<lambda>l'.
               Inr (\<lparr>followingsFollowings = ff, knownFollowers = [], knownFollowersResetTime = nowMs,
                 notFollowers = nf\<rparr>, l'))))"

definition tf_save :: "string \<Rightarrow> tf_state \<Rightarrow> store \<Rightarrow> store \<Rightarrow> (store \<times> store) result" where
  "tf_save user tf loc ses =
     rbind (createNamespace user loc) (\<lambda>l. rbind (createNamespace user ses) (\<lambda>e.
     rbind (ns_set_each user
       [(''followingsFollowings'', followingsFollowings tf),
        (''knownFollowers'', strings_js (knownFollowers tf)),
        (''knownFollowersResetTime'', JNum (knownFollowersResetTime tf))] l) (\<lambda>l'.
     rbind (ns_set_each user [(''notFollowers'', strings_js (notFollowers tf))] e) (\<lambda>e'.
     Inr (l', e')))))"

text \<open>\<^verbatim>\<open>update\<close> computes an index that nothing uses.\<close>

definition tf_update :: "tf_state \<Rightarrow> tf_state" where
  "tf_update tf = tf"

definition tf_init :: "string \<Rightarrow> int \<Rightarrow> store \<Rightarrow> store \<Rightarrow> tf_state \<Rightarrow> (tf_state \<times> store) result" where
  "tf_init user nowMs loc ses tf =
     rbind (tf_load user nowMs loc ses tf) (\<lambda>(tf', l). Inr (tf_update tf', l))"

section \<open>Lemmas\<close>

text \<open>Every user has an object of its own.\<close>

definition following_ok :: "following_state \<Rightarrow> bool" where
  "following_ok st \<longleftrightarrow> distinct (okeys (followingUsers st)) \<and> distinct (map snd (followingUsers st)) \<and>
     list_all (\<lambda>(u, a). a < length (objects st)) (followingUsers st) \<and>
     distinct (okeys (isFollowPublic st)) \<and>
     list_all (\<lambda>(u, v). jsonable v) (isFollowPublic st) \<and>
     list_all (\<lambda>m. jsonable (JObj m)) (objects st)"

lemma following_ok_init: "following_ok following_init"
  by (simp add: following_ok_def following_init_def)

lemma oget_address:
  "following_ok st \<Longrightarrow> oget (followingUsers st) u = Some a \<Longrightarrow> a < length (objects st)"
  unfolding following_ok_def by (metis list_all_oget case_prodD)

lemma follow_entry_ok:
  assumes "following_ok st" and "follow_entry user st = (a, st1)"
  shows "following_ok st1" and "oget (followingUsers st1) user = Some a"
    and "isFollowPublic st1 = isFollowPublic st"
    and "oget (followingUsers st) user = None \<Longrightarrow> objects st1 ! a = []"
proof -
  show "following_ok st1"
  proof (cases "oget (followingUsers st) user")
    case None
    then have new: "user \<notin> fst ` set (followingUsers st)" by (simp add: map_of_eq_None_iff)
    have "length (objects st) \<notin> snd ` set (followingUsers st)"
      using assms(1) by (fastforce simp: following_ok_def list_all_iff)
    moreover have "list_all (\<lambda>(u, a). a < Suc (length (objects st))) (followingUsers st)"
      using assms(1) by (fastforce simp: following_ok_def list_all_iff)
    ultimately show ?thesis using assms None
      by (auto simp: follow_entry_def following_ok_def oset_new [OF new] new)
  qed (use assms in \<open>auto simp: follow_entry_def\<close>)
qed (use assms(2) in \<open>auto simp: follow_entry_def oget_oset split: option.splits\<close>)

lemma follow_result:
  assumes "following_ok st" and "follow me user pf st s = Inr (e, a, st1, s1)"
  shows "following_ok st1" and "oget (followingUsers st1) user = Some a"
    and "ohas (isFollowPublic st1) user = (pf \<noteq> Some False)"
    and "saveFollowingToStorage me st1 s = Inr s1"
    and "oget (followingUsers st) user = None \<Longrightarrow> objects st1 ! a = []"
proof -
  obtain b st0 where f: "follow_entry user st = (b, st0)" by (cases "follow_entry user st")
  note ok = follow_entry_ok [OF assms(1) f]
  from assms(2) f have a: "a = b" and st1: "st1 = (if pf \<noteq> Some False
      then st0\<lparr>isFollowPublic := oset (isFollowPublic st0) user (JBool True)\<rparr>
      else st0\<lparr>isFollowPublic := odel (isFollowPublic st0) user\<rparr>)"
    and s: "saveFollowingToStorage me st1 s = Inr s1"
    by (auto simp: follow_def rbind_Inr_iff saveFollowing_def Let_def)
  show "following_ok st1" using ok(1)
    by (simp add: st1 following_ok_def list_all_oset list_all_odel)
  show "oget (followingUsers st1) user = Some a" using ok(2) by (simp add: st1 a)
  show "ohas (isFollowPublic st1) user = (pf \<noteq> Some False)"
    by (simp add: st1 ohas_def oget_oset oget_odel)
  show "saveFollowingToStorage me st1 s = Inr s1" by (rule s)
  show "oget (followingUsers st) user = None \<Longrightarrow> objects st1 ! a = []" using ok(4) by (simp add: st1 a)
qed

lemma jsonable_users: "following_ok st \<Longrightarrow> jsonable (followingUsers_js st)"
  unfolding followingUsers_js_def
  by (rule jsonable_js_of_obj)
    (fastforce simp: following_ok_def list_all_iff user_object_def simp del: jsonable.simps)+

lemma save_following:
  assumes "following_ok st" and "me \<noteq> ''''" and "oget s me = None \<or> ns_ok me s"
  shows "\<exists>s'. saveFollowingToStorage me st s = Inr s' \<and> createNamespace me s' = Inr s' \<and> ns_ok me s' \<and>
    ns_read me s' ''followingUsers'' = followingUsers_js st \<and>
    ns_read me s' ''isFollowPublic'' = JObj (isFollowPublic st) \<and>
    ns_read me s' ''followingSeqNum'' = JNum (followingSeqNum st) \<and>
    ns_read me s' ''lastLoadFromDhtTime'' = JNum (lastLoadFromDhtTime st)"
proof -
  let ?kvs = "[(''followingUsers'', followingUsers_js st), (''isFollowPublic'', JObj (isFollowPublic st)),
    (''followingSeqNum'', JNum (followingSeqNum st)), (''lastLoadFromDhtTime'', JNum (lastLoadFromDhtTime st))]"
  have "list_all (\<lambda>(k, v). jsonable v) ?kvs"
    using jsonable_users [OF assms(1)] assms(1) by (simp add: following_ok_def)
  with save_load [OF assms(2,3), of ?kvs] show ?thesis by (auto simp: saveFollowingToStorage_def)
qed

lemma load_users_js: "followingUsers_js (load_users (js_of_obj f m) st) = js_of_obj (\<lambda>x. JObj (obj_members (f x))) m"
proof -
  let ?n = "length (objects st)" and ?os = "map (obj_members \<circ> f \<circ> snd) m"
  have "map (\<lambda>(k, a). (k, JObj ((objects st @ ?os) ! a))) (zip (okeys m) [?n..<?n + length m]) =
      map (\<lambda>(k, x). (k, JObj (obj_members (f x)))) m"
    by (rule nth_equalityI) (auto simp: nth_append split_beta)
  then show ?thesis
    by (simp add: followingUsers_js_def load_users_def js_of_obj_def obj_members_def Let_def
        user_object_def [abs_def] o_def split_beta)
qed

lemma present_obj [simp]: "present (JObj m)" "present (JArr xs)"
  by (simp_all add: present_def)

lemma strings_round_trip [simp]: "strings_of_js (strings_js xs) = xs" "present (strings_js xs)"
  "jsonable (strings_js xs)"
  by (simp_all add: strings_of_js_def strings_js_def present_def o_def list_all_iff)

section \<open>Properties\<close>

text \<open>
  C25. After \<^verbatim>\<open>follow\<close> the user has an object of its own, public or not as asked, and the state is
  saved; when the witness arrives, the object has the witness and the sequence number, and no other
  user's object has changed.
\<close>

theorem follow_gets_witness:
  assumes "following_ok st" and "follow me user pf st s = Inr (e, a, st1, s1)"
    and "witnessReceived a w (Some (x # xs)) st1 = Inr st2"
  shows "following_ok st1 \<and> ohas (isFollowPublic st1) user = (pf \<noteq> Some False) \<and>
    saveFollowingToStorage me st1 s = Inr s1 \<and>
    oget (followingUsers st2) user = Some a \<and>
    oget (objects st2 ! a) ''witness'' = Some w \<and> oget (objects st2 ! a) ''seqNum'' = Some (JNum (p_seq x)) \<and>
    (\<forall>v b. oget (followingUsers st2) v = Some b \<and> v \<noteq> user \<longrightarrow> objects st2 ! b = objects st1 ! b)"
proof -
  note r = follow_result [OF assms(1,2)]
  have lt: "a < length (objects st1)" using oget_address [OF r(1,2)] .
  from assms(3) have st2: "st2 = writeWitnessToLocal a w (JNum (p_seq x)) st1"
    by (simp add: witnessReceived_def)
  have "b \<noteq> a" if "oget (followingUsers st1) v = Some b" "v \<noteq> user" for v b
  proof
    assume "b = a"
    with that r(2) have "(v, a) \<in> set (followingUsers st1)" "(user, a) \<in> set (followingUsers st1)"
      by (auto dest: map_of_SomeD)
    moreover have "inj_on snd (set (followingUsers st1))"
      using r(1) by (simp add: following_ok_def distinct_map)
    ultimately have "(v, a) = (user, a)" by (intro inj_onD [of snd]) auto
    with that(2) show False by simp
  qed
  then have "\<forall>v b. oget (followingUsers st2) v = Some b \<and> v \<noteq> user \<longrightarrow> objects st2 ! b = objects st1 ! b"
    unfolding st2 writeWitnessToLocal_def by simp (metis nth_list_update_neq)
  with r lt show ?thesis
    by (simp add: st2 writeWitnessToLocal_def oget_oset)
qed

theorem follow_gets_witness_witness:
  "\<exists>e a st1 s1 st2. follow ''me'' ''bob'' None following_init [] = Inr (e, a, st1, s1) \<and>
     witnessReceived a (JStr ''w'') (Some [\<lparr>p_v = JStr ''w'', p_seq = 4, p_time = 0, sig_user = ''bob''\<rparr>]) st1 =
       Inr st2 \<and> oget (objects st2 ! a) ''witness'' = Some (JStr ''w'')"
proof -
  let ?st = "following_init\<lparr>followingUsers := [(''bob'', 0)], objects := [[]],
    isFollowPublic := [(''bob'', JBool True)]\<rparr>"
  have "following_ok ?st" by (simp add: following_ok_def following_init_def)
  from save_following [OF this, of "''me''" "[]"] obtain s1 where
    "saveFollowingToStorage ''me'' ?st [] = Inr s1" by auto
  then have f: "follow ''me'' ''bob'' None following_init [] =
      Inr (getWitnessFromDht ''bob'' @ updateFollowing ''me'' ?st, 0, ?st, s1)"
    by (simp add: follow_def follow_entry_def following_init_def saveFollowing_def Let_def)
  from follow_gets_witness [OF following_ok_init f, of "JStr ''w''"
      "\<lparr>p_v = JStr ''w'', p_seq = 4, p_time = 0, sig_user = ''bob''\<rparr>" "[]"]
  show ?thesis using f by (auto simp: witnessReceived_def)
qed

text \<open>
  C36. The users, the public flags and the sequence number read back from the storage as they were
  saved; an older sequence number in the storage does not replace a newer one in memory.
\<close>

theorem following_save_load:
  assumes "following_ok st" and "me \<noteq> ''''" and "oget s me = None \<or> ns_ok me s"
  shows "\<exists>s' st'. saveFollowingToStorage me st s = Inr s' \<and>
    loadFollowingFromStorage me s' st0 = Inr st' \<and>
    followingUsers_js st' = followingUsers_js st \<and> isFollowPublic st' = isFollowPublic st \<and>
    followingSeqNum st' = max (followingSeqNum st0) (followingSeqNum st)"
proof -
  obtain s' where s': "saveFollowingToStorage me st s = Inr s'" "createNamespace me s' = Inr s'" "ns_ok me s'"
    and rd: "ns_read me s' ''followingUsers'' = followingUsers_js st"
      "ns_read me s' ''isFollowPublic'' = JObj (isFollowPublic st)"
      "ns_read me s' ''followingSeqNum'' = JNum (followingSeqNum st)"
    using save_following [OF assms] by auto
  have "present (followingUsers_js st)" by (simp add: followingUsers_js_def)
  moreover have "load_item me s' ''isFollowPublic'' obj_members (isFollowPublic st0) = isFollowPublic st"
    by (subst load_item_present [OF s'(3) rd(2)]) (simp_all add: obj_members_def)
  moreover have "followingUsers_js (load_users (followingUsers_js st) st0) = followingUsers_js st"
    using load_users_js [of "user_object st" "followingUsers st" st0]
    by (simp add: followingUsers_js_def obj_members_def user_object_def [abs_def])
  moreover have "followingUsers_js (st1\<lparr>isFollowPublic := p, followingSeqNum := n, lastLoadFromDhtTime := t\<rparr>) =
      followingUsers_js st1" for st1 p n t
    by (simp add: followingUsers_js_def user_object_def [abs_def])
  ultimately show ?thesis using s' rd
    by (simp add: loadFollowingFromStorage_def ns_isSet_read Let_def max_def)
qed

theorem following_save_load_witness:
  "\<exists>s' st'. saveFollowingToStorage ''me'' (following_init\<lparr>followingSeqNum := 3\<rparr>) [] = Inr s' \<and>
     loadFollowingFromStorage ''me'' s' following_init = Inr st' \<and> followingSeqNum st' = 3"
  using following_save_load [of "following_init\<lparr>followingSeqNum := 3\<rparr>" "''me''" "[]" following_init]
  by (auto simp: following_ok_def following_init_def)

text \<open>
  The list of users sent to the daemon is always empty: the loop of \<^verbatim>\<open>updateFollowing\<close> tests and
  collects the witness of the key, a string, instead of that of the user's object.
\<close>

theorem updateFollowing_follows_nobody:
  "updateFollowing me st = [Rpc ''follow'' [JStr me, JArr [], JArr []]]"
  by (simp add: updateFollowing_def Let_def)

text \<open>
  The known followers read back within eight days of their reset time; after that they are
  dropped and the reset time is the present, also in the storage.
\<close>

theorem known_followers_expire:
  assumes "user \<noteq> ''''" and "oget loc user = None \<or> ns_ok user loc"
    and "oget ses user = None \<or> ns_ok user ses" and "jsonable (followingsFollowings tf)"
    and "present (followingsFollowings tf)"
  shows "\<exists>l e l'. tf_save user tf loc ses = Inr (l, e) \<and>
    tf_load user nowMs l e tf0 =
      Inr (if nowMs - knownFollowersResetTime tf < 1000 * maxUpdateInterval then tf
           else tf\<lparr>knownFollowers := [], knownFollowersResetTime := nowMs\<rparr>, l') \<and>
    ns_read user l' ''knownFollowersResetTime'' =
      JNum (if nowMs - knownFollowersResetTime tf < 1000 * maxUpdateInterval
            then knownFollowersResetTime tf else nowMs)"
proof -
  let ?kl = "[(''followingsFollowings'', followingsFollowings tf),
    (''knownFollowers'', strings_js (knownFollowers tf)),
    (''knownFollowersResetTime'', JNum (knownFollowersResetTime tf))]"
  let ?ke = "[(''notFollowers'', strings_js (notFollowers tf))]"
  obtain l where l: "rbind (createNamespace user loc) (ns_set_each user ?kl) = Inr l"
    "createNamespace user l = Inr l" "ns_ok user l"
    "\<forall>k v. oget ?kl k = Some v \<longrightarrow> ns_read user l k = v"
    using save_load [OF assms(1,2), of ?kl] assms(4) by auto
  obtain e where e: "rbind (createNamespace user ses) (ns_set_each user ?ke) = Inr e"
    "createNamespace user e = Inr e" "ns_ok user e"
    "\<forall>k v. oget ?ke k = Some v \<longrightarrow> ns_read user e k = v"
    using save_load [OF assms(1,3), of ?ke] by auto
  have "tf_save user tf loc ses = Inr (l, e)"
    using l(1) e(1) unfolding tf_save_def rbind_Inr_iff by (auto simp: rbind_Inr_iff)
  moreover have rl: "ns_read user l ''followingsFollowings'' = followingsFollowings tf"
    "ns_read user l ''knownFollowers'' = strings_js (knownFollowers tf)"
    "ns_read user l ''knownFollowersResetTime'' = JNum (knownFollowersResetTime tf)"
    "ns_read user e ''notFollowers'' = strings_js (notFollowers tf)" using l(4) e(4) by simp_all
  have ld: "load_item user l ''followingsFollowings'' id x = followingsFollowings tf"
    "load_item user l ''knownFollowersResetTime'' int_of_js y = knownFollowersResetTime tf"
    "load_item user e ''notFollowers'' strings_of_js z = notFollowers tf" for x y z
    by (simp_all add: load_item_present [OF l(3) rl(1) assms(5)] load_item_present [OF l(3) rl(3)]
        load_item_present [OF e(3) rl(4)] int_of_js_def)
  let ?w = "ns_write user l ''knownFollowersResetTime'' (JNum nowMs)"
  have "ns_set user l ''knownFollowersResetTime'' (JNum nowMs) = Inr ?w"
    "ns_read user ?w ''knownFollowersResetTime'' = JNum nowMs"
    using ns_write_ok [OF l(3), of "JNum nowMs"] by simp_all
  ultimately show ?thesis using l(2,3) e(2) ld rl
    by (simp add: tf_load_def ns_isSet_read)
qed

theorem known_followers_expire_witness:
  "\<exists>l e l'. tf_save ''bob'' \<lparr>followingsFollowings = JObj [], knownFollowers = [''eve''],
       knownFollowersResetTime = 5, notFollowers = []\<rparr> [] [] = Inr (l, e) \<and>
     tf_load ''bob'' 1005 l e \<lparr>followingsFollowings = JObj [], knownFollowers = [],
       knownFollowersResetTime = 0, notFollowers = []\<rparr> =
       Inr (\<lparr>followingsFollowings = JObj [], knownFollowers = [''eve''],
       knownFollowersResetTime = 5, notFollowers = []\<rparr>, l')"
  using known_followers_expire [of "''bob''" "[]" "[]" "\<lparr>followingsFollowings = JObj [],
      knownFollowers = [''eve''], knownFollowersResetTime = 5, notFollowers = []\<rparr>" 1005
      "\<lparr>followingsFollowings = JObj [], knownFollowers = [], knownFollowersResetTime = 0,
      notFollowers = []\<rparr>"]
  by (auto simp: maxUpdateInterval_def)

section \<open>References stay well-formed\<close>

text \<open>
  The states the script can reach: \<open>P\<close> holds the objects that requests for witnesses still refer to.
  The storage is read when it holds a namespace of the user.
\<close>

inductive following_run :: "nat set \<Rightarrow> following_state \<Rightarrow> bool" where
  start: "following_run {} following_init"
| followed: "following_run P st \<Longrightarrow> follow me user pf st s = Inr (e, a, st', s') \<Longrightarrow> following_run (insert a P) st'"
| witness: "following_run P st \<Longrightarrow> a \<in> P \<Longrightarrow> witnessReceived a w raw st = Inr st' \<Longrightarrow> following_run (P - {a}) st'"
| loaded: "following_run P st \<Longrightarrow> ns_ok me s \<Longrightarrow> me \<noteq> '''' \<Longrightarrow> loadFollowingFromStorage me s st = Inr st' \<Longrightarrow>
    following_run P st'"
| changed: "following_run P st \<Longrightarrow> following_run P (followingChangedUser st)"

definition refs_ok :: "nat set \<Rightarrow> following_state \<Rightarrow> bool" where
  "refs_ok P st \<longleftrightarrow> distinct (okeys (followingUsers st)) \<and> distinct (map snd (followingUsers st)) \<and>
     (\<forall>a \<in> P. a < length (objects st)) \<and> (\<forall>(u, a) \<in> set (followingUsers st). a < length (objects st))"

lemma refs_ok_cong:
  "followingUsers st' = followingUsers st \<Longrightarrow> length (objects st') = length (objects st) \<Longrightarrow> refs_ok P st' = refs_ok P st"
  by (simp add: refs_ok_def)

lemma refs_ok_follow_entry:
  assumes "refs_ok P st" and "follow_entry user st = (a, st1)"
  shows "refs_ok (insert a P) st1"
proof (cases "oget (followingUsers st) user")
  case None
  then have new: "user \<notin> fst ` set (followingUsers st)" by (simp add: map_of_eq_None_iff)
  have "length (objects st) \<notin> snd ` set (followingUsers st)" using assms(1) by (auto simp: refs_ok_def)
  with assms None new show ?thesis
    by (fastforce simp: follow_entry_def refs_ok_def oset_new less_Suc_eq)
next
  case (Some b)
  then have "(user, b) \<in> set (followingUsers st)" by (rule map_of_SomeD)
  with assms Some show ?thesis by (auto simp: follow_entry_def refs_ok_def)
qed

lemma refs_ok_load_users:
  assumes "refs_ok P st" and "distinct (okeys (obj_members v))"
  shows "refs_ok P (load_users v st)"
  using assms by (auto simp: refs_ok_def load_users_def Let_def trans_less_add1 dest: set_zip_rightD)

lemma ns_read_jsonable:
  assumes "ns_ok ns s" shows "ns_read ns s k = JUndef \<or> jsonable (ns_read ns s k)"
proof -
  obtain t m where t: "oget s ns = Some t" "json_parse t = Some (JObj m)" "jsonable (JObj m)"
    using ns_okE [OF assms] by blast
  then have "list_all (\<lambda>(k, v). jsonable v) m" by simp
  then have "jsonable v" if "oget m k = Some v" for v using list_all_oget [OF _ that] by fastforce
  then show ?thesis using ns_get_ok [OF t(1,2), of k] by (auto simp: ns_read_def split: option.splits)
qed

lemma refs_ok_loaded:
  assumes "refs_ok P st" and "ns_ok me s" and "me \<noteq> ''''" and "loadFollowingFromStorage me s st = Inr st'"
  shows "refs_ok P st'"
proof -
  have "createNamespace me s = Inr s" using createNamespace_ok [OF assms(3)] assms(2) by metis
  moreover have "distinct (okeys (obj_members (ns_read me s ''followingUsers'')))"
    using ns_read_jsonable [OF assms(2), of "''followingUsers''"] by (auto simp: obj_members_def split: js.splits)
  then have "refs_ok P (load_users (ns_read me s ''followingUsers'') st)" by (rule refs_ok_load_users [OF assms(1)])
  moreover have "\<exists>st0 \<in> {st, load_users (ns_read me s ''followingUsers'') st}.
      followingUsers st' = followingUsers st0 \<and> length (objects st') = length (objects st0)"
    using calculation(1) assms(4) by (auto simp: loadFollowingFromStorage_def Let_def)
  ultimately show ?thesis using assms(1) refs_ok_cong by blast
qed

lemma follow_keeps_refs:
  assumes "refs_ok P st" and "follow me user pf st s = Inr (e, a, st', s')"
  shows "refs_ok (insert a P) st'"
proof -
  obtain b st1 where f: "follow_entry user st = (b, st1)" by fastforce
  have "refs_ok (insert b P) st1" using refs_ok_follow_entry [OF assms(1) f] .
  moreover have "a = b" "followingUsers st' = followingUsers st1" "objects st' = objects st1"
    using assms(2) f by (auto simp: follow_def Let_def rbind_Inr_iff)
  ultimately show ?thesis using refs_ok_cong by metis
qed



end
