(* ===== verification/Posts.thy ===== *)
theory Posts
  imports Json_Text "HOL-Library.Option_ord"
begin

text \<open>
  Posts and direct messages as the daemon delivers them, in the form the comment at the top of
  \<^verbatim>\<open>postToElem\<close> (\<^verbatim>\<open>twister_formatpost.js\<close>) gives. The members the scripts read are fields; the JSON object
  they were read from is kept beside them, since the scripts store and forward it whole.
\<close>

text \<open>The original post inside a retransmission.\<close>

record rt_post =
  rt_n :: string
  rt_k :: int
  rt_time :: int
  rt_msg :: string
  rt_js :: js

record userpost =
  up_n :: string
  up_k :: int
  up_time :: int
  up_msg :: "string option"
  up_lastk :: "int option"
  up_reply :: "(string \<times> int) option"
  up_rt :: "rt_post option"
  up_sig_rt :: js
  up_js :: js

record post =
  userpost_of :: userpost
  sig_userpost :: js
  post_js :: js

text \<open>An element of a \<^verbatim>\<open>getdirectmsgs\<close> answer.\<close>

record dm_data =
  dm_id :: int
  dm_time :: int
  dm_text :: string
  dm_fromMe :: bool

section \<open>Lists shown in the order of their times\<close>

text \<open>
  Three scripts insert an item before the first item that has no time or an earlier one. The search
  is the same, what happens when there is no such item is not: \<open>insert_before\<close> returns \<open>None\<close> then. An
  item without a time counts as earlier than all others, as in the order of \<open>int option\<close>.
\<close>

fun insert_before :: "('a \<Rightarrow> int option) \<Rightarrow> int \<Rightarrow> 'a \<Rightarrow> 'a list \<Rightarrow> 'a list option" where
  "insert_before tm t x [] = None"
| "insert_before tm t x (y # ys) =
     (case tm y of
        None \<Rightarrow> Some (x # y # ys)
      | Some u \<Rightarrow> if t > u then Some (x # y # ys)
                  else map_option ((#) y) (insert_before tm t x ys))"

text \<open>Latest first.\<close>

definition by_time :: "('a \<Rightarrow> int option) \<Rightarrow> 'a list \<Rightarrow> bool" where
  "by_time tm xs = sorted_wrt (\<lambda>x y. tm y \<le> tm x) xs"

lemma by_time_simps [simp]:
  "by_time tm []" "by_time tm (x # xs) \<longleftrightarrow> (\<forall>y \<in> set xs. tm y \<le> tm x) \<and> by_time tm xs"
  by (simp_all add: by_time_def)

lemma insert_before_Cons:
  "insert_before tm t x (y # ys) =
     (if tm y < Some t then Some (x # y # ys) else map_option ((#) y) (insert_before tm t x ys))"
  by (simp split: option.split)

lemma insert_before_some:
  assumes "tm x = Some t" and "insert_before tm t x ys = Some zs"
  shows "mset zs = add_mset x (mset ys) \<and> (by_time tm ys \<longrightarrow> by_time tm zs)"
  using assms(2)
proof (induction ys arbitrary: zs)
  case (Cons y ys)
  show ?case
  proof (cases "tm y < tm x")
    case True
    with Cons.prems assms(1) have "zs = x # y # ys"
      by (simp add: insert_before_Cons del: insert_before.simps)
    with True show ?thesis by (auto dest: less_imp_le order_trans)
  next
    case False
    with Cons.prems assms(1) obtain zs' where zs: "zs = y # zs'" "insert_before tm t x ys = Some zs'"
      by (auto simp: insert_before_Cons simp del: insert_before.simps)
    then have "set zs' = insert x (set ys)"
      using Cons.IH by (metis set_mset_add_mset_insert set_mset_mset)
    with Cons.IH [OF zs(2)] False zs show ?thesis by (auto simp: not_less)
  qed
qed simp

lemma insert_before_none:
  "insert_before tm t x ys = None \<longleftrightarrow> (\<forall>y \<in> set ys. Some t \<le> tm y)"
  by (induction ys) (auto simp: insert_before_Cons not_less simp del: insert_before.simps(2))

lemma by_time_append:
  "by_time tm ys \<Longrightarrow> \<forall>y \<in> set ys. tm x \<le> tm y \<Longrightarrow> by_time tm (ys @ [x])"
  by (induction ys) auto

text \<open>
  A list on the page that is kept in time order: inserting an item that has a time keeps the order and
  adds exactly that item, or does not show it.
\<close>

locale timed_list =
  fixes tm :: "'a \<Rightarrow> int option" and ins :: "'a \<Rightarrow> 'a list \<Rightarrow> 'a list \<times> bool"
  assumes ins_sorted: "tm x \<noteq> None \<Longrightarrow> by_time tm ys \<Longrightarrow> by_time tm (fst (ins x ys))"
    and ins_shown: "tm x \<noteq> None \<Longrightarrow>
      mset (fst (ins x ys)) = (if snd (ins x ys) then add_mset x (mset ys) else mset ys)"
begin

lemma inserts_sorted:
  "list_all (\<lambda>x. tm x \<noteq> None) xs \<Longrightarrow> by_time tm ys \<Longrightarrow>
   by_time tm (fold (\<lambda>x ys. fst (ins x ys)) xs ys)"
  by (induction xs arbitrary: ys) (auto simp: ins_sorted)

lemma inserts_mset:
  "(\<And>x ys. snd (ins x ys)) \<Longrightarrow> list_all (\<lambda>x. tm x \<noteq> None) xs \<Longrightarrow>
   mset (fold (\<lambda>x ys. fst (ins x ys)) xs ys) = mset xs + mset ys"
  by (induction xs arbitrary: ys) (auto simp: ins_shown)

end

text \<open>Insert, else append: what the direct-message list and the hashtag page do.\<close>

definition insert_or_append :: "('a \<Rightarrow> int option) \<Rightarrow> 'a \<Rightarrow> 'a list \<Rightarrow> 'a list \<times> bool" where
  "insert_or_append tm x ys = (case insert_before tm (the (tm x)) x ys of
     Some zs \<Rightarrow> (zs, True) | None \<Rightarrow> (ys @ [x], True))"

interpretation appended: timed_list tm "insert_or_append tm" for tm
proof
  fix x :: 'a and ys
  assume "tm x \<noteq> None"
  then have t: "tm x = Some (the (tm x))" by auto
  show "by_time tm (fst (insert_or_append tm x ys))" if "by_time tm ys"
  proof (cases "insert_before tm (the (tm x)) x ys")
    case None
    with that show ?thesis
      using insert_before_none [of tm "the (tm x)" x ys] by_time_append [of tm ys x]
      by (simp add: insert_or_append_def t [symmetric])
  next
    case (Some zs)
    with that show ?thesis using insert_before_some [OF t Some] by (simp add: insert_or_append_def)
  qed
  show "mset (fst (insert_or_append tm x ys)) =
      (if snd (insert_or_append tm x ys) then add_mset x (mset ys) else mset ys)"
  proof (cases "insert_before tm (the (tm x)) x ys")
    case None
    then show ?thesis by (simp add: insert_or_append_def)
  next
    case (Some zs)
    then show ?thesis using insert_before_some [OF t Some] by (simp add: insert_or_append_def)
  qed
qed

lemma insert_or_append_shown [simp]: "snd (insert_or_append tm x ys)"
  by (simp add: insert_or_append_def split: option.split)

end
