(* ===== verification/Twister_User.thy ===== *)
theory Twister_User
  imports Mobile_Abstract Twister_Rpc
begin

text \<open>
  \<^verbatim>\<open>twister_user.js\<close>: the current user, the id of the last post, the login page and the profile page.
  The values of the input fields are arguments. \<open>t\<close> is \<^verbatim>\<open>polyglot.t\<close>.
\<close>

section \<open>State\<close>

text \<open>\<^verbatim>\<open>lastPostId\<close>: incrementing \<^verbatim>\<open>undefined\<close> gives \<^verbatim>\<open>NaN\<close>.\<close>

datatype post_id = NoId | NaNId | Id int

record user_state =
  defaultScreenName :: js
  localUsernames :: "string list"
  lastPostId :: post_id
  avatarSeqNum :: int
  profileSeqNum :: int

definition user_init :: user_state where
  "user_init = \<lparr>defaultScreenName = JUndef, localUsernames = [], lastPostId = NoId, avatarSeqNum = 0,
     profileSeqNum = 0\<rparr>"

section \<open>Post ids\<close>

definition bumpPostId :: "int option \<Rightarrow> post_id \<Rightarrow> post_id" where
  "bumpPostId optionalNewValue p = (case optionalNewValue of
     Some v \<Rightarrow> (case p of NoId \<Rightarrow> Id v | NaNId \<Rightarrow> NaNId | Id n \<Rightarrow> if v > n then Id v else Id n)
   | None \<Rightarrow> (case p of NoId \<Rightarrow> NaNId | NaNId \<Rightarrow> NaNId | Id n \<Rightarrow> Id (n + 1)))"

definition incLastPostId :: "bool \<Rightarrow> int option \<Rightarrow> user_state \<Rightarrow> effs \<times> user_state" where
  "incLastPostId mobile optionalNewValue st =
     (let p = bumpPostId optionalNewValue (lastPostId st)
      in (case p of
            Id n \<Rightarrow> updateMyOwnPostCount mobile (n + 1)
          | _ \<Rightarrow> if mobile then updateMyOwnPostCount mobile 0
                 else [Dom ''.mini-profile .posts-count'' ''text'' [JStr ''NaN'']],
          st\<lparr>lastPostId := p\<rparr>))"

section \<open>The current user\<close>

definition loadWalletlUsers :: effs where
  "loadWalletlUsers = [Rpc ''listwalletusers'' []]"

definition loadScreenName :: "store \<Rightarrow> user_state \<Rightarrow> user_state" where
  "loadScreenName s st =
     (if storage_isSet s ''defaultScreenName''
      then st\<lparr>defaultScreenName := storage_get s ''defaultScreenName''\<rparr> else st)"

definition saveScreenName :: "user_state \<Rightarrow> store \<Rightarrow> store" where
  "saveScreenName st s = storage_set s ''defaultScreenName'' (defaultScreenName st)"

text \<open>
  What is on the page when the wallet users arrive: the values of the options of the user list (if
  there is one), and whether there are a login list and a user menu.
\<close>

record user_page =
  pg_options :: "string list option"
  pg_login :: bool
  pg_menu :: bool

definition addUserOptions :: "string list \<Rightarrow> string list \<Rightarrow> effs" where
  "addUserOptions names options =
     fst (fold (\<lambda>n (es, os). if n \<in> set os then (es, os)
        else (es @ [Dom ''select.local-usernames'' ''append'' [JStr n]], os @ [n])) names ([], options))"

text \<open>The callback of \<^verbatim>\<open>initUser\<close>, and the handlers of \<^verbatim>\<open>loadWalletlUsers\<close> around it.\<close>

definition userLoaded :: "user_page \<Rightarrow> store \<Rightarrow> (string \<times> js) option \<Rightarrow> user_state \<Rightarrow> effs \<times> user_state" where
  "userLoaded pg s cb st =
     (let opts = (case pg_options pg of None \<Rightarrow> [] | Some os \<Rightarrow> addUserOptions (localUsernames st) os);
          st1 = loadScreenName s st;
          ok = (truthy (defaultScreenName st1) \<and> defaultScreenName st1 \<in> JStr ` set (localUsernames st1));
          name = js_string (defaultScreenName st1);
          ui = (if \<not> ok then []
                else (if pg_login pg
                      then [Dom ''select.local-usernames.login-user'' ''val'' [defaultScreenName st1]] else []) @
                     (if pg_menu pg
                      then [Dom ''.userMenu-config a.mini-profile-name'' ''attr'' [JStr ''href'', JStr (userUrl name)],
                            Dom ''.userMenu-config .mini-profile-name'' ''text'' [defaultScreenName st1],
                            Call ''getFullname'' [defaultScreenName st1]] else []))
      in (opts @ ui @ (case cb of None \<Rightarrow> [] | Some (f, a) \<Rightarrow> [Call f [a]]),
          st1\<lparr>defaultScreenName := (if ok then defaultScreenName st1 else JUndef), lastPostId := NoId\<rparr>))"

definition walletUsersReceived :: "(string \<Rightarrow> string) \<Rightarrow> user_page \<Rightarrow> store \<Rightarrow> (string \<times> js) option \<Rightarrow>
    string list + js \<Rightarrow> user_state \<Rightarrow> effs \<times> user_state" where
  "walletUsersReceived t pg s cb r st = (case r of
     Inl names \<Rightarrow> userLoaded pg s cb (st\<lparr>localUsernames := names\<rparr>)
   | Inr _ \<Rightarrow> ([Alert (t ''error_connecting_to_daemon'')], st))"

section \<open>Login page\<close>

definition loginAs :: "bool \<Rightarrow> js \<Rightarrow> user_state \<Rightarrow> store \<Rightarrow> effs \<times> user_state \<times> store" where
  "loginAs mobile name st s =
     (let st' = st\<lparr>defaultScreenName := name\<rparr>
      in (changedUser mobile @ goHome mobile, st', saveScreenName st' s))"

text \<open>\<open>v\<close> is the value of the login list, \<^verbatim>\<open>null\<close> when it is empty.\<close>

definition loginLocalUsername :: "bool \<Rightarrow> js \<Rightarrow> user_state \<Rightarrow> store \<Rightarrow> effs \<times> user_state \<times> store" where
  "loginLocalUsername mobile v st s =
     (if truthy v then loginAs mobile v st s else ([], st\<lparr>defaultScreenName := v\<rparr>, s))"

text \<open>\<^verbatim>\<open>toLowerCase\<close> for the first 256 characters.\<close>

definition to_lower :: "char \<Rightarrow> char" where
  "to_lower c = (let n = of_char c :: nat in
     if 65 \<le> n \<and> n \<le> 90 \<or> 192 \<le> n \<and> n \<le> 222 \<and> n \<noteq> 215 then char_of (n + 32) else c)"

definition toLowerCase :: "string \<Rightarrow> string" where
  "toLowerCase s = map to_lower s"

definition username_char :: "char \<Rightarrow> bool" where
  "username_char c = (let n = of_char c :: nat in
     97 \<le> n \<and> n \<le> 122 \<or> 48 \<le> n \<and> n \<le> 57 \<or> c = CHR ''_'')"

abbreviation avail :: "string \<Rightarrow> eff" where
  "avail msg \<equiv> Dom ''.availability'' ''text'' [JStr msg]"

definition checkUsernameAvailability :: "(string \<Rightarrow> string) \<Rightarrow> string \<Rightarrow> effs" where
  "checkUsernameAvailability t field =
     (let username = toLowerCase field;
          shown = Dom ''.new-username'' ''val'' [JStr username]
      in if username = [] then [shown]
         else if length username > 16 then [shown, avail (t ''Must be 16 characters or less.'')]
         else if \<not> list_all username_char username
         then [shown, avail (t ''Only alphanumeric and underscore allowed.'')]
         else [shown, avail (t ''Checking...'')] @ dumpPubkey username)"

definition pubkeyReceived :: "(string \<Rightarrow> string) \<Rightarrow> bool \<Rightarrow> string \<Rightarrow> effs" where
  "pubkeyReceived t mobile pubkey =
     (if length pubkey > 0 then [avail (t ''Not available'')]
      else avail (t ''Available'') # enableButton mobile ''.create-user'')"

definition newUserNameKeypress :: "bool \<Rightarrow> effs" where
  "newUserNameKeypress mobile = avail '''' # disableButton mobile ''.create-user''"

definition createUserClick :: "string \<Rightarrow> user_state \<Rightarrow> effs" where
  "createUserClick field st =
     (let username = toLowerCase field
      in if username \<notin> set (localUsernames st) then [Rpc ''createwalletuser'' [JStr username]]
         else dumpPrivkey username)"

definition createUser_reply :: "(string \<Rightarrow> string) \<Rightarrow> string \<Rightarrow> string \<Rightarrow> rpc_reply \<Rightarrow> effs" where
  "createUser_reply t cbFunc username r = (case r of
     ResultFunc ret \<Rightarrow> [Call cbFunc [JStr username, ret]]
   | ErrorFunc _ \<Rightarrow> [Alert (t ''Error in 'createwalletuser' RPC.'')])"

definition sendNewUserTransaction :: "string \<Rightarrow> effs" where
  "sendNewUserTransaction username = [Rpc ''sendnewusertransaction'' [JStr username]]"

definition sendNewUser_reply :: "(string \<Rightarrow> string) \<Rightarrow> string \<Rightarrow> rpc_reply \<Rightarrow> effs" where
  "sendNewUser_reply t cbFunc r = (case r of
     ResultFunc _ \<Rightarrow> [Call cbFunc []]
   | ErrorFunc _ \<Rightarrow> [Alert (t ''Error in 'sendnewusertransaction' RPC.'')])"

definition importSecretKeypress :: "bool \<Rightarrow> string \<Rightarrow> string \<Rightarrow> effs" where
  "importSecretKeypress mobile secretKey username =
     (if length secretKey = 52 \<and> length (toLowerCase username) > 0
      then enableButton mobile ''.import-secret-key'' else disableButton mobile ''.import-secret-key'')"

definition importSecretKeyClick :: "string \<Rightarrow> string \<Rightarrow> effs" where
  "importSecretKeyClick secretKey username =
     [Rpc ''importprivkey'' [JStr secretKey, JStr (toLowerCase username)]]"

definition processNewSecretKeyImported :: "bool \<Rightarrow> string \<Rightarrow> user_state \<Rightarrow> store \<Rightarrow>
    effs \<times> user_state \<times> store" where
  "processNewSecretKeyImported mobile username st s = loginAs mobile (JStr username) st s"

text \<open>\<open>tv\<close> is \<^verbatim>\<open>polyglot.t\<close> with interpolated values.\<close>

definition importSecretKey_reply :: "(string \<Rightarrow> js \<Rightarrow> string) \<Rightarrow> bool \<Rightarrow> string \<Rightarrow> rpc_reply \<Rightarrow>
    user_state \<Rightarrow> store \<Rightarrow> (effs \<times> user_state \<times> store) result" where
  "importSecretKey_reply tv mobile username r st s = (case r of
     ResultFunc _ \<Rightarrow> Inr (processNewSecretKeyImported mobile username st s)
   | ErrorFunc ret \<Rightarrow> rbind (js_prop ret ''message'') (\<lambda>m.
       Inr ([Alert (tv (''Error in 'importprivkey'' @ [CHR 0x27]) (JObj [(''rpc'', m)]))], st, s)))"

definition interfaceCommonLoginHandlers :: effs where
  "interfaceCommonLoginHandlers =
     [Dom ''.login-local-username'' ''bind'' [JStr ''click'', JStr ''loginLocalUsername''],
      Dom ''.check-availability'' ''bind'' [JStr ''click'', JStr ''checkUsernameAvailability''],
      Dom ''.new-username'' ''keyup'' [JStr ''newUserNameKeypress''],
      Dom ''.secret-key-import'' ''keyup'' [JStr ''importSecretKeypress''],
      Dom ''.username-import'' ''keyup'' [JStr ''importSecretKeypress''],
      Dom ''.import-secret-key'' ''bind'' [JStr ''click'', JStr ''importSecretKeyClick'']]"

section \<open>Profile page\<close>

definition loadForEdit :: "js \<Rightarrow> string \<Rightarrow> effs" where
  "loadForEdit me resource = [Call ''dhtget'' [me, JStr resource, JStr ''s'']]"

text \<open>The sequence number of a raw answer; the request machinery never passes an empty one.\<close>

definition raw_seq :: "dht_item list option \<Rightarrow> int \<Rightarrow> int" where
  "raw_seq raw old = (case raw of Some (x # _) \<Rightarrow> if p_seq x > old then p_seq x else old | _ \<Rightarrow> old)"

text \<open>\<^verbatim>\<open>imagedata && imagedata.length\<close>: a non-empty string.\<close>

definition avatarForEdit :: "js \<Rightarrow> dht_item list option \<Rightarrow> user_state \<Rightarrow> effs \<times> user_state" where
  "avatarForEdit imagedata raw st =
     ((case imagedata of
         JStr (c # cs) \<Rightarrow> [Dom ''.profile-card-photo.forEdition'' ''attr'' [JStr ''src'', imagedata]]
       | _ \<Rightarrow> []),
      st\<lparr>avatarSeqNum := raw_seq raw (avatarSeqNum st)\<rparr>)"

definition profile_fields :: "(string \<times> string) list" where
  "profile_fields = [(''fullname'', ''.input-name''), (''bio'', ''.input-description''),
     (''location'', ''.input-city''), (''url'', ''.input-website''), (''tox'', ''.input-tox''),
     (''bitmessage'', ''.input-bitmessage'')]"

definition profileForEdit :: "js obj option \<Rightarrow> dht_item list option \<Rightarrow> user_state \<Rightarrow> effs \<times> user_state" where
  "profileForEdit profile raw st =
     ((case profile of
         None \<Rightarrow> []
       | Some p \<Rightarrow> concat (map (\<lambda>(k, sel). case oget p k of
             None \<Rightarrow> [] | Some v \<Rightarrow> [Dom sel ''val'' [v]]) profile_fields)),
      st\<lparr>profileSeqNum := raw_seq raw (profileSeqNum st)\<rparr>)"

text \<open>\<open>field\<close> gives the value of an input; \<open>avatar\<close> is the source of the picture.\<close>

definition profile_of_fields :: "(string \<Rightarrow> string) \<Rightarrow> js obj" where
  "profile_of_fields field =
     [(''fullname'', JStr (field ''.input-name'')), (''bio'', JStr (field ''.input-description'')),
      (''location'', JStr (field ''.input-city'')), (''url'', JStr (field ''.input-website''))] @
     (if field ''.input-tox'' \<noteq> [] then [(''tox'', JStr (field ''.input-tox''))] else []) @
     (if field ''.input-bitmessage'' \<noteq> [] then [(''bitmessage'', JStr (field ''.input-bitmessage''))] else [])"

definition saveProfile :: "(string \<Rightarrow> string) \<Rightarrow> js \<Rightarrow> user_state \<Rightarrow> effs \<times> user_state" where
  "saveProfile field avatar st =
     (let me = js_string (defaultScreenName st);
          p = profileSeqNum st + 1;
          a = avatarSeqNum st + 1
      in (dhtput me ''profile'' ''s'' (JObj (profile_of_fields field)) me p @
          dhtput me ''avatar'' ''s'' avatar me a @ [Call ''clearAvatarAndProfileCache'' [defaultScreenName st]],
          st\<lparr>profileSeqNum := p, avatarSeqNum := a\<rparr>))"

section \<open>Lemmas\<close>

lemma username_char_facts:
  assumes "username_char c"
  shows "\<not> is_ws c" and "c \<noteq> CHR 0x22" and "c \<noteq> CHR '';''" and "c \<noteq> CHR ''[''" and "c \<noteq> CHR ''{''"
  using assms by (auto simp: username_char_def is_ws_def)

text \<open>Text without quotes and brackets never parses as a string, an array or an object.\<close>

lemma json_parse_name:
  assumes "list_all username_char u" and "json_parse u = Some v"
  shows "\<nexists>w. v = JStr w"
proof -
  obtain r where p: "parse_value (Suc (length u)) u = Some (v, r)"
    using assms(2) by (auto simp: json_parse_def split: option.splits prod.splits if_splits
        simp del: parse_value.simps)
  show ?thesis
  proof (cases u)
    case Nil
    with p show ?thesis by (simp add: skip_ws_def)
  next
    case (Cons c cs)
    with assms(1) have "username_char c" by simp
    note f = username_char_facts [OF this]
    with p Cons show ?thesis
      by (auto simp: parse_int_def Let_def split: if_splits)
  qed
qed

lemma storage_get_text:
  "storage_get (storage_set s k (JStr u)) k = (case json_parse u of Some v \<Rightarrow> v | None \<Rightarrow> JStr u)"
  by (simp add: storage_get_def storage_set_def typeof_object_def parse_item_def oget_oset
      split: option.split)

lemma fold_profileSeqNum:
  "profileSeqNum (fold (\<lambda>raw s. snd (profileForEdit None raw s)) raws st) = fold raw_seq raws (profileSeqNum st)"
  by (induction raws arbitrary: st) (simp_all add: profileForEdit_def)

lemma raw_seq_mono: "old \<le> raw_seq raw old"
  by (simp add: raw_seq_def split: option.split list.split)

lemma fold_raw_seq_mono: "old \<le> fold raw_seq raws old"
proof (induction raws arbitrary: old)
  case (Cons r raws)
  then show ?case using raw_seq_mono [of old r] by (simp add: order_trans)
qed simp

lemma fold_raw_seq_bound: "Some (x # xs) \<in> set raws \<Longrightarrow> p_seq x \<le> fold raw_seq raws old"
proof (induction raws arbitrary: old)
  case (Cons r raws)
  show ?case
  proof (cases "r = Some (x # xs)")
    case True
    have "p_seq x \<le> raw_seq r old" by (simp add: True raw_seq_def)
    then show ?thesis using fold_raw_seq_mono [of "raw_seq r old" raws] by simp
  qed (use Cons in simp)
qed simp

section \<open>Properties\<close>

text \<open>
  The user who logged in is the current user again when a page is loaded and the wallet still has
  the name, if the name is not JSON text. A name of digits without a leading zero, \<^verbatim>\<open>true\<close>, \<^verbatim>\<open>false\<close> or
  \<^verbatim>\<open>null\<close> reads back from the storage as another type and the user is logged out.
\<close>

theorem login_restored:
  assumes "u \<noteq> ''''" and "list_all username_char u" and "u \<in> set wallet"
  shows "defaultScreenName (snd (walletUsersReceived t pg (snd (snd (loginLocalUsername mobile (JStr u) st s)))
      cb (Inl wallet) user_init)) = (if json_parse u = None then JStr u else JUndef)"
proof -
  let ?s = "storage_set s ''defaultScreenName'' (JStr u)"
  have s: "snd (snd (loginLocalUsername mobile (JStr u) st s)) = ?s"
    using assms(1) by (simp add: loginLocalUsername_def loginAs_def saveScreenName_def Let_def)
  show ?thesis
  proof (cases "json_parse u")
    case None
    then show ?thesis using assms unfolding s
      by (simp add: walletUsersReceived_def userLoaded_def loadScreenName_def storage_isSet_def
          storage_get_text present_def Let_def)
  next
    case (Some v)
    with json_parse_name [OF assms(2)] have "v \<notin> JStr ` set wallet" by auto
    with Some show ?thesis unfolding s
      by (simp add: walletUsersReceived_def userLoaded_def loadScreenName_def storage_isSet_def
          storage_get_text Let_def user_init_def)
  qed
qed

theorem login_restored_witness:
  "defaultScreenName (snd (walletUsersReceived id \<lparr>pg_options = None, pg_login = False, pg_menu = False\<rparr>
      (snd (snd (loginLocalUsername False (JStr ''bob'') user_init []))) None (Inl [''bob'']) user_init)) =
     JStr ''bob'' \<and>
   defaultScreenName (snd (walletUsersReceived id \<lparr>pg_options = None, pg_login = False, pg_menu = False\<rparr>
      (snd (snd (loginLocalUsername False (JStr ''2013'') user_init []))) None (Inl [''2013'']) user_init)) =
     JUndef"
proof -
  have "json_parse ''bob'' = None" "json_parse ''2013'' = Some (JNum 2013)"
    "list_all username_char ''bob''" "list_all username_char ''2013''" by code_simp+
  then show ?thesis
    using login_restored [of "''bob''" "[''bob'']"] login_restored [of "''2013''" "[''2013'']"]
    by auto
qed

text \<open>
  The availability of a user name is asked for exactly when the name, in lower case, has between 1
  and 16 characters, all of them letters, digits or underscores.
\<close>

theorem availability_check:
  "(\<exists>ps. Rpc ''dumppubkey'' ps \<in> set (checkUsernameAvailability t field)) \<longleftrightarrow>
     (let u = toLowerCase field in u \<noteq> [] \<and> length u \<le> 16 \<and> list_all username_char u)"
  by (auto simp: checkUsernameAvailability_def Let_def dumpPubkey_def)

text \<open>
  Saving the profile publishes both resources with sequence numbers above every number received
  before, whatever order the answers came in.
\<close>

theorem saveProfile_supersedes:
  assumes "st = fold (\<lambda>raw s. snd (profileForEdit None raw s)) raws st0"
    and "Some (x # xs) \<in> set raws"
  shows "p_seq x < profileSeqNum (snd (saveProfile field avatar st)) \<and>
    hd (fst (saveProfile field avatar st)) = Rpc ''dhtput'' [JStr (js_string (defaultScreenName st)),
      JStr ''profile'', JStr ''s'', JObj (profile_of_fields field), JStr (js_string (defaultScreenName st)),
      JNum (profileSeqNum (snd (saveProfile field avatar st)))]"
proof -
  have "profileSeqNum st = fold raw_seq raws (profileSeqNum st0)"
    unfolding assms(1) by (rule fold_profileSeqNum)
  with fold_raw_seq_bound [OF assms(2)] have "p_seq x \<le> profileSeqNum st" by simp
  then show ?thesis by (simp add: saveProfile_def Let_def dhtput_def)
qed

theorem saveProfile_supersedes_witness:
  "7 < profileSeqNum (snd (saveProfile (\<lambda>_. []) JNull (snd (profileForEdit None
     (Some [\<lparr>p_v = JNull, p_seq = 7, p_time = 0, sig_user = []\<rparr>]) user_init))))"
  using saveProfile_supersedes [OF refl, of "\<lparr>p_v = JNull, p_seq = 7, p_time = 0, sig_user = []\<rparr>" "[]"
      "[Some [\<lparr>p_v = JNull, p_seq = 7, p_time = 0, sig_user = []\<rparr>]]" "\<lambda>_. []" JNull user_init]
  by simp

end
