(* ===== verification/Format_Post.thy ===== *)
theory Format_Post
  imports Posts Twister_User
begin

text \<open>
  \<^verbatim>\<open>twister_formatpost.js\<close>: posts and direct messages as page elements. The output of \<^verbatim>\<open>htmlFormatMsg\<close> is
  the list of what it appends (\<open>seg\<close>): HTML text, links and the counter of a split post. The regular
  expression it searches with is a definition of its own (\<open>reAll\<close>): leftmost match, alternatives in
  their order. The two functions that show a time are parameters.
\<close>

section \<open>Pieces of a message\<close>

text \<open>
  \<^verbatim>\<open>Html s\<close> is a string given to \<^verbatim>\<open>append\<close>, which the browser reads as HTML; the texts of the links
  and of the counter are set with \<^verbatim>\<open>text()\<close>, which it does not.
\<close>

datatype seg =
    Html string
  | UserLink string
  | ExtLink "string option" string
  | MailLink string
  | HashLink string string
  | SplitCounter string

definition escapeHtmlEntities :: "string \<Rightarrow> string" where
  "escapeHtmlEntities str =
     replace_first [CHR 0x27] ''&apos;'' (replace_first [CHR 0x22] ''&quot;'' (replace_first ''>'' ''&gt;''
       (replace_first ''<'' ''&lt;'' (replace_first ''&'' ''&amp;'' str))))"

text \<open>\<^verbatim>\<open>msg.replace(/\n/g, '<br />')\<close> when the option is enabled.\<close>

definition formatText :: "store \<Rightarrow> string \<Rightarrow> string" where
  "formatText s msg =
     (if getLineFeedsOpt s = JStr ''enable''
      then concat (map (\<lambda>c. if c = CHR 0x0A then ''<br />'' else [c]) msg) else msg)"

definition extract_char :: "char \<Rightarrow> bool" where
  "extract_char c = (let n = of_char c :: nat in
     97 \<le> n \<and> n \<le> 122 \<or> 65 \<le> n \<and> n \<le> 90 \<or> 48 \<le> n \<and> n \<le> 57 \<or> c = CHR ''_'')"

definition extractUsername :: "string \<Rightarrow> string" where
  "extractUsername s = toLowerCase (takeWhile extract_char s)"

definition is_sep :: "char \<Rightarrow> bool" where
  "is_sep c = (c \<in> set [CHR '' '', CHR 0x0A, CHR 0x09, CHR ''.'', CHR '','', CHR '':'', CHR ''/'',
     CHR ''?'', CHR ''!''])"

definition extractHashtag :: "string \<Rightarrow> string" where
  "extractHashtag s = takeWhile (\<lambda>c. \<not> is_sep c) s"

section \<open>The search\<close>

text \<open>\<^verbatim>\<open>\s\<close> among the first 256 characters.\<close>

definition re_space :: "char \<Rightarrow> bool" where
  "re_space c = (of_char c \<in> {9 :: nat, 10, 11, 12, 13, 32, 160})"

definition has_prefix :: "string \<Rightarrow> string \<Rightarrow> bool" where
  "has_prefix p s = (take (length p) s = p)"

text \<open>\<^verbatim>\<open>\S+@\S+\.\S+\<close> on a run without white space: it takes the whole run.\<close>

definition dot_inside :: "string \<Rightarrow> bool" where
  "dot_inside s = list_ex (\<lambda>j. s ! j = CHR ''.'') [1..<length s - 1]"

definition email_like :: "string \<Rightarrow> bool" where
  "email_like s = list_ex (\<lambda>i. s ! i = CHR ''@'' \<and> dot_inside (drop (Suc i) s)) [1..<length s]"

text \<open>\<^verbatim>\<open>\(\d{1,2}\/\d{1,2}\)$\<close> at the start of \<open>s\<close>, which must end with it.\<close>

definition split_counter :: "string \<Rightarrow> bool" where
  "split_counter s =
     (let a = takeWhile is_digit (tl s); r = dropWhile is_digit (tl s);
          b = takeWhile is_digit (tl r); q = dropWhile is_digit (tl r)
      in s \<noteq> [] \<and> hd s = CHR ''('' \<and> length a \<in> {1, 2} \<and> r \<noteq> [] \<and> hd r = CHR ''/'' \<and>
         length b \<in> {1, 2} \<and> q = '')'')"

text \<open>The group of \<^verbatim>\<open>reAll\<close> at the start of \<open>s\<close>: the text it matches.\<close>

definition match_group :: "string \<Rightarrow> string option" where
  "match_group s =
     (let run = takeWhile (\<lambda>c. \<not> re_space c) s
      in if has_prefix ''#'' s then Some ''#''
         else if has_prefix ''@'' s then Some ''@''
         else if has_prefix ''http://'' s then Some ''http://''
         else if has_prefix ''https://'' s then Some ''https://''
         else if email_like run then Some run
         else if split_counter s then Some s
         else None)"

text \<open>The group may start at the beginning of the message or after a separator.\<close>

fun scan_group :: "nat \<Rightarrow> string \<Rightarrow> (nat \<times> string) option" where
  "scan_group i [] = None"
| "scan_group i (c # cs) =
     (case (if is_sep c then match_group cs else None) of
        Some m \<Rightarrow> Some (Suc i, m)
      | None \<Rightarrow> scan_group (Suc i) cs)"

definition reAll :: "string \<Rightarrow> (nat \<times> string) option" where
  "reAll msg = (case match_group msg of Some m \<Rightarrow> Some (0, m) | None \<Rightarrow> scan_group 0 msg)"

definition reHttp :: "string \<Rightarrow> bool" where
  "reHttp s = (js_indexOf s ''http://'' \<noteq> None \<or> js_indexOf s ''https://'' \<noteq> None)"

text \<open>\<^verbatim>\<open>reSplitCounter\<close> may match anywhere in its argument, up to the end.\<close>

definition reSplitCounter :: "string \<Rightarrow> bool" where
  "reSplitCounter s = list_ex (\<lambda>i. split_counter (drop i s)) [0..<length s]"

section \<open>Formatting\<close>

text \<open>Up to a blank, a line feed or a tab.\<close>

definition word_of :: "string \<Rightarrow> string" where
  "word_of s = takeWhile (\<lambda>c. c \<noteq> CHR '' '' \<and> c \<noteq> CHR 0x0A \<and> c \<noteq> CHR 0x09) s"

definition after_char :: "char \<Rightarrow> string \<Rightarrow> string" where
  "after_char c s = (case js_indexOf s [c] of Some i \<Rightarrow> drop (Suc i) s | None \<Rightarrow> s)"

definition before_char :: "char \<Rightarrow> string \<Rightarrow> string" where
  "before_char c s = (case js_indexOf s [c] of Some i \<Rightarrow> take i s | None \<Rightarrow> [])"

definition link_href :: "store \<Rightarrow> string \<Rightarrow> string option" where
  "link_href s url =
     (if getUseProxyOpt s \<noteq> JStr ''disable'' \<and> \<not> truthy (getUseProxyForImgOnlyOpt s)
      then if getUseProxyOpt s = JStr ''ssl-proxy-my-addr''
           then Some (''https://ssl-proxy.my-addr.org/myaddrproxy.php/'' @ before_char (CHR '':'') url @
                  after_char (CHR ''/'') url)
           else if getUseProxyOpt s = JStr ''anonymouse''
           then Some (''http://anonymouse.org/cgi-bin/anon-www.cgi/'' @ url)
           else None
      else Some url)"

definition hashtag_lc :: "string \<Rightarrow> string" where
  "hashtag_lc h = map (\<lambda>c. if CHR ''A'' \<le> c \<and> c \<le> CHR ''Z'' then to_lower c else c) h"

text \<open>
  One round of the loop for a match at \<open>index\<close> with the text \<open>m\<close>: what is appended, the user mentioned,
  and the rest of the message.
\<close>

definition formatMatch :: "store \<Rightarrow> string \<Rightarrow> nat \<Rightarrow> string \<Rightarrow> seg list \<times> string option \<times> string" where
  "formatMatch s msg index m =
     (let pre = Html (formatText s (take index msg));
          tmp = drop index msg;
          tmp1 = drop (Suc index) msg;
          username = extractUsername tmp1;
          word = word_of tmp;
          hashtag = extractHashtag tmp1
      in if m = ''@''
         then if username \<noteq> [] then ([pre, UserLink username], Some username, drop (length username) tmp1)
              else ([pre, Html ''@''], None, tmp1)
         else if reHttp m \<and> word \<noteq> []
         then let url = replace_first ''&amp;'' ''&'' word
              in ([pre, ExtLink (link_href s url) url], None, drop (length word) tmp)
         else if email_like m \<and> word \<noteq> []
         then ([pre, MailLink word], None, drop (length word) tmp)
         else if m = ''#''
         then if hashtag \<noteq> []
              then ([pre, HashLink (hashtagUrl (hashtag_lc hashtag)) (''#'' @ hashtag)], None,
                    drop (length hashtag) tmp1)
              else ([pre, Html ''#''], None, tmp1)
         else if reSplitCounter m \<and> tmp \<noteq> []
         then ([pre, SplitCounter tmp], None, [])
         else ([Html (formatText s msg)], None, []))"

definition formatStep :: "store \<Rightarrow> string \<Rightarrow> seg list \<times> string option \<times> string" where
  "formatStep s msg = (case reAll msg of
     Some (index, m) \<Rightarrow> formatMatch s msg index m
   | None \<Rightarrow> ([Html (formatText s msg)], None, []))"

lemma formatMatch_shorter:
  "msg \<noteq> [] \<Longrightarrow> length (snd (snd (formatMatch s msg i m))) < length msg"
  by (auto simp: formatMatch_def Let_def)

lemma formatStep_shorter: "msg \<noteq> [] \<Longrightarrow> length (snd (snd (formatStep s msg))) < length msg"
  by (auto simp: formatStep_def formatMatch_shorter split: option.split)

function formatLoop :: "store \<Rightarrow> string \<Rightarrow> string list \<Rightarrow> seg list \<times> string list" where
  "formatLoop s msg mentions =
     (if msg = [] then ([], mentions)
      else let (segs, u, rest) = formatStep s msg;
               mentions' = (case u of
                   Some n \<Rightarrow> if n \<in> set mentions then mentions else mentions @ [n]
                 | None \<Rightarrow> mentions);
               (segs', ms) = formatLoop s rest mentions'
           in (segs @ segs', ms))"
  by pat_completeness auto
termination
proof (relation "measure (\<lambda>(s, msg, ms). length msg)", goal_cases)
  case (2 s msg mentions x segs y u rest)
  then have "rest = snd (snd (formatStep s msg))" by (metis snd_conv)
  with 2(1) show ?case by (simp add: formatStep_shorter)
qed simp

declare formatLoop.simps [simp del]

definition htmlFormatMsg :: "store \<Rightarrow> string \<Rightarrow> string list \<Rightarrow> seg list \<times> string list" where
  "htmlFormatMsg s msg mentions = formatLoop s (escapeHtmlEntities msg) mentions"

section \<open>Elements\<close>

text \<open>
  What the formatting depends on: the current user, the storage with the options, the translations and
  the texts of a time (\<^verbatim>\<open>timeGmtToText\<close>, \<^verbatim>\<open>timeSincePost\<close>).
\<close>

record fmt_env =
  fe_me :: js
  fe_store :: store
  fe_t :: "string \<Rightarrow> string"
  fe_tv :: "string \<Rightarrow> js \<Rightarrow> string"
  fe_timeText :: "int \<Rightarrow> string"
  fe_timeSince :: "int \<Rightarrow> string"

text \<open>A post on the page: the attributes of the element and of its \<^verbatim>\<open>.post-data\<close>.\<close>

record elem =
  el_kind :: string
  el_time :: int
  el_userpost :: "string option"
  el_content_to_rt :: "string option"
  el_content_to_sigrt :: js
  el_screen_name :: string
  el_id :: int
  el_lastk :: "int option"
  el_text :: string
  el_replied_to :: "(string \<times> int) option"
  el_href :: string
  el_timeText :: string
  el_timeTitle :: string
  el_body :: "seg list"
  el_mentions :: "string list"
  el_reply_to :: string
  el_placeholder :: string
  el_retweeted_by :: "string option"

definition replyTo :: "js \<Rightarrow> string \<Rightarrow> string list \<Rightarrow> string" where
  "replyTo me n mentions =
     (if JStr n \<noteq> me then ''@'' @ n @ '' '' else '''') @
     concat (map (\<lambda>m. ''@'' @ m @ '' '') (filter (\<lambda>m. m \<noteq> n \<and> JStr m \<noteq> me) mentions))"

definition postToElem :: "fmt_env \<Rightarrow> post \<Rightarrow> string \<Rightarrow> elem result" where
  "postToElem env p kind =
     (let up = userpost_of p;
          (n, k, t, msg, to_rt, to_sigrt, by_user) = (case up_rt up of
              Some rt \<Rightarrow> (rt_n rt, rt_k rt, rt_time rt, Some (rt_msg rt), toJSON (rt_js rt), up_sig_rt up, Some (up_n up))
            | None \<Rightarrow> (up_n up, up_k up, up_time up, up_msg up, toJSON (up_js up), sig_userpost p, None))
      in (case msg of
            None \<Rightarrow> Inl TypeErr
          | Some text \<Rightarrow>
              let (body, mentions) = htmlFormatMsg (fe_store env) text [];
                  reply = replyTo (fe_me env) n mentions
              in Inr \<lparr>el_kind = kind, el_time = t, el_userpost = toJSON (post_js p), el_content_to_rt = to_rt,
                   el_content_to_sigrt = to_sigrt, el_screen_name = n, el_id = k, el_lastk = up_lastk up,
                   el_text = text, el_replied_to = up_reply up, el_href = userUrl n,
                   el_timeText = fe_timeText env t, el_timeTitle = fe_timeSince env t,
                   el_body = body, el_mentions = mentions, el_reply_to = reply,
                   el_placeholder = (if \<not> truthy (fe_me env)
                     then fe_t env ''You have to log in to post replies.''
                     else fe_tv env ''reply_to'' (JObj [(''fullname'', JStr reply)]) @ ''...''),
                   el_retweeted_by = by_user\<rparr>))"

text \<open>Items of the direct-message list and of a conversation.\<close>

record dm_snippet =
  sn_user :: string
  sn_last_id :: int
  sn_time :: int
  sn_href :: string
  sn_chat :: string
  sn_html :: string
  sn_timeText :: string
  sn_timeTitle :: string

definition dmDataToSnippetItem :: "fmt_env \<Rightarrow> dm_data \<Rightarrow> string \<Rightarrow> dm_snippet" where
  "dmDataToSnippetItem env d remoteUser = \<lparr>sn_user = remoteUser, sn_last_id = dm_id d, sn_time = dm_time d,
     sn_href = userUrl remoteUser, sn_chat = dmchatUrl remoteUser, sn_html = escapeHtmlEntities (dm_text d),
     sn_timeText = fe_timeText env (dm_time d), sn_timeTitle = fe_timeSince env (dm_time d)\<rparr>"

record dm_item =
  di_class :: string
  di_avatar :: string
  di_timeText :: string
  di_timeTitle :: string
  di_body :: "seg list"

definition dmDataToConversationItem :: "fmt_env \<Rightarrow> dm_data \<Rightarrow> string \<Rightarrow> string \<Rightarrow> dm_item" where
  "dmDataToConversationItem env d localUser remoteUser =
     \<lparr>di_class = (if dm_fromMe d then ''sent'' else ''received''),
      di_avatar = (if dm_fromMe d then localUser else remoteUser),
      di_timeText = fe_timeText env (dm_time d), di_timeTitle = fe_timeSince env (dm_time d),
      di_body = fst (htmlFormatMsg (fe_store env) (dm_text d) [])\<rparr>"

section \<open>Mentions\<close>

text \<open>A user name as \<^verbatim>\<open>_extractUsername\<close> returns it.\<close>

lemma extractUsername_chars: "list_all username_char (extractUsername s)"
proof -
  have "username_char (to_lower c)" if "extract_char c" for c
    using that by (auto simp: extract_char_def username_char_def to_lower_def Let_def)
  then show ?thesis
    by (auto simp: extractUsername_def toLowerCase_def list_all_iff dest: set_takeWhileD)
qed

definition linked :: "seg list \<Rightarrow> string list" where
  "linked segs = concat (map (\<lambda>g. case g of UserLink u \<Rightarrow> [u] | _ \<Rightarrow> []) segs)"

lemma linked_simps [simp]:
  "linked [] = []" "linked (UserLink u # gs) = u # linked gs" "linked (Html h # gs) = linked gs"
  "linked (ExtLink a b # gs) = linked gs" "linked (MailLink b # gs) = linked gs"
  "linked (HashLink c d # gs) = linked gs" "linked (SplitCounter b # gs) = linked gs"
  "linked (xs @ ys) = linked xs @ linked ys"
  by (simp_all add: linked_def)

lemma formatStep_linked:
  assumes "formatStep s msg = (segs, u, rest)"
  shows "linked segs = (case u of Some n \<Rightarrow> [n] | None \<Rightarrow> [])"
    and "u = Some n \<Longrightarrow> n \<noteq> [] \<and> list_all username_char n"
  using assms extractUsername_chars
  by (auto simp: formatStep_def formatMatch_def Let_def split: option.splits if_splits prod.splits)

lemma formatLoop_mentions:
  assumes "formatLoop s msg ms = (segs, ms')" and "distinct ms"
    and "list_all (\<lambda>n. n \<noteq> [] \<and> list_all username_char n) ms"
  shows "distinct ms' \<and> set ms' = set ms \<union> set (linked segs) \<and>
    list_all (\<lambda>n. n \<noteq> [] \<and> list_all username_char n) ms'"
  using assms
proof (induction s msg ms arbitrary: segs ms' rule: formatLoop.induct)
  case (1 s msg ms)
  show ?case
  proof (cases "msg = []")
    case True
    with "1.prems" show ?thesis by (simp add: formatLoop.simps)
  next
    case False
    obtain g u rest where st: "formatStep s msg = (g, u, rest)" by (cases "formatStep s msg") auto
    define ms1 where "ms1 = (case u of Some n \<Rightarrow> if n \<in> set ms then ms else ms @ [n] | None \<Rightarrow> ms)"
    obtain g' ms2 where l: "formatLoop s rest ms1 = (g', ms2)" by (cases "formatLoop s rest ms1")
    have eq: "segs = g @ g'" "ms' = ms2"
      using "1.prems"(1) False st l by (auto simp: formatLoop.simps [of s msg] ms1_def)
    have "distinct ms1" "list_all (\<lambda>n. n \<noteq> [] \<and> list_all username_char n) ms1"
      and set1: "set ms1 = set ms \<union> set (linked g)"
      using "1.prems"(2,3) formatStep_linked [OF st]
      by (auto simp: ms1_def split: option.splits)
    with "1.IH" [OF False refl st [symmetric] refl ms1_def l]
    show ?thesis by (auto simp: eq set1)
  qed
qed

section \<open>Nothing is lost\<close>

fun seg_text :: "seg \<Rightarrow> string" where
  "seg_text (Html h) = h"
| "seg_text (UserLink u) = ''@'' @ u"
| "seg_text (ExtLink h t) = t"
| "seg_text (MailLink t) = t"
| "seg_text (HashLink h t) = t"
| "seg_text (SplitCounter t) = t"

definition shown_text :: "seg list \<Rightarrow> string" where
  "shown_text segs = concat (map seg_text segs)"

lemma shown_text_simps [simp]:
  "shown_text [] = []" "shown_text (g # gs) = seg_text g @ shown_text gs"
  "shown_text (gs @ hs) = shown_text gs @ shown_text hs"
  by (simp_all add: shown_text_def)

lemma to_lower_idem [simp]: "to_lower (to_lower c) = to_lower c"
  by (auto simp: to_lower_def Let_def)

lemma toLowerCase_simps [simp]:
  "toLowerCase [] = []" "toLowerCase (c # s) = to_lower c # toLowerCase s"
  "toLowerCase (a @ b) = toLowerCase a @ toLowerCase b" "toLowerCase (toLowerCase a) = toLowerCase a"
  "length (toLowerCase a) = length a"
  by (simp_all add: toLowerCase_def)

lemma drop_takeWhile: "drop (length (takeWhile P s)) s = dropWhile P s"
  by (induction s) auto

lemma match_group_char:
  assumes "match_group s = Some [c]" and "c = CHR ''@'' \<or> c = CHR ''#''"
  shows "\<exists>r. s = c # r"
proof (cases "has_prefix ''#'' s \<or> has_prefix ''@'' s")
  case True
  with assms show ?thesis
    by (cases s) (auto simp: match_group_def has_prefix_def Let_def split: if_splits)
next
  case False
  have "\<not> email_like [c]" "\<not> split_counter [c]"
    using assms(2) by (auto simp: email_like_def split_counter_def)
  with False assms(1) show ?thesis by (auto simp: match_group_def Let_def split: if_splits)
qed

lemma scan_group_drop: "scan_group i s = Some (j, m) \<Longrightarrow> i \<le> j \<and> match_group (drop (j - i) s) = Some m"
proof (induction i s rule: scan_group.induct)
  case (2 i c cs)
  show ?case
  proof (cases "if is_sep c then match_group cs else None")
    case None
    with 2 show ?thesis by (fastforce simp: Suc_diff_le drop_Cons' split: if_splits)
  next
    case (Some x)
    with "2.prems" show ?thesis by (auto split: if_splits)
  qed
qed simp

lemma reAll_drop: "reAll msg = Some (i, m) \<Longrightarrow> match_group (drop i msg) = Some m"
  using scan_group_drop [of 0 msg i m] by (auto simp: reAll_def split: option.splits)

lemma username_text:
  "toLowerCase (extractUsername s @ drop (length (extractUsername s)) s) = toLowerCase s"
  using toLowerCase_simps(3) [of "takeWhile extract_char s" "dropWhile extract_char s"]
  by (simp add: extractUsername_def drop_takeWhile)

lemma word_text: "word_of s @ drop (length (word_of s)) s = s"
  by (simp add: word_of_def drop_takeWhile)

lemma hashtag_text: "extractHashtag s @ drop (length (extractHashtag s)) s = s"
  by (simp add: extractHashtag_def drop_takeWhile)

lemma url_text:
  assumes "js_indexOf msg ''&amp;'' = None"
  shows "replace_first ''&amp;'' ''&'' (word_of (drop i msg)) = word_of (drop i msg)"
proof -
  let ?w = "word_of (drop i msg)"
  have "take i msg @ ?w @ drop (length ?w) (drop i msg) = msg" by (metis append_take_drop_id word_text)
  with assms have "js_indexOf ?w ''&amp;'' = None" by (metis js_indexOf_infix)
  then show ?thesis by (simp add: replace_first_def)
qed

lemma formatMatch_text:
  assumes "match_group (drop i msg) = Some m" and "js_indexOf msg ''&amp;'' = None"
    and "getLineFeedsOpt s \<noteq> JStr ''enable''" and "formatMatch s msg i m = (segs, u, rest)"
  shows "toLowerCase (shown_text segs) @ toLowerCase rest = toLowerCase msg"
proof -
  let ?tmp = "drop i msg" and ?tmp1 = "drop (Suc i) msg"
  have low: "toLowerCase (take i msg) @ toLowerCase ?tmp = toLowerCase msg"
    by (metis append_take_drop_id toLowerCase_simps(3))
  have chr: "?tmp = c # ?tmp1" if "m = [c]" "c = CHR ''@'' \<or> c = CHR ''#''" for c
    using match_group_char [of ?tmp c] assms(1) that by (metis drop_Suc list.sel(3) tl_drop)
  note parts = username_text [of ?tmp1] word_text [of ?tmp] hashtag_text [of ?tmp1]
    url_text [OF assms(2), of i]
  have lw: "toLowerCase (word_of ?tmp) @ toLowerCase (drop (length (word_of ?tmp)) ?tmp) = toLowerCase ?tmp"
    "toLowerCase (extractHashtag ?tmp1) @ toLowerCase (drop (length (extractHashtag ?tmp1)) ?tmp1) =
      toLowerCase ?tmp1"
    by (metis parts(2) toLowerCase_simps(3), metis parts(3) toLowerCase_simps(3))
  consider (at) "m = ''@''" | (hash) "m = ''#''" | (other) "m \<noteq> ''@''" "m \<noteq> ''#''" by blast
  then show ?thesis
  proof cases
    case at
    with chr low parts(1) assms(3,4) show ?thesis
      by (auto simp: formatMatch_def formatText_def Let_def split: if_splits)
  next
    case hash
    then have "\<not> reHttp m" "\<not> email_like m" by (simp_all add: reHttp_def email_like_def)
    with hash chr low lw(2) assms(3,4) show ?thesis
      by (auto simp: formatMatch_def formatText_def Let_def split: if_splits)
  next
    case other
    with low lw(1) parts(4) assms(3,4) show ?thesis
      by (auto simp: formatMatch_def formatText_def Let_def split: if_splits)
  qed
qed

lemma formatStep_text:
  assumes "js_indexOf msg ''&amp;'' = None" and "getLineFeedsOpt s \<noteq> JStr ''enable''"
    and "formatStep s msg = (segs, u, rest)"
  shows "toLowerCase (shown_text segs) @ toLowerCase rest = toLowerCase msg"
proof (cases "reAll msg")
  case None
  with assms(2,3) show ?thesis by (auto simp: formatStep_def formatText_def)
next
  case (Some p)
  then obtain i m where p: "reAll msg = Some (i, m)" by (cases p) auto
  with assms(3) have "formatMatch s msg i m = (segs, u, rest)" by (simp add: formatStep_def)
  with formatMatch_text [OF reAll_drop [OF p] assms(1,2)] show ?thesis .
qed

lemma formatStep_suffix:
  assumes "formatStep s msg = (segs, u, rest)"
  shows "\<exists>i. rest = drop i msg"
proof -
  have "\<exists>i. [] = drop i msg" by (intro exI [of _ "length msg"]) simp
  with assms show ?thesis
    by (auto simp: formatStep_def formatMatch_def Let_def split: option.splits if_splits)
qed

lemma formatLoop_text:
  assumes "js_indexOf msg ''&amp;'' = None" and "getLineFeedsOpt s \<noteq> JStr ''enable''"
  shows "toLowerCase (shown_text (fst (formatLoop s msg ms))) = toLowerCase msg"
  using assms
proof (induction s msg ms rule: formatLoop.induct)
  case (1 s msg ms)
  show ?case
  proof (cases "msg = []")
    case True
    then show ?thesis by (simp add: formatLoop.simps)
  next
    case False
    obtain g u rest where st: "formatStep s msg = (g, u, rest)" by (cases "formatStep s msg") auto
    define ms1 where "ms1 = (case u of Some n \<Rightarrow> if n \<in> set ms then ms else ms @ [n] | None \<Rightarrow> ms)"
    obtain i where "rest = drop i msg" using formatStep_suffix [OF st] by blast
    then have "take i msg @ rest @ [] = msg" by simp
    with "1.prems"(1) have "js_indexOf rest ''&amp;'' = None" by (metis js_indexOf_infix)
    from "1.IH" [OF False refl st [symmetric] refl ms1_def this "1.prems"(2)]
    have "toLowerCase (shown_text (fst (formatLoop s rest ms1))) = toLowerCase rest" .
    moreover have "fst (formatLoop s msg ms) = g @ fst (formatLoop s rest ms1)"
      using False st by (simp add: formatLoop.simps [of s msg] ms1_def split_beta Let_def)
    ultimately show ?thesis using formatStep_text [OF "1.prems" st] by simp
  qed
qed

section \<open>Properties\<close>



text \<open>
  The mentions that \<^verbatim>\<open>htmlFormatMsg\<close> collects are the users it links, each once, and each is a
  non-empty name of lower-case letters, digits and underscores.
\<close>

theorem format_mentions:
  "distinct (snd (htmlFormatMsg s msg [])) \<and>
   set (snd (htmlFormatMsg s msg [])) = set (linked (fst (htmlFormatMsg s msg []))) \<and>
   list_all (\<lambda>n. n \<noteq> [] \<and> list_all username_char n) (snd (htmlFormatMsg s msg []))"
  using formatLoop_mentions [of s "escapeHtmlEntities msg" "[]"]
  by (cases "formatLoop s (escapeHtmlEntities msg) []") (simp add: htmlFormatMsg_def)


end
