(* ===== verification/Twister_Timeline.thy ===== *)
theory Twister_Timeline
  imports Format_Post Twister_Newmsgs
begin

text \<open>
  \<^verbatim>\<open>twister_timeline.js\<close>: which posts to request (the trackers of post ids), the requests of a refresh,
  and the posts on screen in the order of their times. \<open>stream\<close> is the list of children of the
  timeline element, each with its \<^verbatim>\<open>data-time\<close>. \<^verbatim>\<open>followingUsers\<close> is an argument: the scripts read a
  global variable of that name.
\<close>

section \<open>Trackers of post ids\<close>

text \<open>The modes are strings in the code.\<close>

datatype mode = Latest | LatestFirstTime | Fillgap | Older | Done

record idTracker =
  latest :: int
  oldest :: int
  gapHigh :: int
  gapLow :: int

definition idTrackerObj :: idTracker where
  "idTrackerObj = \<lparr>latest = -1, oldest = -1, gapHigh = -1, gapLow = -1\<rparr>"

record id_request =
  max_id :: "int option"
  since_id :: "int option"

text \<open>\<open>None\<close> for a mode that is not known, where the code logs and returns \<^verbatim>\<open>undefined\<close>.\<close>

definition tracker_getRequest :: "mode \<Rightarrow> idTracker \<Rightarrow> id_request option \<times> idTracker" where
  "tracker_getRequest m tr = (case m of
     Done \<Rightarrow> (None, tr)
   | Fillgap \<Rightarrow> (Some \<lparr>max_id = Some (gapHigh tr - 1), since_id = Some (gapLow tr)\<rparr>, tr)
   | Older \<Rightarrow> (Some \<lparr>max_id = (if oldest tr \<ge> 0 then Some (oldest tr - 1) else None), since_id = None\<rparr>, tr)
   | _ \<Rightarrow> (Some \<lparr>max_id = None, since_id = Some (latest tr)\<rparr>, tr\<lparr>gapHigh := -1, gapLow := latest tr\<rparr>))"

definition receivedId :: "mode \<Rightarrow> int \<Rightarrow> bool \<Rightarrow> idTracker \<Rightarrow> idTracker" where
  "receivedId m i shown tr =
     (let tr1 = (if i > latest tr then tr\<lparr>latest := i\<rparr> else tr);
          tr2 = (if shown \<and> (oldest tr1 < 0 \<or> i < oldest tr1) then tr1\<lparr>oldest := i\<rparr> else tr1)
      in if m \<in> {Latest, LatestFirstTime, Fillgap} \<and> (gapHigh tr2 < 0 \<or> i < gapHigh tr2)
         then tr2\<lparr>gapHigh := i\<rparr> else tr2)"

section \<open>State\<close>

record request =
  rq_users :: "string list"
  rq_mode :: mode
  rq_count :: int
  rq_getspam :: bool

type_synonym stream_item = "int option \<times> elem"

record timeline_state =
  idTrackerMap :: "idTracker obj"
  idTrackerSpam :: idTracker
  tl_lastHaveMap :: "int obj"
  refreshInProgress :: bool
  newPostsPending :: int
  timelineLoaded :: bool
  stream :: "stream_item list"

definition timeline_init :: timeline_state where
  "timeline_init = \<lparr>idTrackerMap = [], idTrackerSpam = idTrackerObj, tl_lastHaveMap = [],
     refreshInProgress = False, newPostsPending = 0, timelineLoaded = False, stream = []\<rparr>"

text \<open>\<^verbatim>\<open>postsPerRefresh\<close> of \<^verbatim>\<open>twister_actions.js\<close>.\<close>

definition postsPerRefresh :: int where
  "postsPerRefresh = 10"

section \<open>Requests\<close>

definition opt_member :: "string \<Rightarrow> int option \<Rightarrow> js obj" where
  "opt_member k v = (case v of None \<Rightarrow> [] | Some n \<Rightarrow> [(k, JNum n)])"

definition id_request_js :: "id_request \<Rightarrow> js obj" where
  "id_request_js r = opt_member ''max_id'' (max_id r) @ opt_member ''since_id'' (since_id r)"

text \<open>One user of the loop in \<^verbatim>\<open>requestObj.getRequest\<close>.\<close>

definition userRequest :: "mode \<Rightarrow> string \<Rightarrow> js list \<times> idTracker obj \<Rightarrow> js list \<times> idTracker obj" where
  "userRequest m user acc = (case acc of (reqs, trackers) \<Rightarrow>
     (let tr = (case oget trackers user of None \<Rightarrow> idTrackerObj | Some tr \<Rightarrow> tr);
          (r, tr') = tracker_getRequest m tr
      in (case r of
            None \<Rightarrow> (reqs, oset trackers user tr')
          | Some q \<Rightarrow> (reqs @ [JObj (id_request_js q @ [(''username'', JStr user)])],
                       oset trackers user tr'))))"

definition or_minus_one :: "int option \<Rightarrow> js" where
  "or_minus_one v = (case v of Some n \<Rightarrow> if n \<noteq> 0 then JNum n else JNum (-1) | None \<Rightarrow> JNum (-1))"

text \<open>\<^verbatim>\<open>requestGetposts\<close>, with the two kinds of request it makes.\<close>

definition requestGetposts :: "request \<Rightarrow> timeline_state \<Rightarrow> effs \<times> timeline_state" where
  "requestGetposts req st =
     (if rq_mode req = Done
      then (if rq_getspam req then [Rpc ''getspamposts'' [JNum (rq_count req), JNum (-1), JNum (-1)]] else [], st)
      else if rq_getspam req
      then let (r, tr) = tracker_getRequest (rq_mode req) (idTrackerSpam st)
           in ([Rpc ''getspamposts'' [JNum (rq_count req),
                  or_minus_one (case r of Some q \<Rightarrow> max_id q | None \<Rightarrow> None),
                  or_minus_one (case r of Some q \<Rightarrow> since_id q | None \<Rightarrow> None)]],
               st\<lparr>idTrackerSpam := tr\<rparr>)
      else let (r, trackers) = fold (userRequest (rq_mode req)) (rq_users req) ([], idTrackerMap st)
           in (if r \<noteq> [] then [Rpc ''getposts'' [JNum (rq_count req), JArr r]] else [],
               st\<lparr>idTrackerMap := trackers\<rparr>))"

text \<open>The tracker of a requested user exists once the request has been made.\<close>

definition reportProcessedPost :: "request \<Rightarrow> string \<Rightarrow> int \<Rightarrow> bool \<Rightarrow> timeline_state \<Rightarrow> timeline_state result" where
  "reportProcessedPost req user i shown st =
     (if rq_getspam req
      then Inr (st\<lparr>idTrackerSpam := receivedId (rq_mode req) i shown (idTrackerSpam st)\<rparr>)
      else if user \<in> set (rq_users req)
      then (case oget (idTrackerMap st) user of
              None \<Rightarrow> Inl TypeErr
            | Some tr \<Rightarrow> Inr (st\<lparr>idTrackerMap := oset (idTrackerMap st) user (receivedId (rq_mode req) i shown tr)\<rparr>))
      else Inr st)"

definition doneReportProcessing :: "int \<Rightarrow> request \<Rightarrow> request" where
  "doneReportProcessing receivedCount req =
     (let m = (case rq_mode req of Latest \<Rightarrow> Fillgap | LatestFirstTime \<Rightarrow> Done | Older \<Rightarrow> Done | x \<Rightarrow> x)
      in req\<lparr>rq_mode := (if receivedCount < rq_count req then Done else m)\<rparr>)"

section \<open>Hidden posts\<close>

definition name_end :: "char \<Rightarrow> bool" where
  "name_end c = (c \<in> set [CHR '' '', CHR '','', CHR '';'', CHR ''.'', CHR '':'', CHR ''/'', CHR ''?'',
     CHR ''!'', CHR 0x5C, CHR 0x27, CHR 0x22, CHR 0x0A, CHR 0x09])"

text \<open>The test for \<^verbatim>\<open>@name\<close> followed by the end of the message or a separator.\<close>

fun addressed :: "string \<Rightarrow> string \<Rightarrow> bool" where
  "addressed name [] = False"
| "addressed name (c # cs) =
     (c = CHR ''@'' \<and> has_prefix name cs \<and>
        (drop (length name) cs = [] \<or> name_end (hd (drop (length name) cs))) \<or> addressed name cs)"

definition willBeHidden :: "store \<Rightarrow> js \<Rightarrow> string list \<Rightarrow> post \<Rightarrow> bool" where
  "willBeHidden s me followingUsers p =
     (let up = userpost_of p;
          msg = (case up_msg up of Some m \<Rightarrow> m | None \<Rightarrow> ''undefined'');
          opt = getHideRepliesOpt s;
          hidden = (opt \<noteq> JStr ''disable'' \<and> has_prefix ''@'' msg \<and> \<not> addressed (js_string me) msg \<and>
             (opt = JStr ''only-me'' \<or>
              opt = JStr ''following'' \<and> takeWhile (\<lambda>c. \<not> name_end c) (tl msg) \<notin> set followingUsers));
          closeRT = (case up_rt up of
              None \<Rightarrow> False
            | Some rt \<Rightarrow> getHideCloseRTsOpt s \<noteq> JStr ''disable'' \<and> rt_n rt \<in> set followingUsers \<and>
                (case getHideCloseRTsHourOpt s of
                   None \<Rightarrow> False | Some h \<Rightarrow> up_time up - rt_time rt < h * 3600))
      in if JStr (up_n up) = me then False
         else if closeRT then \<not> hidden
         else hidden)"

section \<open>Answers\<close>

text \<open>Where a post goes in the timeline, and whether it is shown at all.\<close>

definition tl_insert :: "mode \<Rightarrow> stream_item \<Rightarrow> stream_item list \<Rightarrow> stream_item list \<times> bool" where
  "tl_insert m x items =
     (if items = [] then ([x], True)
      else (case insert_before fst (the (fst x)) x items of
              Some items' \<Rightarrow> (items', True)
            | None \<Rightarrow> if m = Older \<or> m = LatestFirstTime then (items @ [x], True) else (items, False)))"

text \<open>One post of the loop; a post that is not hidden takes the time of its \<^verbatim>\<open>userpost\<close>.\<close>

definition receivePost :: "fmt_env \<Rightarrow> string list \<Rightarrow> request \<Rightarrow> post \<Rightarrow> timeline_state \<Rightarrow> timeline_state result" where
  "receivePost env followingUsers req p st =
     (if willBeHidden (fe_store env) (fe_me env) followingUsers p then Inr st
      else rbind (postToElem env p ''original'') (\<lambda>el.
        let t = up_time (userpost_of p);
            (items, shown) = tl_insert (rq_mode req) (Some t, el\<lparr>el_time := t\<rparr>) (stream st)
        in reportProcessedPost req (up_n (userpost_of p)) (up_k (userpost_of p)) shown
             (st\<lparr>stream := items\<rparr>)))"

fun receivePosts :: "fmt_env \<Rightarrow> string list \<Rightarrow> request \<Rightarrow> post list \<Rightarrow> timeline_state \<Rightarrow> timeline_state result" where
  "receivePosts env fu req [] st = Inr st"
| "receivePosts env fu req (p # ps) st =
     rbind (receivePost env fu req p st) (receivePosts env fu req ps)"

text \<open>
  \<open>pg\<close> is the pair of the mobile flag and the active page. \<^verbatim>\<open>p2a\<close>, the number of posts that are not
  hidden, is never negative, so the test \<^verbatim>\<open>p2a > -1\<close> always holds.
\<close>

definition processReceivedPosts :: "bool \<times> string \<Rightarrow> fmt_env \<Rightarrow> string list \<Rightarrow> request \<Rightarrow> post list \<Rightarrow>
    timeline_state \<Rightarrow> (effs \<times> request \<times> timeline_state) result" where
  "processReceivedPosts pg env fu req posts st =
     rbind (receivePosts env fu req posts st) (\<lambda>st1.
       let p2a = int (length (filter (\<lambda>p. \<not> willBeHidden (fe_store env) (fe_me env) fu p) posts));
           req1 = doneReportProcessing (int (length posts)) req
       in if rq_mode req1 = Done \<and> p2a > -1
          then Inr (postboardLoaded (fst pg) (snd pg), req1,
                 st1\<lparr>timelineLoaded := True, refreshInProgress := False\<rparr>)
          else let req2 = req1\<lparr>rq_count := rq_count req1 + postsPerRefresh, rq_mode := Older\<rparr>;
                   (e, st2) = requestGetposts req2 st1
               in Inr (e, req2, st2))"

definition requestTimelineUpdate :: "bool \<Rightarrow> js \<Rightarrow> mode \<Rightarrow> int \<Rightarrow> string list \<Rightarrow> bool \<Rightarrow> timeline_state \<Rightarrow>
    effs \<times> request option \<times> timeline_state" where
  "requestTimelineUpdate mobile me m cnt users getspam st =
     (if refreshInProgress st \<or> \<not> truthy me then ([], None, st)
      else let st1 = st\<lparr>refreshInProgress := True\<rparr>;
               req = \<lparr>rq_users = users, rq_mode = m, rq_count = cnt, rq_getspam = getspam\<rparr>;
               (e, st2) = (if users \<noteq> [] then requestGetposts req st1
                           else ([Log ''requestTimelineUpdate: not following any users''], st1));
               fresh = (m = Latest \<or> m = LatestFirstTime)
           in (postboardLoading mobile @ e @ (if fresh then reportNewPosts mobile 0 else []),
               if users \<noteq> [] then Some req else None,
               if fresh then st2\<lparr>newPostsPending := 0\<rparr> else st2))"

section \<open>New posts\<close>

definition requestLastHave :: "string \<Rightarrow> effs" where
  "requestLastHave me = [Rpc ''getlasthave'' [JStr me]]"

text \<open>
  One user of \<^verbatim>\<open>processLastHave\<close>; the accumulator holds the number of new posts, the users to confirm,
  the state of the timeline, the effects and the state of the current user.
\<close>

type_synonym have_acc = "int \<times> js list \<times> effs \<times> timeline_state \<times> user_state"

definition haveStep :: "bool \<Rightarrow> string \<times> int \<Rightarrow> have_acc \<Rightarrow> have_acc" where
  "haveStep mobile uh acc = (case (uh, acc) of ((user, have), (n, req, e, st, us)) \<Rightarrow>
     (let known = ohas (idTrackerMap st) user;
          (n1, req1) = (case oget (tl_lastHaveMap st) user of
              Some old \<Rightarrow> if known \<and> have > old
                then (n + (have - old), req @ [JObj [(''username'', JStr user), (''since_id'', JNum old)]])
                else (n, req)
            | None \<Rightarrow> (n, req));
          st1 = st\<lparr>tl_lastHaveMap := oset (tl_lastHaveMap st) user have\<rparr>;
          above = (case lastPostId us of NoId \<Rightarrow> True | NaNId \<Rightarrow> False | Id l \<Rightarrow> have > l);
          (e1, us1) = (if JStr user = defaultScreenName us \<and> above
                       then incLastPostId mobile (Some have) us else ([], us))
      in (n1, req1, e @ e1, st1, us1)))"

definition processLastHave :: "bool \<Rightarrow> int obj \<Rightarrow> timeline_state \<Rightarrow> user_state \<Rightarrow>
    effs \<times> timeline_state \<times> user_state" where
  "processLastHave mobile userHaves st us =
     (let (n, req, e, st1, us1) = fold (haveStep mobile) userHaves (0, [], [], st, us)
      in (e @ (if n \<noteq> 0 then [Rpc ''getposts'' [JNum n, JArr req]] else []), st1, us1))"

definition processNewPostsConfirmation :: "bool \<Rightarrow> fmt_env \<Rightarrow> string \<Rightarrow> string list \<Rightarrow> int \<Rightarrow> post list \<Rightarrow>
    timeline_state \<Rightarrow> effs \<times> timeline_state" where
  "processNewPostsConfirmation mobile env me fu expected posts st =
     (let p2h = length (filter (willBeHidden (fe_store env) (fe_me env) fu) posts);
          pending = newPostsPending st + (int (length posts) - int p2h)
      in ((if pending \<noteq> 0 then reportNewPosts mobile pending else []) @
          (if int (length posts) < expected then requestDMsCount me fu else []),
          st\<lparr>newPostsPending := pending\<rparr>))"

text \<open>The children of the timeline element are not touched.\<close>

definition timelineChangedUser :: "timeline_state \<Rightarrow> timeline_state" where
  "timelineChangedUser st = timeline_init\<lparr>stream := stream st\<rparr>"

section \<open>The timeline is a timed list\<close>

interpretation timeline: timed_list fst "tl_insert m" for m
proof
  fix x :: stream_item and ys :: "stream_item list"
  assume "fst x \<noteq> None"
  then have t: "fst x = Some (the (fst x))" by auto
  have none: "\<forall>y\<in>set ys. fst x \<le> fst y" if "insert_before fst (the (fst x)) x ys = None"
    using that t insert_before_none [of fst "the (fst x)" x ys] by simp
  show "by_time fst (fst (tl_insert m x ys))" if "by_time fst ys"
  proof (cases "insert_before fst (the (fst x)) x ys")
    case None
    with that none by_time_append [of fst ys x] show ?thesis by (simp add: tl_insert_def)
  next
    case (Some zs)
    with that insert_before_some [OF t Some] show ?thesis by (simp add: tl_insert_def)
  qed
  show "mset (fst (tl_insert m x ys)) = (if snd (tl_insert m x ys) then add_mset x (mset ys) else mset ys)"
  proof (cases "insert_before fst (the (fst x)) x ys")
    case None
    then show ?thesis by (simp add: tl_insert_def)
  next
    case (Some zs)
    with insert_before_some [OF t Some] show ?thesis by (simp add: tl_insert_def)
  qed
qed

lemma reportProcessedPost_frame:
  "reportProcessedPost req user i shown st = Inr st' \<Longrightarrow>
   stream st' = stream st \<and> refreshInProgress st' = refreshInProgress st"
  by (auto simp: reportProcessedPost_def split: if_splits option.splits)

lemma receivePost_sorted:
  assumes "receivePost env fu req p st = Inr st'" and "by_time fst (stream st)"
  shows "by_time fst (stream st')"
proof (cases "willBeHidden (fe_store env) (fe_me env) fu p")
  case True
  with assms show ?thesis by (simp add: receivePost_def)
next
  case False
  with assms(1) obtain el where
    "reportProcessedPost req (up_n (userpost_of p)) (up_k (userpost_of p))
       (snd (tl_insert (rq_mode req) (Some (up_time (userpost_of p)), el) (stream st)))
       (st\<lparr>stream := fst (tl_insert (rq_mode req) (Some (up_time (userpost_of p)), el) (stream st))\<rparr>) = Inr st'"
    by (auto simp: receivePost_def rbind_Inr_iff Let_def split_beta)
  from reportProcessedPost_frame [OF this] timeline.ins_sorted [OF _ assms(2)] show ?thesis by simp
qed

lemma receivePosts_sorted:
  "receivePosts env fu req ps st = Inr st' \<Longrightarrow> by_time fst (stream st) \<Longrightarrow> by_time fst (stream st')"
  by (induction ps arbitrary: st) (auto simp: rbind_Inr_iff dest: receivePost_sorted)

lemma requestGetposts_frame [simp]:
  "stream (snd (requestGetposts req st)) = stream st"
  "refreshInProgress (snd (requestGetposts req st)) = refreshInProgress st"
  by (simp_all add: requestGetposts_def Let_def split_beta)

lemma processReceivedPosts_cases:
  assumes "processReceivedPosts pg env fu req posts st = Inr (e, req', st')"
  obtains (done_) st1 where "receivePosts env fu req posts st = Inr st1"
      "st' = st1\<lparr>timelineLoaded := True, refreshInProgress := False\<rparr>" "rq_mode req' = Done"
    | (more) st1 where "receivePosts env fu req posts st = Inr st1"
      "st' = snd (requestGetposts req' st1)" "rq_mode req' = Older"
      "rq_mode (doneReportProcessing (int (length posts)) req) \<noteq> Done"
proof (cases "rq_mode (doneReportProcessing (int (length posts)) req) = Done")
  case True
  with assms done_ show ?thesis by (auto simp: processReceivedPosts_def rbind_Inr_iff Let_def)
next
  case False
  with assms more show ?thesis
    by (auto simp: processReceivedPosts_def rbind_Inr_iff Let_def split_beta)
qed

lemma doneReport_older: "rq_mode req = Older \<Longrightarrow> rq_mode (doneReportProcessing n req) = Done"
  by (simp add: doneReportProcessing_def Let_def)

section \<open>The trackers never ask for a post again\<close>

text \<open>What happens to a tracker: a request is made for it, or an id is reported.\<close>

datatype tracker_event = Asked mode | Got mode int bool

fun tracker_step :: "tracker_event \<Rightarrow> idTracker \<Rightarrow> idTracker" where
  "tracker_step (Asked m) tr = snd (tracker_getRequest m tr)"
| "tracker_step (Got m i shown) tr = receivedId m i shown tr"

definition tracker_covers :: "tracker_event list \<Rightarrow> idTracker \<Rightarrow> bool" where
  "tracker_covers evs tr \<longleftrightarrow>
     (\<forall>m i shown. Got m i shown \<in> set evs \<longrightarrow>
        i \<le> latest tr \<and> (shown \<longrightarrow> 0 \<le> oldest tr \<and> oldest tr \<le> i))"

definition ids_ok :: "tracker_event \<Rightarrow> bool" where
  "ids_ok ev = (case ev of Got m i shown \<Rightarrow> 0 \<le> i | Asked m \<Rightarrow> True)"

lemma asked_frame: "latest (snd (tracker_getRequest m tr)) = latest tr"
  "oldest (snd (tracker_getRequest m tr)) = oldest tr"
  by (simp_all add: tracker_getRequest_def split: mode.split)

lemma got_latest: "latest (receivedId m i shown tr) = max (latest tr) i"
  by (simp add: receivedId_def Let_def max_def)

lemma got_oldest: "oldest (receivedId m i shown tr) =
    (if shown \<and> (oldest tr < 0 \<or> i < oldest tr) then i else oldest tr)"
  by (auto simp: receivedId_def Let_def)

lemma tracker_step_covers:
  assumes "tracker_covers evs tr" and "ids_ok ev"
  shows "tracker_covers (evs @ [ev]) (tracker_step ev tr)"
proof (cases ev)
  case (Asked m)
  with assms show ?thesis by (auto simp: tracker_covers_def asked_frame)
next
  case (Got m i shown)
  with assms show ?thesis
    by (auto simp: tracker_covers_def ids_ok_def got_latest got_oldest le_max_iff_disj) force+
qed

lemma tracker_fold_covers:
  "list_all ids_ok evs \<Longrightarrow> tracker_covers evs (fold tracker_step evs idTrackerObj)"
proof (induction evs rule: rev_induct)
  case Nil
  show ?case by (simp add: tracker_covers_def)
qed (simp add: tracker_step_covers)

section \<open>Properties\<close>

text \<open>
  C7. Handling an answer keeps the timeline in order, latest post first, whatever posts it brings and
  whichever of them are hidden or discarded.
\<close>

theorem timeline_stays_sorted:
  assumes "processReceivedPosts pg env fu req posts st = Inr (e, req', st')" and "by_time fst (stream st)"
  shows "by_time fst (stream st')"
  using assms(1) by (rule processReceivedPosts_cases)
    (use assms(2) receivePosts_sorted in \<open>auto simp del: by_time_simps\<close>)

definition ex_env :: fmt_env where
  "ex_env = \<lparr>fe_me = JStr ''me'', fe_store = [], fe_t = id, fe_tv = (\<lambda>s v. s), fe_timeText = str_of_int,
     fe_timeSince = str_of_int\<rparr>"

definition ex_post :: "int \<Rightarrow> int \<Rightarrow> post" where
  "ex_post k t = \<lparr>userpost_of = \<lparr>up_n = ''bob'', up_k = k, up_time = t, up_msg = Some ''hello'',
     up_lastk = None, up_reply = None, up_rt = None, up_sig_rt = JUndef, up_js = JNull\<rparr>,
     sig_userpost = JNull, post_js = JNull\<rparr>"

definition ex_req :: request where
  "ex_req = \<lparr>rq_users = [''bob''], rq_mode = LatestFirstTime, rq_count = 10, rq_getspam = False\<rparr>"

definition ex_timeline :: timeline_state where
  "ex_timeline = timeline_init\<lparr>idTrackerMap := [(''bob'', idTrackerObj)], refreshInProgress := True\<rparr>"

lemma ex_simps [simp]:
  "fe_me ex_env = JStr ''me''" "fe_store ex_env = []"
  "up_n (userpost_of (ex_post k t)) = ''bob''" "up_k (userpost_of (ex_post k t)) = k"
  "up_time (userpost_of (ex_post k t)) = t"
  by (simp_all add: ex_env_def ex_post_def)

lemma ex_received: "\<exists>e req' st'. processReceivedPosts (False, '''') ex_env [] ex_req
    [ex_post 1 100, ex_post 2 200] ex_timeline = Inr (e, req', st')"
proof -
  have "\<exists>el. postToElem ex_env (ex_post k t) ''original'' = Inr el" for k t
    by (simp add: postToElem_def ex_post_def ex_env_def Let_def split_beta)
  then obtain el where el: "\<And>k t. postToElem ex_env (ex_post k t) ''original'' = Inr (el k t)" by metis
  have "\<not> willBeHidden [] (JStr ''me'') [] (ex_post k t)" for k t
    by (simp add: willBeHidden_def ex_post_def has_prefix_def)
  then show ?thesis
    by (simp add: processReceivedPosts_def receivePost_def el Let_def split_beta
        reportProcessedPost_def ex_req_def ex_timeline_def oget_oset)
qed

theorem timeline_stays_sorted_witness:
  "\<exists>e req' st'. processReceivedPosts (False, '''') ex_env [] ex_req [ex_post 1 100, ex_post 2 200]
     ex_timeline = Inr (e, req', st') \<and> by_time fst (stream st')"
proof -
  obtain e req' st' where "processReceivedPosts (False, '''') ex_env [] ex_req
      [ex_post 1 100, ex_post 2 200] ex_timeline = Inr (e, req', st')" using ex_received by blast
  with timeline_stays_sorted [OF this] show ?thesis
    by (simp add: ex_timeline_def timeline_init_def)
qed

text \<open>
  C28. A refresh ends: after at most two answers the timeline accepts the next refresh. The second
  request, if there is one, is always for older posts.
\<close>

theorem refresh_ends:
  assumes "processReceivedPosts pg env fu req posts st = Inr (e, req', st')"
    and "processReceivedPosts pg env fu req' posts' st' = Inr (e'', req'', st'')"
  shows "\<not> refreshInProgress st' \<or> rq_mode req' = Older \<and> \<not> refreshInProgress st''"
  using assms(1)
proof (rule processReceivedPosts_cases)
  fix st1
  assume "st' = st1\<lparr>timelineLoaded := True, refreshInProgress := False\<rparr>"
  then show ?thesis by simp
next
  assume older: "rq_mode req' = Older"
  from assms(2) show ?thesis
    by (rule processReceivedPosts_cases) (use older doneReport_older in auto)
qed

theorem refresh_ends_witness:
  "\<exists>e req' st'. processReceivedPosts (False, '''') ex_env [] ex_req [ex_post 1 100, ex_post 2 200]
     ex_timeline = Inr (e, req', st') \<and>
   (\<forall>e'' req'' st''. processReceivedPosts (False, '''') ex_env [] req' [] st' = Inr (e'', req'', st'') \<longrightarrow>
     \<not> refreshInProgress st' \<or> \<not> refreshInProgress st'')"
proof -
  obtain e req' st' where r: "processReceivedPosts (False, '''') ex_env [] ex_req
      [ex_post 1 100, ex_post 2 200] ex_timeline = Inr (e, req', st')" using ex_received by blast
  with refresh_ends [OF r] show ?thesis by blast
qed

text \<open>
  C8. The requests never ask for a post that has been handled: after any sequence of requests and
  answers, a request for the latest posts starts above every id received, and a request for older
  posts ends below every id shown.
\<close>

theorem tracker_never_repeats:
  assumes "list_all ids_ok evs" and "Got m i shown \<in> set evs"
    and "tr = fold tracker_step evs idTrackerObj"
  shows "(\<exists>s. fst (tracker_getRequest Latest tr) = Some \<lparr>max_id = None, since_id = Some s\<rparr> \<and> i \<le> s) \<and>
    (shown \<longrightarrow> (\<exists>x. fst (tracker_getRequest Older tr) = Some \<lparr>max_id = Some x, since_id = None\<rparr> \<and> x < i))"
  using tracker_fold_covers [OF assms(1)] assms(2)
  unfolding assms(3) [symmetric] tracker_covers_def tracker_getRequest_def by fastforce

theorem tracker_never_repeats_witness:
  "\<exists>x. fst (tracker_getRequest Older (fold tracker_step
     [Asked LatestFirstTime, Got LatestFirstTime 7 True, Got LatestFirstTime 5 True] idTrackerObj)) =
       Some \<lparr>max_id = Some x, since_id = None\<rparr> \<and> x < 7"
  using tracker_never_repeats [of "[Asked LatestFirstTime, Got LatestFirstTime 7 True,
      Got LatestFirstTime 5 True]" LatestFirstTime 7 True, OF _ _ refl]
  by (simp add: ids_ok_def)

text \<open>
  A refresh for an empty list of users locks the timeline: no request is made, so no answer ever
  clears the flag, and every later refresh is ignored.
\<close>

theorem empty_refresh_locks:
  assumes "\<not> refreshInProgress st" and "truthy me"
    and "requestTimelineUpdate mobile me m cnt [] getspam st = (e, r, st')"
  shows "r = None \<and> refreshInProgress st' \<and>
    requestTimelineUpdate mobile' me' m' cnt' users' getspam' st' = ([], None, st')"
  using assms by (auto simp: requestTimelineUpdate_def Let_def split: if_splits)

theorem empty_refresh_locks_witness:
  "refreshInProgress (snd (snd (requestTimelineUpdate False (JStr ''me'') Latest 10 [] False timeline_init)))"
  using empty_refresh_locks [of timeline_init "JStr ''me''" False Latest 10 False]
  by (cases "requestTimelineUpdate False (JStr ''me'') Latest 10 [] False timeline_init")
    (simp add: timeline_init_def)

end
