(* ===== verification/Twister_Network.thy ===== *)
theory Twister_Network
  imports Twister_User Twister_Newmsgs
begin

text \<open>
  \<^verbatim>\<open>twister_network.js\<close>: the periodic check of the connection and the block chain, and the network page.
  The time is in milliseconds (\<open>nowMs\<close>), so that the comparisons with \<^verbatim>\<open>getTime() / 1000\<close> are exact.
  \<open>t\<close> is \<^verbatim>\<open>polyglot.t\<close>, \<open>tv\<close> is \<^verbatim>\<open>polyglot.t\<close> with values to fill in.
\<close>

section \<open>State\<close>

record net_state =
  twisterdConnections :: int
  twisterdAddrman :: int
  twisterDhtNodes :: int
  twisterdBlocks :: int
  twisterdLastBlockTime :: int
  twisterdConnectedAndUptodate :: bool

definition net_init :: net_state where
  "net_init = \<lparr>twisterdConnections = 0, twisterdAddrman = 0, twisterDhtNodes = 0, twisterdBlocks = 0,
     twisterdLastBlockTime = 0, twisterdConnectedAndUptodate = False\<rparr>"

text \<open>The answer of \<^verbatim>\<open>getinfo\<close>.\<close>

record net_info =
  ni_connections :: int
  ni_addrman_total :: int
  ni_blocks :: int
  ni_dht_nodes :: int
  ni_version :: int

text \<open>
  A \<^verbatim>\<open>cbFunc\<close> with its argument: a function of the caller, or one of the two functions that
  \<^verbatim>\<open>networkUpdate\<close> passes on.
\<close>

datatype net_cont = NoCont | UserCont string js | AfterInfo net_cont | AfterBlock net_cont

text \<open>A request in flight, with the continuation its success handler was given.\<close>

datatype net_req = GetInfo net_cont | GetBestBlock net_cont | GetBlock string net_cont

section \<open>Requests\<close>

definition requestNetInfo :: "net_cont \<Rightarrow> net_req list" where
  "requestNetInfo c = [GetInfo c]"

definition requestBestBlock :: "net_cont \<Rightarrow> net_req list" where
  "requestBestBlock c = [GetBestBlock c]"

definition requestBlock :: "string \<Rightarrow> net_cont \<Rightarrow> net_req list" where
  "requestBlock hash c = [GetBlock hash c]"

definition networkUpdate :: "net_cont \<Rightarrow> net_req list" where
  "networkUpdate c = requestNetInfo (AfterInfo c)"

fun net_rpc :: "net_req \<Rightarrow> eff" where
  "net_rpc (GetInfo _) = Rpc ''getinfo'' []"
| "net_rpc (GetBestBlock _) = Rpc ''getbestblockhash'' []"
| "net_rpc (GetBlock hash _) = Rpc ''getblock'' [JStr hash]"

text \<open>The error handlers only log: the continuation is not called.\<close>

fun net_failed :: "net_req \<Rightarrow> eff" where
  "net_failed (GetInfo _) = Log ''Error connecting to local twister daemon.''"
| "net_failed (GetBestBlock _) = Log ''getbestblockhash error''"
| "net_failed (GetBlock _ _) = Log ''requestBlock error''"

section \<open>The check\<close>

text \<open>\<^verbatim>\<open>toFixed(2)\<close> of a number of milliseconds, in days: rounded to hundredths, halves up.\<close>

definition days_toFixed2 :: "int \<Rightarrow> string" where
  "days_toFixed2 ms =
     (let n = (2 * ms + 864000) div (2 * 864000)
      in str_of_int (n div 100) @ ''.'' @ str_of_int (n mod 100 div 10) @ str_of_int (n mod 10))"

definition networkCheck :: "(string \<Rightarrow> string) \<Rightarrow> (string \<Rightarrow> js \<Rightarrow> string) \<Rightarrow> int \<Rightarrow> net_state \<Rightarrow>
    effs \<times> net_state" where
  "networkCheck t tv nowMs st =
     (let lastMs = 1000 * twisterdLastBlockTime st
      in if twisterdConnections st = 0 then ([], st)
         else if lastMs > nowMs + 1000 * 3600
         then (setNetworkStatusMsg (t ''Last block is ahead of your computer time, check your clock.'') False,
               st\<lparr>twisterdConnectedAndUptodate := False\<rparr>)
         else if lastMs > nowMs - 1000 * (2 * 3600)
         then (if twisterDhtNodes st \<noteq> 0
               then (setNetworkStatusMsg (t ''Block chain is up-to-date, twister is ready to use!'') True,
                     st\<lparr>twisterdConnectedAndUptodate := True\<rparr>)
               else (setNetworkStatusMsg (t ''DHT network down.'') False,
                     st\<lparr>twisterdConnectedAndUptodate := True\<rparr>))
         else (setNetworkStatusMsg (tv ''downloading_block_chain''
                  (JObj [(''days'', JStr (days_toFixed2 (nowMs - lastMs)))])) False,
               st\<lparr>twisterdConnectedAndUptodate := False\<rparr>))"

text \<open>Calling a continuation: the effects, the new requests and the state.\<close>

fun net_resume :: "(string \<Rightarrow> string) \<Rightarrow> (string \<Rightarrow> js \<Rightarrow> string) \<Rightarrow> int \<Rightarrow> net_cont \<Rightarrow> net_state \<Rightarrow>
    effs \<times> net_req list \<times> net_state" where
  "net_resume t tv nowMs NoCont st = ([], [], st)"
| "net_resume t tv nowMs (UserCont f a) st = ([Call f [a]], [], st)"
| "net_resume t tv nowMs (AfterInfo c) st = ([], requestBestBlock (AfterBlock c), st)"
| "net_resume t tv nowMs (AfterBlock c) st =
     (let (e, st1) = networkCheck t tv nowMs st;
          (e2, rs, st2) = net_resume t tv nowMs c st1
      in (e @ e2, rs, st2))"

section \<open>Answers\<close>

definition slice_last :: "nat \<Rightarrow> string \<Rightarrow> string" where
  "slice_last n s = drop (length s - n) s"

definition slice :: "nat \<Rightarrow> nat \<Rightarrow> string \<Rightarrow> string" where
  "slice a b s = drop a (take b s)"

definition twisterDisplayVersion :: "int \<Rightarrow> string" where
  "twisterDisplayVersion version =
     (let v = slice_last 8 (''0000000'' @ str_of_int version)
      in slice 0 2 v @ ''.'' @ slice 2 4 v @ ''.'' @ slice 4 6 v @ ''.'' @ slice 6 8 v)"

definition netInfoReceived :: "(string \<Rightarrow> string) \<Rightarrow> net_info \<Rightarrow> net_state \<Rightarrow> effs \<times> net_state" where
  "netInfoReceived t ret st =
     (let st1 = st\<lparr>twisterdConnections := ni_connections ret, twisterdAddrman := ni_addrman_total ret,
                   twisterdBlocks := ni_blocks ret, twisterDhtNodes := ni_dht_nodes ret\<rparr>;
          shown = [Dom ''.connection-count'' ''text'' [JNum (ni_connections ret)],
                   Dom ''.known-peers'' ''text'' [JNum (ni_addrman_total ret)],
                   Dom ''.blocks'' ''text'' [JNum (ni_blocks ret)],
                   Dom ''.dht-nodes'' ''text'' [JNum (ni_dht_nodes ret)],
                   Dom ''.userMenu-dhtindicator a'' ''text'' [JNum (ni_dht_nodes ret)],
                   Dom ''.version'' ''text'' [JStr (twisterDisplayVersion (ni_version ret))]]
      in if ni_connections ret = 0
         then (shown @ setNetworkStatusMsg (t ''Connection lost.'') False,
               st1\<lparr>twisterdConnectedAndUptodate := False\<rparr>)
         else (shown, st1))"

definition blockReceived :: "(int \<Rightarrow> string) \<Rightarrow> int \<Rightarrow> net_state \<Rightarrow> effs \<times> net_state" where
  "blockReceived timeGmtToText block_time st =
     ([Dom ''.last-block-time'' ''text'' [JStr (timeGmtToText block_time)]],
      st\<lparr>twisterdLastBlockTime := block_time\<rparr>)"

text \<open>What the daemon answers a request with.\<close>

datatype net_answer = Info net_info | BestHash string | Block int | Failed

text \<open>
  One answer to a request; the parts that do not fit together do not occur. \<open>env\<close> holds the
  translations and the text of a time.
\<close>

type_synonym net_env = "(string \<Rightarrow> string) \<times> (string \<Rightarrow> js \<Rightarrow> string) \<times> (int \<Rightarrow> string)"

fun net_answered :: "net_env \<Rightarrow> int \<Rightarrow> net_req \<Rightarrow> net_answer \<Rightarrow> net_state \<Rightarrow>
    effs \<times> net_req list \<times> net_state" where
  "net_answered (t, tv, gmt) nowMs (GetInfo c) (Info i) st =
     (let (e, st1) = netInfoReceived t i st; (e2, rs, st2) = net_resume t tv nowMs c st1
      in (e @ e2, rs, st2))"
| "net_answered (t, tv, gmt) nowMs (GetBestBlock c) (BestHash h) st = ([], requestBlock h c, st)"
| "net_answered (t, tv, gmt) nowMs (GetBlock h c) (Block b) st =
     (let (e, st1) = blockReceived gmt b st; (e2, rs, st2) = net_resume t tv nowMs c st1
      in (e @ e2, rs, st2))"
| "net_answered (t, tv, gmt) nowMs q _ st = ([net_failed q], [], st)"

section \<open>Network page\<close>

text \<open>The fields \<^verbatim>\<open>.new-peer-addr\<close>, \<^verbatim>\<open>.new-dns-addr\<close> and so on are arguments.\<close>

definition addrKeypress :: "bool \<Rightarrow> string \<Rightarrow> string \<Rightarrow> effs" where
  "addrKeypress mobile button v = (if v \<noteq> [] then enableButton mobile button else disableButton mobile button)"

definition peerKeypress :: "bool \<Rightarrow> string \<Rightarrow> effs" where
  "peerKeypress mobile peer = addrKeypress mobile ''.add-peer'' peer"

definition dnsKeypress :: "bool \<Rightarrow> string \<Rightarrow> effs" where
  "dnsKeypress mobile peer = addrKeypress mobile ''.add-dns'' peer"

definition addPeerClick :: "string \<Rightarrow> effs" where
  "addPeerClick peer = [Rpc ''addnode'' [JStr peer, JStr ''onetry'']]"

definition addDNSClick :: "string \<Rightarrow> effs" where
  "addDNSClick dns = [Rpc ''adddnsseed'' [JStr dns]]"

text \<open>The handlers of both: \<open>r\<close> is \<open>Some m\<close> for an error with message \<open>m\<close>.\<close>

definition addAddr_reply :: "(string \<Rightarrow> js \<Rightarrow> string) \<Rightarrow> string \<Rightarrow> js option \<Rightarrow> effs" where
  "addAddr_reply tv field r = (case r of
     None \<Rightarrow> [Dom field ''val'' [JStr '''']]
   | Some m \<Rightarrow> [Alert (tv ''error'' (JObj [(''error'', m)]))])"

definition getMiningInfo :: effs where
  "getMiningInfo = [Rpc ''getmininginfo'' []]"

text \<open>\<^verbatim>\<open>miningDifficulty\<close> and \<^verbatim>\<open>miningHashRate\<close> are only shown.\<close>

definition miningInfo_reply :: "(string \<times> js) option \<Rightarrow> (js \<times> js) option \<Rightarrow> effs" where
  "miningInfo_reply cb r = (case r of
     Some (difficulty, hashespersec) \<Rightarrow>
       [Dom ''.mining-difficulty'' ''text'' [difficulty], Dom ''.mining-hashrate'' ''text'' [hashespersec]] @
       (case cb of None \<Rightarrow> [] | Some (f, a) \<Rightarrow> [Call f [a]])
   | None \<Rightarrow> [Log ''Error connecting to local twister daemon.''])"

definition miningUpdate :: effs where
  "miningUpdate = getMiningInfo"

definition getGenerate :: effs where
  "getGenerate = [Rpc ''getgenerate'' []]"

definition getGenerate_reply :: "js option \<Rightarrow> effs" where
  "getGenerate_reply r = (case r of
     Some ret \<Rightarrow> [Dom ''select.genblock'' ''val'' [JStr (if truthy ret then ''enable'' else ''disable'')]]
   | None \<Rightarrow> [Log ''getgenerate error''])"

text \<open>A process limit that is not a number is \<^verbatim>\<open>NaN\<close>, which is \<^verbatim>\<open>null\<close> in the request.\<close>

definition setGenerate :: "string \<Rightarrow> string \<Rightarrow> effs" where
  "setGenerate genblock genproclimit = [Rpc ''setgenerate''
     [JBool (genblock = ''enable''), (case parseInt genproclimit of Some n \<Rightarrow> JNum n | None \<Rightarrow> JNull)]]"

definition setGenerate_reply :: "bool \<Rightarrow> effs" where
  "setGenerate_reply ok = [Log (if ok then ''setgenerate updated'' else ''getgenerate error'')]"

definition getSpamMsg :: effs where
  "getSpamMsg = [Rpc ''getspammsg'' []]"

definition getSpamMsg_reply :: "(js \<times> js) option \<Rightarrow> effs" where
  "getSpamMsg_reply r = (case r of
     Some (user, msg) \<Rightarrow> [Dom ''.spam-msg'' ''val'' [msg],
                          Dom ''select.local-usernames.spam-user'' ''val'' [user]]
   | None \<Rightarrow> [Log ''getgenerate error''])"

definition setSpamMsg :: "js \<Rightarrow> string \<Rightarrow> effs" where
  "setSpamMsg user msg = [Rpc ''setspammsg'' [user, JStr msg]]"

definition setSpamMsg_reply :: "bool \<Rightarrow> effs" where
  "setSpamMsg_reply ok = [Log (if ok then ''setspammsg updated'' else ''setspammsg error'')]"

text \<open>\<open>confirmed\<close> is the answer to the question; \<^verbatim>\<open>stop\<close> is sent without parameters.\<close>

definition exitDaemon :: "bool \<Rightarrow> bool \<Rightarrow> effs" where
  "exitDaemon mobile confirmed =
     (if confirmed
      then [Dom ''.terminate-daemon'' ''text'' [JStr ''Exiting...''],
            Dom ''.terminate-daemon'' ''addClass'' [JStr ''disabled'']] @
           disableButton mobile ''.terminate-daemon'' @ [Rpc ''stop'' []]
      else [])"

definition exitDaemon_reply :: "bool \<Rightarrow> effs" where
  "exitDaemon_reply ok = (if ok then [Log ''daemon exiting'', Timer ''_reload_after_exit'' 2000]
     else [Log ''error while exiting daemon''])"

definition reload_after_exit :: effs where
  "reload_after_exit = [Nav ''/abort.html'']"

definition interfaceNetworkHandlers :: effs where
  "interfaceNetworkHandlers =
     [Dom ''.new-peer-addr'' ''keyup'' [JStr ''peerKeypress''], Dom ''.new-dns-addr'' ''keyup'' [JStr ''dnsKeypress''],
      Dom ''.add-peer'' ''bind'' [JStr ''click'', JStr ''addPeerClick''],
      Dom ''.add-dns'' ''bind'' [JStr ''click'', JStr ''addDNSClick''],
      Dom ''select.genblock'' ''change'' [JStr ''setGenerate''],
      Dom ''.update-spam-msg'' ''bind'' [JStr ''click'', JStr ''setSpamMsg''],
      Dom ''.terminate-daemon'' ''bind'' [JStr ''click'', JStr ''exitDaemon'']]"

text \<open>
  \<^verbatim>\<open>initInterfaceNetwork\<close>, and its callback once the user is known. \<^verbatim>\<open>initInterfaceCommon\<close>, \<^verbatim>\<open>initUser\<close> and
  \<^verbatim>\<open>loadFollowing\<close> are operations of other components.
\<close>

definition initInterfaceNetwork :: effs where
  "initInterfaceNetwork =
     [Call ''initInterfaceCommon'' [], Call ''initUser'' [JStr ''initInterfaceNetwork_user'']] @
     map net_rpc (networkUpdate NoCont) @ [Timer ''networkUpdate()'' 2000] @
     miningUpdate @ [Timer ''miningUpdate()'' 2000] @ getGenerate @ interfaceNetworkHandlers"

definition initInterfaceNetwork_user :: "(string \<Rightarrow> string) \<Rightarrow> js \<Rightarrow> effs" where
  "initInterfaceNetwork_user t me = getSpamMsg @
     (if truthy me then [Call ''loadFollowing'' [JStr ''initMentionsCount'', JStr ''initDMsCount'']]
      else [Dom ''.userMenu-profile > a'' ''text'' [JStr (t ''Login'')],
            Dom ''.userMenu-profile > a'' ''attr'' [JStr ''href'', JStr ''login.html'']])"

section \<open>Properties\<close>

text \<open>
  The checks of the page in any interleaving: the timer starts checks, and the requests in flight are
  answered, or fail, in any order and at any time.
\<close>

inductive net_run :: "net_env \<Rightarrow> net_req list \<Rightarrow> net_state \<Rightarrow> bool" for env where
  start: "net_run env [] net_init"
| tick: "net_run env rs st \<Longrightarrow> net_run env (rs @ networkUpdate c) st"
| answer: "net_run env (as @ q # bs) st \<Longrightarrow> net_answered env nowMs q a st = (e, rs, st') \<Longrightarrow>
    net_run env (as @ bs @ rs) st'"

definition ready_ok :: "net_state \<Rightarrow> bool" where
  "ready_ok st \<longleftrightarrow> (twisterdConnectedAndUptodate st \<longrightarrow> twisterdConnections st \<noteq> 0)"

lemma networkCheck_ready: "ready_ok st \<Longrightarrow> ready_ok (snd (networkCheck t tv nowMs st))"
  by (auto simp: networkCheck_def ready_ok_def Let_def)

lemma net_resume_ready: "ready_ok st \<Longrightarrow> ready_ok (snd (snd (net_resume t tv nowMs c st)))"
  by (induction c arbitrary: st) (simp_all add: split_beta Let_def networkCheck_ready)

lemma received_ready:
  "ready_ok st \<Longrightarrow> ready_ok (snd (netInfoReceived t i st))"
  "ready_ok st \<Longrightarrow> ready_ok (snd (blockReceived gmt b st))"
  by (simp_all add: netInfoReceived_def blockReceived_def ready_ok_def Let_def)

lemma net_answered_ready: "ready_ok st \<Longrightarrow> ready_ok (snd (snd (net_answered env nowMs q a st)))"
  by (induction env nowMs q a st rule: net_answered.induct)
    (simp_all add: split_beta Let_def net_resume_ready received_ready)

text \<open>Answers in the order of the requests.\<close>

fun net_answers :: "net_env \<Rightarrow> (int \<times> net_answer) list \<Rightarrow> effs \<times> net_req list \<times> net_state \<Rightarrow>
    effs \<times> net_req list \<times> net_state" where
  "net_answers env ((nowMs, a) # as) (e, q # qs, st) =
     (let (e2, rs, st2) = net_answered env nowMs q a st in net_answers env as (e @ e2, qs @ rs, st2))"
| "net_answers env _ s = s"

lemma net_run_answers:
  "net_run env rs st \<Longrightarrow> net_answers env as (e, rs, st) = (e', rs', st') \<Longrightarrow> net_run env rs' st'"
proof (induction env as "(e, rs, st)" arbitrary: e rs st rule: net_answers.induct)
  case (1 env nowMs a as e q qs st)
  obtain e2 rs2 st2 where a: "net_answered env nowMs q a st = (e2, rs2, st2)" by (metis prod.collapse)
  with 1 net_run.answer [of env "[]" q qs st nowMs a e2 rs2 st2] show ?case by simp
qed simp_all

text \<open>
  C35. Whatever the order in which the answers to overlapping checks arrive, and whichever of them fail,
  the client considers itself connected and up to date only while the last \<^verbatim>\<open>getinfo\<close> reported a connection.
\<close>

theorem ready_needs_connection:
  assumes "net_run env rs st" and "twisterdConnectedAndUptodate st"
  shows "twisterdConnections st \<noteq> 0"
proof -
  from assms(1) have "ready_ok st"
  proof induction
    case (answer as q bs st nowMs a e rs st')
    then show ?case using net_answered_ready [of st env nowMs q a] by simp
  qed (simp_all add: ready_ok_def net_init_def)
  with assms(2) show ?thesis by (simp add: ready_ok_def)
qed

definition tst_info :: net_info where
  "tst_info = \<lparr>ni_connections = 8, ni_addrman_total = 100, ni_blocks = 5000, ni_dht_nodes = 0, ni_version = 92600\<rparr>"

definition tst_env :: net_env where
  "tst_env = (id, \<lambda>k _. k, \<lambda>_. '''')"

definition tst_ready :: net_state where
  "tst_ready = \<lparr>twisterdConnections = 8, twisterdAddrman = 100, twisterDhtNodes = 0,
     twisterdBlocks = 5000, twisterdLastBlockTime = 1000, twisterdConnectedAndUptodate = True\<rparr>"

lemmas net_defs = networkUpdate_def requestNetInfo_def requestBestBlock_def requestBlock_def
  netInfoReceived_def blockReceived_def networkCheck_def

lemma tst_run: "net_run tst_env [] tst_ready"
proof (rule net_run_answers [OF net_run.tick [OF net_run.start]])
  show "net_answers tst_env [(0, Info tst_info), (0, BestHash ''h''), (1000000, Block 1000)]
      ([], [] @ networkUpdate NoCont, net_init) =
    (fst (net_answers tst_env [(0, Info tst_info), (0, BestHash ''h''), (1000000, Block 1000)]
      ([], [] @ networkUpdate NoCont, net_init)), [], tst_ready)"
    by (simp add: net_defs tst_env_def tst_info_def net_init_def tst_ready_def Let_def)
qed

theorem ready_needs_connection_witness: "twisterdConnections tst_ready \<noteq> 0"
  by (rule ready_needs_connection [OF tst_run]) (simp add: tst_ready_def)

text \<open>What the page shows last: the message of the check, and whether it is shown as connected.\<close>

definition connected_shown :: "effs \<Rightarrow> bool option" where
  "connected_shown es = fold (\<lambda>e shown. case e of
     Dom sel op args \<Rightarrow> if sel = ''.connection-status'' then Some (op = ''addClass'') else shown
   | _ \<Rightarrow> shown) es None"

text \<open>
  A complete check, whatever the state before it: the client counts as connected and up to date exactly when
  there is a connection and the last block is less than two hours old and at most one hour ahead of
  the clock. It is shown as connected exactly when there are DHT nodes as well.
\<close>

theorem network_check:
  "\<exists>e st'. net_answers (t, tv, gmt) [(t1, Info i), (t2, BestHash h), (t3, Block b)]
       ([], networkUpdate NoCont, st) = (e, [], st') \<and>
     twisterdConnectedAndUptodate st' =
       (ni_connections i \<noteq> 0 \<and> 1000 * b \<le> t3 + 3600000 \<and> t3 - 7200000 < 1000 * b) \<and>
     connected_shown e = Some (twisterdConnectedAndUptodate st' \<and> ni_dht_nodes i \<noteq> 0)"
  by (simp add: net_defs Let_def connected_shown_def setNetworkStatusMsg_def)

end
