(* ===== verification/Modal.thy ===== *)
theory Modal
  imports Twister_Network
begin

text \<open>
  The first part of \<^verbatim>\<open>interface_common.js\<close>: modal windows, the question asked when the daemon is not
  ready, and the texts of a time.
\<close>

text \<open>\<open>oldModal\<close>: there is a modal window on the page already.\<close>

definition openModal :: "bool \<Rightarrow> string \<Rightarrow> effs" where
  "openModal oldModal modalClass =
     [Dom ''templateModal'' ''addClass'' [JStr modalClass]] @
     (if oldModal
      then [Dom ''templateModal'' ''show'' [], Dom ''body > .modal-blackout'' ''replaceWith'' [JStr ''templateModal'']]
      else [Dom ''templateModal'' ''prependTo'' [JStr ''body''], Dom ''templateModal'' ''fadeIn'' [JStr ''fast'']]) @
     [Dom ''body'' ''css'' [JObj [(''overflow'', JStr ''hidden'')]]]"

definition closeModal :: effs where
  "closeModal =
     [Dom ''body > .modal-blackout'' ''fadeOut'' [JStr ''fast'', JStr ''detach''],
      Dom ''body'' ''css'' [JObj [(''overflow'', JStr ''auto''), (''margin-right'', JStr ''0'')]]]"

definition checkNetworkStatusAndAskRedirect :: "string \<Rightarrow> js \<Rightarrow> net_req list" where
  "checkNetworkStatusAndAskRedirect f a = networkUpdate (UserCont f a)"

text \<open>The function it passes on; \<open>redirect\<close> is the answer to the question.\<close>

definition askRedirect :: "bool \<Rightarrow> bool \<Rightarrow> (string \<times> js) option \<Rightarrow> net_state \<Rightarrow> effs" where
  "askRedirect mobile redirect cb st =
     (if \<not> twisterdConnectedAndUptodate st
      then (if redirect then goNetwork mobile else [])
      else (case cb of None \<Rightarrow> [] | Some (f, a) \<Rightarrow> [Call f [a]]))"

text \<open>
  \<open>dateString\<close> is \<^verbatim>\<open>Date.prototype.toString\<close> on a time in seconds, which depends on the time zone of
  the browser; from \<^verbatim>\<open>GMT\<close> on it is cut off.
\<close>

definition timeGmtToText :: "(int \<Rightarrow> string) \<Rightarrow> int \<Rightarrow> string" where
  "timeGmtToText dateString t = (case js_indexOf (dateString t) ''GMT'' of
     None \<Rightarrow> dateString t | Some i \<Rightarrow> take i (dateString t))"

text \<open>\<open>tn\<close> is \<^verbatim>\<open>polyglot.t\<close> with a number. The difference is rounded up to seconds.\<close>

definition timeSincePost :: "(string \<Rightarrow> int \<Rightarrow> string) \<Rightarrow> (string \<Rightarrow> js \<Rightarrow> string) \<Rightarrow> int \<Rightarrow> int \<Rightarrow> string" where
  "timeSincePost tn tv nowMs t =
     (let t_delta = - ((1000 * t - nowMs) div 1000);
          expression =
            (if t_delta < 60 then tn ''seconds'' t_delta
             else if t_delta < 60 * 60 then tn ''minutes'' (t_delta div 60)
             else if t_delta < 24 * 60 * 60 then tn ''hours'' (t_delta div 60 div 60)
             else tn ''days'' (t_delta div 24 div 60 div 60))
      in tv ''time_ago'' (JObj [(''time'', JStr expression)]))"

end
