(* ===== verification/Twister_Directmsg.thy ===== *)
theory Twister_Directmsg
  imports Twister_Timeline Modal
begin

text \<open>
  \<^verbatim>\<open>twister_directmsg.js\<close>: the list of threads, a conversation and the sending of direct messages.
  A conversation on the page is the list of its items, each with its \<^verbatim>\<open>data-id\<close>.
\<close>

section \<open>List of threads\<close>

definition requestDMsnippetList :: "string \<Rightarrow> string list \<Rightarrow> effs" where
  "requestDMsnippetList me followingUsers = [Rpc ''getdirectmsgs'' [JStr me, JNum 1,
     JArr (map (\<lambda>u. JObj [(''username'', JStr u)]) followingUsers)]]"

definition snippet_time :: "dm_snippet \<Rightarrow> int option" where
  "snippet_time i = Some (sn_time i)"

text \<open>The loop of \<^verbatim>\<open>processDMsnippet\<close>: the first message of every user, in time order.\<close>

fun addSnippets :: "fmt_env \<Rightarrow> dm_data list obj \<Rightarrow> dm_snippet list \<Rightarrow> dm_snippet list result" where
  "addSnippets env [] items = Inr items"
| "addSnippets env ((u, ds) # us) items = (case ds of
     [] \<Rightarrow> Inl TypeErr
   | d # _ \<Rightarrow> addSnippets env us (fst (insert_or_append snippet_time (dmDataToSnippetItem env d u) items)))"

definition processDMsnippet :: "bool \<Rightarrow> fmt_env \<Rightarrow> dm_data list obj \<Rightarrow> (effs \<times> dm_snippet list) result" where
  "processDMsnippet mobile env dmUsers =
     rbind (addSnippets env dmUsers []) (\<lambda>items. Inr (dmThreadListLoaded mobile, items))"

section \<open>Conversation\<close>

type_synonym convo = "(int \<times> dm_item) list"

text \<open>\<^verbatim>\<open>since_id\<close> is the id of the last item on the page.\<close>

definition requestDmConversation :: "string \<Rightarrow> string \<Rightarrow> convo \<Rightarrow> effs" where
  "requestDmConversation me dm_screenname items =
     [Rpc ''getdirectmsgs'' [JStr me, JNum 100,
        JArr [JObj ((''username'', JStr dm_screenname) #
          (if items = [] then [] else [(''since_id'', JNum (fst (last items)))]))]]]"

definition requestDmConversation_failed :: "(string \<Rightarrow> js \<Rightarrow> string) \<Rightarrow> js \<Rightarrow> effs result" where
  "requestDmConversation_failed tv ret = rbind (js_in ''message'' ret) (\<lambda>b.
     rbind (if b then js_prop ret ''message'' else Inr ret) (\<lambda>msg.
     Inr [Alert (tv ''ajax_error'' (JObj [(''error'', msg)]))]))"

text \<open>\<open>hidden\<close>: the modal window around the conversation is not displayed.\<close>

definition requestDmConversationModal :: "bool \<Rightarrow> string \<Rightarrow> string \<Rightarrow> convo \<Rightarrow> effs" where
  "requestDmConversationModal hidden me dm_screenname items =
     (if hidden then []
      else requestDmConversation me dm_screenname items @ [Timer ''requestDmConversationModal'' 1000])"

definition openDmConversation :: "bool \<Rightarrow> string \<Rightarrow> string \<Rightarrow> effs \<times> convo" where
  "openDmConversation hidden me dm_screenname =
     ([Call ''getFullname'' [JStr dm_screenname],
       Dom ''.directMessages'' ''attr'' [JStr ''data-dm-screen-name'', JStr dm_screenname]] @
      requestDmConversationModal hidden me dm_screenname [], [])"

definition conversationItems :: "fmt_env \<Rightarrow> string \<Rightarrow> string \<Rightarrow> dm_data list \<Rightarrow> convo" where
  "conversationItems env me dm_screenname dmList =
     map (\<lambda>d. (dm_id d, dmDataToConversationItem env d me dm_screenname)) dmList"

definition processDmConversation :: "ui \<Rightarrow> fmt_env \<Rightarrow> string \<Rightarrow> string \<Rightarrow> dm_data list obj \<Rightarrow> convo \<Rightarrow>
    newmsgs_state \<Rightarrow> store \<Rightarrow> (effs \<times> convo \<times> newmsgs_state \<times> store) result" where
  "processDmConversation u env me dm_screenname dmData items st s =
     (case oget dmData dm_screenname of
        None \<Rightarrow> Inr ([], items, st, s)
      | Some dmList \<Rightarrow>
          if dmList = [] then Inr ([], items, st, s)
          else rbind (resetNewDMsCountForUser u me dm_screenname (dm_id (last dmList)) st s) (\<lambda>(e, st', s').
            Inr (dmChatListLoaded (ui_mobile u) @ e,
                 items @ conversationItems env me dm_screenname dmList, st', s')))"

section \<open>Sending\<close>

text \<open>\<^verbatim>\<open>lastPostId + 1\<close> as a parameter: \<^verbatim>\<open>NaN\<close> is \<^verbatim>\<open>null\<close> in the request.\<close>

definition nextPostId :: "post_id \<Rightarrow> js" where
  "nextPostId p = (case p of Id n \<Rightarrow> JNum (n + 1) | _ \<Rightarrow> JNull)"

text \<open>
  What \<^verbatim>\<open>newDirectMsg\<close>, \<^verbatim>\<open>newPostMsg\<close> and \<^verbatim>\<open>newRtMsg\<close> have in common: the request with the next id, or
  the message that no id is known. On success \<^verbatim>\<open>incLastPostId()\<close> is called.
\<close>

abbreviation lastPostId_unknown :: string where
  "lastPostId_unknown \<equiv> ''Internal error: lastPostId unknown (following yourself may fix!)''"

definition submitWithId :: "(string \<Rightarrow> string) \<Rightarrow> string \<Rightarrow> user_state \<Rightarrow> js list \<Rightarrow> effs" where
  "submitWithId t rpc us rest =
     (if lastPostId us \<noteq> NoId
      then [Rpc rpc ([defaultScreenName us, nextPostId (lastPostId us)] @ rest)]
      else [Alert (t lastPostId_unknown)])"

definition newDirectMsg :: "(string \<Rightarrow> string) \<Rightarrow> user_state \<Rightarrow> string \<Rightarrow> string \<Rightarrow> effs" where
  "newDirectMsg t us msg dm_screenname = submitWithId t ''newdirectmsg'' us [JStr dm_screenname, JStr msg]"

definition newDirectMsg_failed :: "js \<Rightarrow> effs result" where
  "newDirectMsg_failed ret = rbind (js_in ''message'' ret) (\<lambda>b.
     rbind (if b then js_prop ret ''message'' else Inr ret) (\<lambda>msg. Inr [Alert (''Ajax error: '' @ js_string msg)]))"

definition directMsgSubmit :: "(string \<Rightarrow> string) \<Rightarrow> user_state \<Rightarrow> string \<Rightarrow> string \<Rightarrow> effs" where
  "directMsgSubmit t us text dm_screenname =
     newDirectMsg t us text dm_screenname @ [Dom ''.post-area-new textarea'' ''val'' [JStr '''']]"

section \<open>Modal windows\<close>

definition directMessagesPopup :: "(string \<Rightarrow> string) \<Rightarrow> bool \<Rightarrow> js \<Rightarrow> string list \<Rightarrow> effs" where
  "directMessagesPopup t oldModal me followingUsers =
     (if \<not> truthy me then [Alert (t ''You have to log in to use direct messages.'')]
      else openModal oldModal ''directMessages'' @
        [Dom ''.direct-messages-template'' ''appendTo'' [JStr ''.directMessages .modal-content''],
         Dom ''.directMessages h3'' ''text'' [JStr (t ''Direct Messages'')]] @
        requestDMsnippetList (js_string me) followingUsers @
        [Dom ''.modal-back'' ''css'' [JStr ''display'', JStr ''inline''],
         Dom ''.mark-all-as-read'' ''css'' [JStr ''display'', JStr ''inline''],
         Dom ''.mark-all-as-read'' ''attr'' [JStr ''title'', JStr (t ''Mark all as read'')],
         Dom ''.mark-all-as-read'' ''on'' [JStr ''click'', JStr ''markAllAsRead'']])"

text \<open>The function bound to \<^verbatim>\<open>.mark-all-as-read\<close>.\<close>

definition markAllAsRead :: "ui \<Rightarrow> string \<Rightarrow> newmsgs_state \<Rightarrow> store \<Rightarrow> (effs \<times> newmsgs_state \<times> store) result" where
  "markAllAsRead u me st s =
     (let st' = st\<lparr>newDMsPerUser := map (\<lambda>(k, _). (k, 0)) (newDMsPerUser st)\<rparr>
      in rbind (saveDMsToStorage me st' s) (\<lambda>s'.
         Inr (updateNewDMsUI (ui_mobile u) (ui_dmCounters u) (getNewDMsCount st'), st', s')))"

definition openDmWithUserModal :: "bool \<Rightarrow> bool \<Rightarrow> string \<Rightarrow> string \<Rightarrow> effs \<times> convo" where
  "openDmWithUserModal oldModal hidden me dm_screenname =
     (let (e, items) = openDmConversation hidden me dm_screenname
      in (openModal oldModal ''directMessages'' @
          [Dom ''.messages-thread-template'' ''appendTo'' [JStr ''.directMessages .modal-content''],
           Dom ''.directMessages h3'' ''html'' [JStr ''Direct messages with <span></span>'']] @ e @
          [Dom ''.dm-form-template'' ''addClass'' [JStr ''open''],
           Dom ''.dm-form-template'' ''appendTo'' [JStr ''.directMessages .modal-wrapper'']], items))"

definition hideDmSnippetShowDmThread :: "bool \<Rightarrow> bool \<Rightarrow> string \<Rightarrow> string \<Rightarrow> effs \<times> convo" where
  "hideDmSnippetShowDmThread oldModal hidden me dm_screenname =
     (let (e, items) = openDmWithUserModal oldModal hidden me dm_screenname
      in (Dom ''.direct-messages-list'' ''hide'' [] # e, items))"

definition directMessagesWithUserPopup :: "(string \<Rightarrow> string) \<Rightarrow> bool \<Rightarrow> bool \<Rightarrow> js \<Rightarrow> string \<Rightarrow>
    effs \<times> convo option" where
  "directMessagesWithUserPopup t oldModal hidden me dm_screenname =
     (if \<not> truthy me then ([Alert (t ''You have to log in to use direct messages.'')], None)
      else let (e, items) = openDmWithUserModal oldModal hidden (js_string me) dm_screenname in (e, Some items))"

definition initInterfaceDirectMsg :: effs where
  "initInterfaceDirectMsg =
     [Dom ''.direct-messages'' ''bind'' [JStr ''click'', JStr ''directMessagesPopup''],
      Dom ''#dm-snippet-template'' ''bind'' [JStr ''click'', JStr ''hideDmSnippetShowDmThread''],
      Dom ''.dm-submit'' ''click'' [JStr ''directMsgSubmit''],
      Dom ''.userMenu-messages a'' ''bind'' [JStr ''click'', JStr ''directMessagesPopup''],
      Dom ''.direct-messages-with-user'' ''bind'' [JStr ''click'', JStr ''directMessagesWithUserPopup'']]"

section \<open>Properties\<close>

definition snippet_of :: "fmt_env \<Rightarrow> string \<times> dm_data list \<Rightarrow> dm_snippet" where
  "snippet_of env ud = dmDataToSnippetItem env (hd (snd ud)) (fst ud)"

lemma addSnippets_fold:
  "list_all (\<lambda>(u, ds). ds \<noteq> []) us \<Longrightarrow> addSnippets env us items =
     Inr (fold (\<lambda>x ys. fst (insert_or_append snippet_time x ys)) (map (snippet_of env) us) items)"
  by (induction env us items rule: addSnippets.induct) (auto simp: snippet_of_def split: list.splits)

lemma appended_shown: "snd (insert_or_append tm x ys)"
  by (simp add: insert_or_append_def split: option.split)

lemma snippet_timed: "list_all (\<lambda>x. snippet_time x \<noteq> None) xs"
  by (simp add: list_all_iff snippet_time_def)

text \<open>
  The list of threads shows exactly one item for every user of the answer, and the items are in the order of
  their times, latest first.
\<close>

theorem dm_threads_sorted:
  assumes "list_all (\<lambda>(u, ds). ds \<noteq> []) dmUsers"
  shows "\<exists>items. processDMsnippet mobile env dmUsers = Inr (dmThreadListLoaded mobile, items) \<and>
    by_time snippet_time items \<and>
    mset items = mset (map (\<lambda>(u, ds). dmDataToSnippetItem env (hd ds) u) dmUsers)"
proof -
  let ?items = "fold (\<lambda>x ys. fst (insert_or_append snippet_time x ys)) (map (snippet_of env) dmUsers) []"
  have "processDMsnippet mobile env dmUsers = Inr (dmThreadListLoaded mobile, ?items)"
    by (simp add: processDMsnippet_def addSnippets_fold [OF assms])
  moreover have "by_time snippet_time ?items"
    using appended.inserts_sorted [OF snippet_timed, of "[]"] by simp
  moreover have "mset ?items = mset (map (snippet_of env) dmUsers)"
    by (subst appended.inserts_mset [OF appended_shown snippet_timed]) simp
  moreover have "snippet_of env = (\<lambda>(u, ds). dmDataToSnippetItem env (hd ds) u)"
    by (auto simp: snippet_of_def)
  ultimately show ?thesis by metis
qed

definition tst_dm :: "int \<Rightarrow> int \<Rightarrow> dm_data" where
  "tst_dm i t = \<lparr>dm_id = i, dm_time = t, dm_text = ''hi'', dm_fromMe = False\<rparr>"

theorem dm_threads_sorted_witness:
  "\<exists>items. processDMsnippet False ex_env [(''a'', [tst_dm 3 100]), (''b'', [tst_dm 7 200])] = Inr ([], items) \<and>
    by_time snippet_time items \<and> length items = 2"
proof -
  obtain items where i: "processDMsnippet False ex_env [(''a'', [tst_dm 3 100]), (''b'', [tst_dm 7 200])] =
      Inr (dmThreadListLoaded False, items)" "by_time snippet_time items"
    "mset items = mset (map (\<lambda>(u, ds). dmDataToSnippetItem ex_env (hd ds) u)
      [(''a'', [tst_dm 3 100]), (''b'', [tst_dm 7 200])])"
    using dm_threads_sorted [of "[(''a'', [tst_dm 3 100]), (''b'', [tst_dm 7 200])]" False ex_env] by auto
  from arg_cong [OF i(3), of size] have "length items = 2" by simp
  with i show ?thesis by (simp add: dmThreadListLoaded_def)
qed

lemma conversation_ids [simp]: "map fst (conversationItems env me u ds) = map dm_id ds"
  by (simp add: conversationItems_def)

text \<open>The counters and the storage are such that the counters can be saved.\<close>

definition dm_storable :: "string \<Rightarrow> newmsgs_state \<Rightarrow> store \<Rightarrow> bool" where
  "dm_storable me st s \<longleftrightarrow> me \<noteq> [] \<and> (oget s me = None \<or> ns_ok me s) \<and>
     distinct (okeys (lastDMIdPerUser st)) \<and> distinct (okeys (newDMsPerUser st))"

lemma saveDMs_ok:
  assumes "dm_storable me st s"
  shows "\<exists>s'. saveDMsToStorage me st s = Inr s' \<and> dm_storable me st s'"
proof -
  let ?kvs = "[(''lastDMIdPerUser'', js_of_obj JNum (lastDMIdPerUser st)),
    (''newDMsPerUser'', js_of_obj JNum (newDMsPerUser st))]"
  have "list_all (\<lambda>(k, v). jsonable v) ?kvs"
    using assms by (auto intro!: jsonable_js_of_obj simp: list_all_iff dm_storable_def)
  with save_load [of me s ?kvs, OF _ _ _ this] assms show ?thesis
    by (auto simp: saveDMsToStorage_def dm_storable_def)
qed

definition dm_read :: "string \<Rightarrow> int \<Rightarrow> newmsgs_state \<Rightarrow> newmsgs_state" where
  "dm_read u i st = st\<lparr>newDMsPerUser := oset (newDMsPerUser st) u 0,
     lastDMIdPerUser := oset (lastDMIdPerUser st) u i\<rparr>"

lemma processDmConversation_answer:
  assumes "dm_storable me st s" and "oget dmData u = Some ds" and "ds \<noteq> []"
  shows "\<exists>e s'. processDmConversation ui env me u dmData items st s =
      Inr (e, items @ conversationItems env me u ds, dm_read u (dm_id (last ds)) st, s') \<and>
    dm_storable me (dm_read u (dm_id (last ds)) st) s'"
proof -
  have "dm_storable me (dm_read u (dm_id (last ds)) st) s"
    using assms(1) by (auto simp: dm_storable_def dm_read_def)
  from saveDMs_ok [OF this] assms(2,3) show ?thesis
    by (auto simp: processDmConversation_def resetNewDMsCountForUser_def Let_def dm_read_def)
qed

lemma sorted_wrt_extend:
  assumes "sorted_wrt (<) (map f xs)" and "sorted_wrt (<) (map g ys)"
    and "xs = [] \<or> list_all (\<lambda>y. f (last xs) < g y) ys"
  shows "sorted_wrt (<) (map f xs @ map g ys :: int list)"
proof -
  have "x \<le> f (last xs)" if "x \<in> set (map f xs)" for x
  proof -
    from that have ne: "map f xs \<noteq> []" by auto
    then obtain zs z where z: "map f xs = zs @ [z]" by (metis rev_exhaust)
    with ne have "z = f (last xs)" by (metis Nil_is_map_conv last_map last_snoc)
    with that z assms(1) show ?thesis by (auto simp: sorted_wrt_append)
  qed
  with assms show ?thesis by (fastforce simp: sorted_wrt_append list_all_iff)
qed

text \<open>
  C27. A conversation stays in the order of the message ids, without a message shown twice, as long as
  every answer is handled before the next request is sent and holds, in ascending order, only messages above the \<^verbatim>\<open>since_id\<close>
  of its request. The new messages are appended, and the conversation counts as read up to the last of
  them.
\<close>

theorem dm_conversation_in_order:
  assumes "dm_storable me st s" and "oget dmData u = Some ds" and "ds \<noteq> []"
    and "sorted_wrt (<) (map fst items)" and "sorted_wrt (<) (map dm_id ds)"
    and "items = [] \<or> list_all (\<lambda>d. fst (last items) < dm_id d) ds"
  shows "\<exists>e items' st' s'. processDmConversation ui env me u dmData items st s = Inr (e, items', st', s') \<and>
    map fst items' = map fst items @ map dm_id ds \<and> sorted_wrt (<) (map fst items') \<and>
    oget (newDMsPerUser st') u = Some 0 \<and> oget (lastDMIdPerUser st') u = Some (dm_id (last ds))"
proof -
  have "sorted_wrt (<) (map fst (items @ conversationItems env me u ds))"
    using sorted_wrt_extend [of fst items dm_id ds] assms(4,5,6) by simp
  with processDmConversation_answer [OF assms(1,2,3), of ui env items] show ?thesis
    by (fastforce simp: dm_read_def oget_oset)
qed

definition tst_ui :: ui where
  "tst_ui = \<lparr>ui_mobile = False, ui_mpeg = True, ui_dmCounters = []\<rparr>"

lemma tst_storable: "dm_storable ''bob'' newmsgs_init []"
  by (simp add: dm_storable_def newmsgs_init_def)

theorem dm_conversation_in_order_witness:
  "\<exists>e items' st' s'. processDmConversation tst_ui ex_env ''bob'' ''eve'' [(''eve'', [tst_dm 3 100, tst_dm 4 200])]
     [] newmsgs_init [] = Inr (e, items', st', s') \<and> map fst items' = [3, 4] \<and>
     oget (lastDMIdPerUser st') ''eve'' = Some 4"
  using dm_conversation_in_order [OF tst_storable, of "[(''eve'', [tst_dm 3 100, tst_dm 4 200])]" "''eve''"
      "[tst_dm 3 100, tst_dm 4 200]" "[]" tst_ui ex_env]
  by (auto simp: tst_dm_def)

text \<open>
  The conversation is polled every second, whether or not the last answer has arrived. When two
  polls with the same \<^verbatim>\<open>since_id\<close> are answered with the same messages, every one of these is shown twice.
\<close>

theorem dm_polls_duplicate:
  assumes "dm_storable me st s" and "oget dmData u = Some ds" and "ds \<noteq> []"
  shows "\<exists>e1 items1 st1 s1 e2 items2 st2 s2.
    processDmConversation ui env me u dmData items st s = Inr (e1, items1, st1, s1) \<and>
    processDmConversation ui env me u dmData items1 st1 s1 = Inr (e2, items2, st2, s2) \<and>
    map fst items2 = map fst items @ map dm_id ds @ map dm_id ds"
proof -
  obtain e1 s1 where 1: "processDmConversation ui env me u dmData items st s =
      Inr (e1, items @ conversationItems env me u ds, dm_read u (dm_id (last ds)) st, s1)"
    "dm_storable me (dm_read u (dm_id (last ds)) st) s1"
    using processDmConversation_answer [OF assms] by blast
  from processDmConversation_answer [OF 1(2) assms(2,3), of ui env "items @ conversationItems env me u ds"] 1(1)
  show ?thesis by fastforce
qed

theorem dm_polls_duplicate_witness:
  "\<exists>e1 items1 st1 s1 e2 items2 st2 s2.
    processDmConversation tst_ui ex_env ''bob'' ''eve'' [(''eve'', [tst_dm 3 100])] [] newmsgs_init [] =
      Inr (e1, items1, st1, s1) \<and>
    processDmConversation tst_ui ex_env ''bob'' ''eve'' [(''eve'', [tst_dm 3 100])] items1 st1 s1 =
      Inr (e2, items2, st2, s2) \<and> map fst items2 = [3, 3]"
  using dm_polls_duplicate [OF tst_storable, of "[(''eve'', [tst_dm 3 100])]" "''eve''" "[tst_dm 3 100]"
      tst_ui ex_env "[]"]
  by (auto simp: tst_dm_def)

lemma zeros_sum: "sum_list (map snd (map (\<lambda>(k, _). (k, 0 :: int)) m)) = 0"
  by (induction m) auto

lemma markAllAsRead_count:
  "markAllAsRead u me st s = Inr (e, st', s') \<Longrightarrow> getNewDMsCount st' = 0"
  by (auto simp: markAllAsRead_def Let_def getNewDMsCount_def rbind_Inr_iff zeros_sum simp del: map_map)

end
