(* ===== verification/Twister_Actions.thy ===== *)
theory Twister_Actions
  imports Twister_Directmsg
begin

text \<open>
  \<^verbatim>\<open>twister_actions.js\<close>: conversations around a post, the posts of a profile, sending posts and
  retransmissions, hashtag pages. A list of posts on the page is a list of \<open>elem\<close>s. A request to the DHT
  is the effect \<open>Call ''dhtget''\<close>; its callback is the definition that follows it. The callback gets
  \<^verbatim>\<open>null\<close> (\<open>None\<close>) when the daemon does not answer or has no value.
\<close>

definition maxExpandPost :: nat where
  "maxExpandPost = 20"

abbreviation dhtget_eff :: "string \<Rightarrow> string \<Rightarrow> string \<Rightarrow> eff" where
  "dhtget_eff username resource multi \<equiv> Call ''dhtget'' [JStr username, JStr resource, JStr multi]"

section \<open>Conversations\<close>

text \<open>
  \<open>board\<close> is the list the post \<open>el\<close> is in, so that it has \<open>length board - 1\<close> siblings. \<open>None\<close>: nothing is
  requested.
\<close>

definition requestRepliedBefore :: "elem list \<Rightarrow> elem \<Rightarrow> (string \<times> string) option" where
  "requestRepliedBefore board el =
     (if length board - 1 \<ge> maxExpandPost then None
      else (case el_replied_to el of
              None \<Rightarrow> None
            | Some (n, k) \<Rightarrow> Some (n, ''post'' @ str_of_int k)))"

text \<open>Its callback: the post is put before \<open>postLi\<close>, the item at place \<open>i\<close>.\<close>

definition repliedBefore :: "fmt_env \<Rightarrow> elem list \<Rightarrow> nat \<Rightarrow> post option \<Rightarrow> (elem list \<times> elem) result" where
  "repliedBefore env board i p = (case p of
     None \<Rightarrow> Inl TypeErr
   | Some p \<Rightarrow> rbind (postToElem env p ''related'') (\<lambda>el. Inr (take i board @ [el] @ drop i board, el)))"

text \<open>
  The chain of requests, with the answers of the DHT as the function \<open>dht\<close>: each new post is the next
  \<^verbatim>\<open>postLi\<close>, at the same place. The number of requests is the second component.
\<close>

function expandBefore :: "fmt_env \<Rightarrow> (string \<Rightarrow> string \<Rightarrow> post option) \<Rightarrow> elem list \<Rightarrow> nat \<Rightarrow> elem \<Rightarrow>
    elem list \<times> nat" where
  "expandBefore env dht board i el = (case requestRepliedBefore board el of
     None \<Rightarrow> (board, 0)
   | Some (n, r) \<Rightarrow> (case repliedBefore env board i (dht n r) of
       Inl _ \<Rightarrow> (board, 1)
     | Inr (board', el') \<Rightarrow> (let (b, k) = expandBefore env dht board' i el' in (b, Suc k))))"
  by pat_completeness auto
termination
proof (relation "measure (\<lambda>(env, dht, board, i, el). Suc maxExpandPost - length board)", goal_cases)
  case (2 env dht board i el q n r x board' el')
  then have "length board - 1 < maxExpandPost"
    by (auto simp: requestRepliedBefore_def split: if_splits)
  moreover from 2 have "length board' = Suc (length board)"
    by (auto simp: repliedBefore_def rbind_Inr_iff split: option.splits)
  ultimately show ?case by simp
qed simp

declare expandBefore.simps [simp del]

definition requestRepliesAfter :: "elem list \<Rightarrow> elem \<Rightarrow> (string \<times> string) option" where
  "requestRepliesAfter board el =
     (if length board - 1 \<ge> maxExpandPost then None
      else Some (el_screen_name el, ''replies'' @ str_of_int (el_id el)))"

text \<open>Every reply goes directly after the post, at place \<open>i\<close>.\<close>

fun repliesAfter :: "fmt_env \<Rightarrow> nat \<Rightarrow> post list \<Rightarrow> elem list \<Rightarrow> elem list result" where
  "repliesAfter env i [] board = Inr board"
| "repliesAfter env i (p # ps) board =
     rbind (postToElem env p ''related'') (\<lambda>el. repliesAfter env i ps (take (Suc i) board @ [el] @ drop (Suc i) board))"

definition requestRTs :: "elem \<Rightarrow> effs" where
  "requestRTs el = [dhtget_eff (el_screen_name el) (''rts'' @ str_of_int (el_id el)) ''m'']"

definition rts_shown :: "post list option \<Rightarrow> effs result" where
  "rts_shown posts = (case posts of
     None \<Rightarrow> Inl TypeErr
   | Some ps \<Rightarrow> Inr (if ps = [] then []
       else [Dom ''.stat-count-value'' ''text'' [JNum (int (length ps))], Dom ''.avatar-row'' ''empty'' []] @
         concat (map (\<lambda>p. let n = up_n (userpost_of p) in
           [Dom ''#avatar-row-template'' ''attr'' [JStr ''href'', JStr (userUrl n)],
            Call ''getFullname'' [JStr n], Call ''getAvatar'' [JStr n], Dom ''.avatar-row'' ''append'' [JStr n]])
           (take 8 ps)) @
         [Dom ''.post-stats'' ''slideDown'' [JStr ''fast'']]))"

section \<open>Posts of a profile\<close>

text \<open>
  The resource \<^verbatim>\<open>requestPostRecursively\<close> asks for. With an empty argument it goes on after the last post
  on the page; a missing \<^verbatim>\<open>data-lastk\<close> gives the text \<^verbatim>\<open>undefined\<close>, as does an empty page.
\<close>

definition post_resource :: "elem list \<Rightarrow> string \<Rightarrow> string" where
  "post_resource board resource =
     (if resource = [] \<and> board \<noteq> []
      then ''post'' @ (case el_lastk (last board) of Some k \<Rightarrow> str_of_int k | None \<Rightarrow> ''undefined'')
      else resource)"

definition lastk_of :: "userpost \<Rightarrow> int" where
  "lastk_of up = (case up_lastk up of Some k \<Rightarrow> k | None \<Rightarrow> up_k up - 1)"

text \<open>
  The callback: the new list, the next request (user, resource, count) and \<^verbatim>\<open>profilePostsLoading\<close>. The
  variable is set when a request is sent.
\<close>

definition postReceived :: "fmt_env \<Rightarrow> nat \<Rightarrow> post option \<Rightarrow> elem list \<Rightarrow>
    (elem list \<times> (string \<times> string \<times> nat) option \<times> bool) result" where
  "postReceived env cnt p board = (case p of
     None \<Rightarrow> Inr (board, None, False)
   | Some p \<Rightarrow> rbind (postToElem env p ''original'') (\<lambda>el.
       let up = userpost_of p
       in if cnt > 1
          then Inr (board @ [el], Some (up_n up, ''post'' @ str_of_int (lastk_of up), cnt - 1), True)
          else Inr (board @ [el], None, False)))"

text \<open>All the requests, with the answers of the DHT; the posts shown and the final flag.\<close>

function requestPostRecursively :: "fmt_env \<Rightarrow> (string \<Rightarrow> string \<Rightarrow> post option) \<Rightarrow> elem list \<Rightarrow> string \<Rightarrow>
    string \<Rightarrow> nat \<Rightarrow> (elem list \<times> bool) result" where
  "requestPostRecursively env dht board username resource cnt =
     (case postReceived env cnt (dht username (post_resource board resource)) board of
        Inl err \<Rightarrow> Inl err
      | Inr (board', nxt, loading) \<Rightarrow> (case nxt of
          None \<Rightarrow> Inr (board', loading)
        | Some (n, r, c) \<Rightarrow> requestPostRecursively env dht board' n r c))"
  by pat_completeness auto
termination
  by (relation "measure (\<lambda>(env, dht, board, username, resource, cnt). cnt)")
    (auto simp: postReceived_def rbind_Inr_iff Let_def split: option.splits if_splits)

declare requestPostRecursively.simps [simp del]

section \<open>Posting\<close>

text \<open>
  The parameters of a reply name the post that is replied to: the attributes \<^verbatim>\<open>data-screen-name\<close> and
  \<^verbatim>\<open>data-id\<close> of its element, the latter \<open>None\<close> when it is not a number (\<^verbatim>\<open>null\<close> in the request).
\<close>

definition newPostMsg :: "(string \<Rightarrow> string) \<Rightarrow> user_state \<Rightarrow> string \<Rightarrow> (string \<times> int option) option \<Rightarrow> effs" where
  "newPostMsg t us msg postOrig = submitWithId t ''newpostmsg'' us (JStr msg #
     (case postOrig of
        None \<Rightarrow> []
      | Some (n, k) \<Rightarrow> [JStr n, (case k of Some i \<Rightarrow> JNum i | None \<Rightarrow> JNull)]))"

definition reply_target :: "elem \<Rightarrow> string \<times> int option" where
  "reply_target el = (el_screen_name el, Some (el_id el))"

definition post_failed :: "(string \<Rightarrow> js \<Rightarrow> string) \<Rightarrow> js \<Rightarrow> effs result" where
  "post_failed tv ret = rbind (js_in ''message'' ret) (\<lambda>b.
     rbind (if b then js_prop ret ''message'' else Inr ret) (\<lambda>msg.
     Inr [Alert (tv ''ajax_error'' (JObj [(''error'', msg)]))]))"

text \<open>\<^verbatim>\<open>$.evalJSON\<close> raises an exception on text that is not JSON, as \<^verbatim>\<open>"undefined"\<close> is.\<close>

definition newRtMsg :: "(string \<Rightarrow> string) \<Rightarrow> user_state \<Rightarrow> elem \<Rightarrow> effs result" where
  "newRtMsg t us el =
     (case json_parse (case el_content_to_rt el of Some x \<Rightarrow> x | None \<Rightarrow> ''undefined'') of
        None \<Rightarrow> Inl (Thrown ''SyntaxError'')
      | Some up \<Rightarrow> Inr (submitWithId t ''newrtmsg'' us
          [JObj [(''sig_userpost'', JStr (js_string (el_content_to_sigrt el))), (''userpost'', up)]]))"

section \<open>Profiles\<close>

definition updateProfileData :: "string \<Rightarrow> effs" where
  "updateProfileData username =
     [Dom ''.profile-card'' ''attr'' [JStr ''data-screen-name'', JStr username],
      Dom ''.profile-screen-name b'' ''text'' [JStr username],
      Dom ''a.follow'' ''attr'' [JStr ''href'', JStr (followUrl username)],
      Dom ''a.direct-messages-with-user'' ''attr'' [JStr ''href'', JStr (dmchatUrl username)],
      Dom ''a.new-post-to'' ''attr'' [JStr ''href'', JStr (newPostToUrl username)],
      Dom ''a.mentions-from-user'' ''attr'' [JStr ''href'', JStr (mentionsUrl username)]] @
     map (\<lambda>f. Call f [JStr username]) [''getFullname'', ''getLocation'', ''getWebpage'', ''getBio'', ''getTox'',
       ''getBitmessage'', ''getAvatar'', ''getPostsCount'', ''getFollowers'', ''getNumFollowing'', ''getWhoFollows''] @
     [Dom ''.following-count'' ''attr'' [JStr ''href'', JStr (followingUrl username)],
      Call ''requestPostRecursively'' [JStr username, JStr ''status'', JNum 10],
      Dom ''.postboard-posts'' ''scroll'' [JStr ''profileScroll'']]"

text \<open>The scroll handler it installs: \<open>bottom\<close> says that the end of the list is near.\<close>

definition profileScroll :: "bool \<Rightarrow> bool \<Rightarrow> string \<Rightarrow> effs" where
  "profileScroll profilePostsLoading bottom username =
     (if \<not> profilePostsLoading \<and> bottom
      then [Call ''requestPostRecursively'' [JStr username, JStr '''', JNum 10]] else [])"

definition updateFollowingData :: "string \<Rightarrow> effs" where
  "updateFollowingData username =
     [Dom ''.following-screen-name b'' ''text'' [JStr username], Call ''loadFollowingIntoList'' [JStr username]]"

section \<open>Hashtags\<close>

record hashtag_state =
  hashtagProcessedMap :: "bool obj"
  hashtagPendingPosts :: "post list"
  autoUpdateHashtag :: bool

definition clearHashtagProcessed :: "hashtag_state \<Rightarrow> hashtag_state" where
  "clearHashtagProcessed st = st\<lparr>hashtagProcessedMap := [], hashtagPendingPosts := []\<rparr>"

definition requestHashtag :: "string \<Rightarrow> string \<Rightarrow> effs" where
  "requestHashtag hashtag resource = [Call ''dhtget'' [JStr hashtag, JStr resource, JStr ''m'',
     JArr [JNum 10000, JNum 2000, JNum 3]]]"

definition hashtag_key :: "post \<Rightarrow> string" where
  "hashtag_key p = up_n (userpost_of p) @ '';'' @ str_of_int (up_time (userpost_of p))"

definition hashtagPost :: "post \<Rightarrow> hashtag_state \<Rightarrow> hashtag_state" where
  "hashtagPost p st =
     (if ohas (hashtagProcessedMap st) (hashtag_key p) then st
      else st\<lparr>hashtagProcessedMap := oset (hashtagProcessedMap st) (hashtag_key p) True,
              hashtagPendingPosts := hashtagPendingPosts st @ [p]\<rparr>)"

text \<open>
  The place of a post is found with the time of its \<^verbatim>\<open>userpost\<close>; the times it is compared with are the
  \<^verbatim>\<open>data-time\<close>s that \<^verbatim>\<open>postToElem\<close> has set.
\<close>

definition board_insert :: "int \<Rightarrow> elem \<Rightarrow> elem list \<Rightarrow> elem list" where
  "board_insert t el board = (case insert_before (\<lambda>e. Some (el_time e)) t el board of
     Some board' \<Rightarrow> board' | None \<Rightarrow> board @ [el])"

fun displayPosts :: "fmt_env \<Rightarrow> post list \<Rightarrow> elem list \<Rightarrow> elem list result" where
  "displayPosts env [] board = Inr board"
| "displayPosts env (p # ps) board = rbind (postToElem env p ''original'') (\<lambda>el.
     displayPosts env ps (board_insert (up_time (userpost_of p)) el board))"

definition displayHashtagPending :: "bool \<times> string \<Rightarrow> fmt_env \<Rightarrow> elem list \<Rightarrow> hashtag_state \<Rightarrow>
    (effs \<times> elem list \<times> hashtag_state) result" where
  "displayHashtagPending pg env board st =
     rbind (displayPosts env (hashtagPendingPosts st) board) (\<lambda>board'.
       Inr (postboardLoaded (fst pg) (snd pg), board', st\<lparr>hashtagPendingPosts := []\<rparr>))"

definition hide_no_posts :: "string \<Rightarrow> eff" where
  "hide_no_posts op = Dom ''.no-posts-found-message'' op []"

definition processHashtag :: "bool \<times> string \<Rightarrow> (string \<Rightarrow> int \<Rightarrow> string) \<Rightarrow> fmt_env \<Rightarrow> post list option \<Rightarrow>
    elem list \<Rightarrow> hashtag_state \<Rightarrow> (effs \<times> elem list \<times> hashtag_state) result" where
  "processHashtag pg tn env posts board st = (case posts of
     None \<Rightarrow> Inr ([], board, st)
   | Some ps \<Rightarrow>
       let st1 = fold hashtagPost (rev ps) st;
           n = length (hashtagPendingPosts st1);
           none = (if board = [] \<and> n = 0 then [hide_no_posts ''show''] else [])
       in if n = 0 then Inr (none, board, st1)
          else if board = [] \<or> autoUpdateHashtag st1
          then rbind (displayHashtagPending pg env board st1) (\<lambda>(e, board', st2).
               Inr (none @ e @ [hide_no_posts ''hide''], board', st2))
          else Inr (none @ [Dom ''.postboard-news'' ''text'' [JStr (tn ''new_posts'' (int n))],
                 Dom ''.postboard-news'' ''fadeIn'' [JStr ''slow''], hide_no_posts ''hide''], board, st1))"

section \<open>Properties\<close>

subsection \<open>Conversations\<close>

lemma repliedBefore_Inr:
  "repliedBefore env board i p = Inr (board', el) \<Longrightarrow> board' = take i board @ [el] @ drop i board"
  by (auto simp: repliedBefore_def rbind_Inr_iff split: option.splits)

lemma requestRepliedBefore_room:
  "requestRepliedBefore board el = Some q \<Longrightarrow> length board \<le> maxExpandPost"
  by (auto simp: requestRepliedBefore_def maxExpandPost_def split: if_splits)

lemma insert_inside:
  "\<exists>new'. take i (take i xs @ [x] @ drop i xs) @ new @ drop i (take i xs @ [x] @ drop i xs) =
     take i xs @ new' @ drop i xs \<and> length new' = Suc (length new)"
proof (cases "i \<le> length xs")
  case True
  then show ?thesis by (intro exI [of _ "new @ [x]"]) simp
next
  case False
  then obtain d where d: "i - length xs = Suc d" by (metis diff_is_0_eq not0_implies_Suc)
  with False show ?thesis by (intro exI [of _ "x # new"]) simp
qed

text \<open>
  C29. Expanding a conversation ends, whatever the DHT answers, even when replies form a cycle: with \<open>n\<close>
  posts in the list at most \<open>maxExpandPost + 1 - n\<close> requests are made, and the posts that were in the
  list stay in their order around the new ones.
\<close>

theorem reply_chain_bounded:
  "snd (expandBefore env dht board i el) \<le> maxExpandPost + 1 - length board \<and>
   (\<exists>new. fst (expandBefore env dht board i el) = take i board @ new @ drop i board \<and>
     length new \<le> snd (expandBefore env dht board i el))"
proof (induction env dht board i el rule: expandBefore.induct)
  case (1 env dht board i el)
  show ?case
  proof (cases "requestRepliedBefore board el")
    case None
    then show ?thesis by (simp add: expandBefore.simps [of env dht board i el])
  next
    case (Some q)
    obtain n r where q: "q = (n, r)" by (cases q)
    note room = requestRepliedBefore_room [OF Some]
    show ?thesis
    proof (cases "repliedBefore env board i (dht n r)")
      case (Inl err)
      with Some q room show ?thesis
        by (auto simp: expandBefore.simps [of env dht board i el] intro!: exI [of _ "[]"])
    next
      case (Inr x)
      obtain board' el' where x: "x = (board', el')" by (cases x)
      note b' = repliedBefore_Inr [OF Inr [unfolded x]]
      have eq: "expandBefore env dht board i el = (fst (expandBefore env dht board' i el'),
          Suc (snd (expandBefore env dht board' i el')))"
        using Some q Inr x by (simp add: expandBefore.simps [of env dht board i el] split_beta)
      obtain new where IH: "snd (expandBefore env dht board' i el') \<le> maxExpandPost + 1 - length board'"
        "fst (expandBefore env dht board' i el') = take i board' @ new @ drop i board'"
        "length new \<le> snd (expandBefore env dht board' i el')"
        using "1.IH" [OF Some q [symmetric] Inr x [symmetric]] by blast
      obtain new' where "take i board' @ new @ drop i board' = take i board @ new' @ drop i board"
        "length new' = Suc (length new)" using insert_inside [of i board el' new] b' by auto
      moreover have "length board' = Suc (length board)" using b' by simp
      ultimately show ?thesis using eq IH room by (auto intro!: exI [of _ new'])
    qed
  qed
qed

lemma repliesAfter_reversed:
  "repliesAfter env i ps board = Inr board' \<Longrightarrow> i < length board \<Longrightarrow>
   \<exists>els. length els = length ps \<and> board' = take (Suc i) board @ rev els @ drop (Suc i) board"
proof (induction ps arbitrary: board)
  case (Cons p ps)
  from Cons.prems obtain el where el: "postToElem env p ''related'' = Inr el"
    "repliesAfter env i ps (take (Suc i) board @ [el] @ drop (Suc i) board) = Inr board'"
    by (auto simp: rbind_Inr_iff)
  have "i < length (take (Suc i) board @ [el] @ drop (Suc i) board)" using Cons.prems(2) by simp
  from Cons.IH [OF el(2) this] Cons.prems(2) obtain els where "length els = length ps"
    "board' = take (Suc i) board @ rev els @ el # drop (Suc i) board" by auto
  then show ?case by (intro exI [of _ "el # els"]) simp
qed simp

subsection \<open>Profiles\<close>

lemma postReceived_board:
  "postReceived env cnt p board = Inr (board', nxt, loading) \<Longrightarrow>
   (\<exists>new. board' = board @ new \<and> length new \<le> 1) \<and> (nxt = None \<longrightarrow> \<not> loading) \<and>
   (\<forall>n r c. nxt = Some (n, r, c) \<longrightarrow> c = cnt - 1 \<and> 1 < cnt)"
  by (auto simp: postReceived_def rbind_Inr_iff Let_def split: option.splits if_splits)

lemma profile_posts_bounded:
  "requestPostRecursively env dht board u r cnt = Inr (board', loading) \<Longrightarrow>
   \<not> loading \<and> (\<exists>new. board' = board @ new \<and> length new \<le> max 1 cnt)"
proof (induction env dht board u r cnt rule: requestPostRecursively.induct)
  case (1 env dht board u r cnt)
  obtain b1 nxt l1 where p: "postReceived env cnt (dht u (post_resource board r)) board = Inr (b1, nxt, l1)"
    using "1.prems" by (subst (asm) requestPostRecursively.simps) (auto split: sum.splits)
  obtain new1 where n1: "b1 = board @ new1" "length new1 \<le> 1" using postReceived_board [OF p] by blast
  show ?case
  proof (cases nxt)
    case None
    with p "1.prems" have "board' = b1" "loading = l1" by (simp_all add: requestPostRecursively.simps)
    with n1 postReceived_board [OF p] None show ?thesis by auto
  next
    case (Some q)
    obtain n r' c where q: "q = (n, r', c)" by (cases q)
    with Some p have "requestPostRecursively env dht b1 n r' c = Inr (board', loading)"
      using "1.prems" by (simp add: requestPostRecursively.simps [of env dht board])
    from "1.IH" [OF p refl refl Some [unfolded q] refl refl this] obtain new where
      "\<not> loading" "board' = b1 @ new" "length new \<le> max 1 c" by blast
    then show ?thesis using n1 postReceived_board [OF p] Some q by auto
  qed
qed

subsection \<open>Retransmission\<close>

text \<open>The signed post that a retransmission passes on.\<close>

definition original_js :: "post \<Rightarrow> js" where
  "original_js p = (case up_rt (userpost_of p) of Some rt \<Rightarrow> rt_js rt | None \<Rightarrow> up_js (userpost_of p))"

definition original_sig :: "post \<Rightarrow> js" where
  "original_sig p = (case up_rt (userpost_of p) of Some rt \<Rightarrow> up_sig_rt (userpost_of p) | None \<Rightarrow> sig_userpost p)"

lemma postToElem_rt:
  "postToElem env p kind = Inr el \<Longrightarrow>
   el_content_to_rt el = toJSON (original_js p) \<and> el_content_to_sigrt el = original_sig p"
  by (auto simp: postToElem_def original_js_def original_sig_def Let_def split: option.splits prod.splits)

text \<open>
  Retransmitting a post shown on the page sends the original post, exactly as it was received, with
  its author's signature: the object survives being stored as JSON text in the element. For a
  retransmission it is the post inside.
\<close>

theorem retransmit_original:
  assumes "postToElem env p kind = Inr el" and "jsonable (original_js p)"
    and "original_sig p = JStr sig" and "lastPostId us = Id n"
  shows "newRtMsg t us el = Inr [Rpc ''newrtmsg'' [defaultScreenName us, JNum (n + 1),
    JObj [(''sig_userpost'', JStr sig), (''userpost'', original_js p)]]]"
  using postToElem_rt [OF assms(1)] assms(2-4)
  by (simp add: newRtMsg_def toJSON_json json_parse_json submitWithId_def nextPostId_def)

definition ex_signed :: post where
  "ex_signed = \<lparr>userpost_of = \<lparr>up_n = ''bob'', up_k = 3, up_time = 100, up_msg = Some ''hello'',
     up_lastk = None, up_reply = None, up_rt = None, up_sig_rt = JUndef,
     up_js = JObj [(''n'', JStr ''bob''), (''k'', JNum 3)]\<rparr>, sig_userpost = JStr ''sig'', post_js = JNull\<rparr>"

theorem retransmit_original_witness:
  "\<exists>el. postToElem ex_env ex_signed ''original'' = Inr el \<and>
     newRtMsg id (user_init\<lparr>defaultScreenName := JStr ''me'', lastPostId := Id 6\<rparr>) el =
       Inr [Rpc ''newrtmsg'' [JStr ''me'', JNum 7, JObj [(''sig_userpost'', JStr ''sig''),
         (''userpost'', JObj [(''n'', JStr ''bob''), (''k'', JNum 3)])]]]"
proof -
  have "\<exists>el. postToElem ex_env ex_signed ''original'' = Inr el"
    by (simp add: postToElem_def ex_signed_def ex_env_def Let_def split_beta)
  then show ?thesis
    using retransmit_original [of ex_env ex_signed "''original''" _ "''sig''"
        "user_init\<lparr>defaultScreenName := JStr ''me'', lastPostId := Id 6\<rparr>" 6 id]
    by (auto simp: original_js_def original_sig_def ex_signed_def user_init_def)
qed

subsection \<open>Hashtag pages\<close>

lemma hashtagPost_known: "ohas (hashtagProcessedMap st) (hashtag_key p) \<Longrightarrow> hashtagPost p st = st"
  by (simp add: hashtagPost_def)

lemma hashtagPost_keys:
  "ohas (hashtagProcessedMap (hashtagPost p st)) k \<longleftrightarrow> k = hashtag_key p \<or> ohas (hashtagProcessedMap st) k"
  by (auto simp: hashtagPost_def ohas_iff)

lemma hashtagPosts_keys:
  "ohas (hashtagProcessedMap (fold hashtagPost ps st)) k \<longleftrightarrow>
   k \<in> hashtag_key ` set ps \<or> ohas (hashtagProcessedMap st) k"
  by (induction ps arbitrary: st) (auto simp: hashtagPost_keys)

lemma hashtagPosts_known:
  "(\<forall>p \<in> set ps. ohas (hashtagProcessedMap st) (hashtag_key p)) \<Longrightarrow> fold hashtagPost ps st = st"
  by (induction ps) (auto simp: hashtagPost_known)

lemma processHashtag_cases:
  assumes "processHashtag pg tn env (Some ps) board st = Inr (e, board', st')"
    and "st1 = fold hashtagPost (rev ps) st"
  obtains (same) "board' = board" "st' = st1" "hashtagPendingPosts st1 = [] \<or> board \<noteq> [] \<and> \<not> autoUpdateHashtag st1"
    | (shown) "displayPosts env (hashtagPendingPosts st1) board = Inr board'" "st' = st1\<lparr>hashtagPendingPosts := []\<rparr>"
proof (cases "hashtagPendingPosts st1 = [] \<or> board \<noteq> [] \<and> \<not> autoUpdateHashtag st1")
  case True
  with assms have "board' = board" "st' = st1"
    by (auto simp: processHashtag_def Let_def split: if_splits)
  with True show ?thesis using same by blast
next
  case False
  with assms obtain e0 where "displayHashtagPending pg env board st1 = Inr (e0, board', st')"
    by (auto simp: processHashtag_def Let_def rbind_Inr_iff split: if_splits)
  then show ?thesis using shown by (simp add: displayHashtagPending_def rbind_Inr_iff)
qed

text \<open>
  A post is added to a hashtag page once: handling the same answer again, as every poll does, changes
  neither the page nor the posts waiting to be shown.
\<close>

theorem hashtag_added_once:
  assumes "processHashtag pg tn env posts board st = Inr (e, board', st')"
  shows "\<exists>e'. processHashtag pg tn env posts board' st' = Inr (e', board', st')"
proof (cases posts)
  case None
  with assms show ?thesis by (auto simp: processHashtag_def)
next
  case (Some ps)
  let ?st1 = "fold hashtagPost (rev ps) st"
  have known: "fold hashtagPost (rev ps) (?st1\<lparr>hashtagPendingPosts := x\<rparr>) = ?st1\<lparr>hashtagPendingPosts := x\<rparr>" for x
    by (rule hashtagPosts_known) (auto simp: hashtagPosts_keys)
  have known1: "fold hashtagPost (rev ps) ?st1 = ?st1"
    by (rule hashtagPosts_known) (auto simp: hashtagPosts_keys)
  show ?thesis
  proof (rule processHashtag_cases [OF assms [unfolded Some] refl], goal_cases same shown)
    case same
    then show ?thesis using known1 by (auto simp: processHashtag_def Some Let_def)
  next
    case shown
    then show ?thesis using known [of "[]"] by (simp add: processHashtag_def Some Let_def)
  qed
qed

definition ex_hashtag :: hashtag_state where
  "ex_hashtag = \<lparr>hashtagProcessedMap = [], hashtagPendingPosts = [], autoUpdateHashtag = False\<rparr>"

lemma ex_elem: "\<exists>el. postToElem ex_env (ex_post k t) ''original'' = Inr el"
  by (simp add: postToElem_def ex_post_def ex_env_def Let_def split_beta)

theorem hashtag_added_once_witness:
  "\<exists>e board st. processHashtag (False, '''') (\<lambda>s n. s) ex_env (Some [ex_post 1 100]) [] ex_hashtag =
       Inr (e, board, st) \<and> length board = 1 \<and>
     (\<exists>e'. processHashtag (False, '''') (\<lambda>s n. s) ex_env (Some [ex_post 1 100]) board st = Inr (e', board, st))"
proof -
  have "\<exists>e board st. processHashtag (False, '''') (\<lambda>s n. s) ex_env (Some [ex_post 1 100]) [] ex_hashtag =
      Inr (e, board, st) \<and> length board = 1"
    using ex_elem [of 1 100] by (auto simp: processHashtag_def displayHashtagPending_def ex_hashtag_def Let_def
        hashtagPost_def ohas_def board_insert_def)
  with hashtag_added_once show ?thesis by blast
qed

definition no_rt :: "post \<Rightarrow> bool" where
  "no_rt p \<longleftrightarrow> up_rt (userpost_of p) = None"

definition hashtag_ok :: "elem list \<Rightarrow> hashtag_state \<Rightarrow> bool" where
  "hashtag_ok board st \<longleftrightarrow> by_time (\<lambda>e. Some (el_time e)) board \<and> list_all no_rt (hashtagPendingPosts st)"

lemma postToElem_time: "postToElem env p kind = Inr el \<Longrightarrow> no_rt p \<Longrightarrow> el_time el = up_time (userpost_of p)"
  by (auto simp: postToElem_def no_rt_def Let_def split: option.splits prod.splits)

lemma board_insert_eq:
  "t = el_time el \<Longrightarrow> board_insert t el board = fst (insert_or_append (\<lambda>e. Some (el_time e)) el board)"
  by (simp add: board_insert_def insert_or_append_def split: option.split)

lemma displayPosts_sorted:
  "displayPosts env ps board = Inr board' \<Longrightarrow> list_all no_rt ps \<Longrightarrow> by_time (\<lambda>e. Some (el_time e)) board \<Longrightarrow>
   by_time (\<lambda>e. Some (el_time e)) board'"
proof (induction env ps board rule: displayPosts.induct)
  case (2 env p ps board)
  from "2.prems" obtain el where el: "postToElem env p ''original'' = Inr el"
    "displayPosts env ps (board_insert (up_time (userpost_of p)) el board) = Inr board'" "no_rt p"
    by (auto simp: rbind_Inr_iff)
  have "by_time (\<lambda>e. Some (el_time e)) (board_insert (up_time (userpost_of p)) el board)"
    using postToElem_time [OF el(1,3)] appended.ins_sorted [of "\<lambda>e. Some (el_time e)" el board] "2.prems"(3)
    by (simp add: board_insert_eq del: by_time_simps)
  with "2.IH" [OF el(2)] "2.prems"(2) show ?case by simp
qed simp

lemma hashtagPosts_pending:
  "list_all no_rt ps \<Longrightarrow> list_all no_rt (hashtagPendingPosts st) \<Longrightarrow>
   list_all no_rt (hashtagPendingPosts (fold hashtagPost ps st))"
  by (induction ps arbitrary: st) (auto simp: hashtagPost_def)

text \<open>
  A hashtag page keeps the order of the times, latest first, whatever the order in which the answers
  arrive and whether posts are shown at once or wait for a click, as long as none is a retransmission.
\<close>

theorem hashtag_page_sorted:
  assumes "processHashtag pg tn env posts board st = Inr (e, board', st')"
    and "hashtag_ok board st" and "posts \<noteq> None \<longrightarrow> list_all no_rt (the posts)"
  shows "hashtag_ok board' st'"
proof (cases posts)
  case None
  with assms show ?thesis by (auto simp: processHashtag_def)
next
  case (Some ps)
  let ?st1 = "fold hashtagPost (rev ps) st"
  have pending: "list_all no_rt (hashtagPendingPosts ?st1)"
    using hashtagPosts_pending [of "rev ps" st] assms(2,3) Some by (simp add: hashtag_ok_def list_all_iff)
  show ?thesis
  proof (rule processHashtag_cases [OF assms(1) [unfolded Some] refl], goal_cases same shown)
    case same
    with pending assms(2) show ?thesis by (simp add: hashtag_ok_def)
  next
    case shown
    with pending assms(2) displayPosts_sorted [OF shown(1)] show ?thesis by (simp add: hashtag_ok_def)
  qed
qed

theorem hashtag_page_sorted_witness:
  "\<exists>e board st. processHashtag (False, '''') (\<lambda>s n. s) ex_env (Some [ex_post 1 100, ex_post 2 200]) [] ex_hashtag =
     Inr (e, board, st) \<and> hashtag_ok board st"
proof -
  have "hashtag_key (ex_post 1 100) \<noteq> hashtag_key (ex_post 2 200)"
    by (simp add: hashtag_key_def str_of_int_def str_of_nat.simps digit_char_def)
  moreover obtain a b where "postToElem ex_env (ex_post 1 100) ''original'' = Inr a"
    "postToElem ex_env (ex_post 2 200) ''original'' = Inr b" using ex_elem by blast
  ultimately obtain e board st where p: "processHashtag (False, '''') (\<lambda>s n. s) ex_env
      (Some [ex_post 1 100, ex_post 2 200]) [] ex_hashtag = Inr (e, board, st)"
    by (simp add: processHashtag_def displayHashtagPending_def ex_hashtag_def Let_def hashtagPost_def ohas_def)
  have "hashtag_ok [] ex_hashtag" by (simp add: hashtag_ok_def ex_hashtag_def)
  moreover have "list_all no_rt (the (Some [ex_post 1 100, ex_post 2 200]))"
    by (simp add: no_rt_def ex_post_def)
  ultimately show ?thesis using hashtag_page_sorted [OF p] p by blast
qed

end
