(* ===== verification/Post_Compose.thy ===== *)
theory Post_Compose
  imports Twister_Actions
begin

text \<open>
  The part of \<^verbatim>\<open>interface_common.js\<close> that composes posts: counting characters, splitting a long text over
  several text areas (\<^verbatim>\<open>replyTextKeypress\<close>) and sending the parts one after the other (\<^verbatim>\<open>postSubmit\<close>).
  \<open>reply_to\<close> is the attribute \<^verbatim>\<open>data-reply-to\<close> of the text area, the mentions a reply begins with. The
  values of the text areas of the form are a list of strings.
\<close>

section \<open>Strings\<close>

definition is_ws :: "char \<Rightarrow> bool" where
  "is_ws c = ((of_char c :: nat) \<in> {9, 10, 11, 12, 13, 32, 160})"

definition js_trim :: "string \<Rightarrow> string" where
  "js_trim s = rev (dropWhile is_ws (rev (dropWhile is_ws s)))"

text \<open>\<^verbatim>\<open>s.substr(a)\<close> and \<^verbatim>\<open>s.substr(0, n)\<close>: a negative start counts from the end, a negative length is 0.\<close>

definition substr_from :: "string \<Rightarrow> int \<Rightarrow> string" where
  "substr_from s a = (if a \<ge> 0 then drop (nat a) s else drop (length s - nat (- a)) s)"

definition substr_to :: "string \<Rightarrow> int \<Rightarrow> string" where
  "substr_to s n = take (nat n) s"

text \<open>\<^verbatim>\<open>s.lastIndexOf(c, i)\<close>; a negative \<open>i\<close> is read as 0.\<close>

fun last_index :: "string \<Rightarrow> char \<Rightarrow> nat \<Rightarrow> int" where
  "last_index s c 0 = (if s \<noteq> [] \<and> s ! 0 = c then 0 else -1)"
| "last_index s c (Suc i) = (if Suc i < length s \<and> s ! Suc i = c then int (Suc i) else last_index s c i)"

definition lastIndexOf :: "string \<Rightarrow> char \<Rightarrow> int \<Rightarrow> int" where
  "lastIndexOf s c i = last_index s c (nat i)"

section \<open>Composing\<close>

text \<open>
  \<^verbatim>\<open>RegExp('^.{0,max}(' + ml + ')')\<close>, where \<open>ml\<close> is the alternative of the mentions; these are user names, in
  which no character is special. A quantifier with a negative bound is taken literally.
\<close>

definition checkPostForMentions :: "string \<Rightarrow> string \<Rightarrow> int \<Rightarrow> bool" where
  "checkPostForMentions post mentions maxlen =
     (let alts = js_split (CHR '' '') (js_trim mentions);
          dot = (\<lambda>c. c \<noteq> CHR 0x0A \<and> c \<noteq> CHR 0x0D)
      in if maxlen \<ge> 0
         then list_ex (\<lambda>k. k \<le> length post \<and> list_all dot (take k post) \<and>
                list_ex (\<lambda>a. has_prefix a (drop k post)) alts) [0..<Suc (nat maxlen)]
         else (case post of
                 [] \<Rightarrow> False
               | c # cs \<Rightarrow> dot c \<and> list_ex (\<lambda>a. has_prefix (''{0,'' @ str_of_int maxlen @ ''}'' @ a) cs) alts))"

text \<open>
  Whether a text is split, decided when the text area opens: \<open>isReply\<close> says that there is a post that the
  new one replies to.
\<close>

definition usePostSpliting :: "store \<Rightarrow> bool \<Rightarrow> bool" where
  "usePostSpliting s isReply =
     (if getSplitPostsOpt s = JStr ''enable'' then True
      else if getSplitPostsOpt s = JStr ''only-new'' then \<not> isReply
      else False)"

text \<open>\<open>opened\<close>: the area was open already; \<open>split\<close> is the variable \<^verbatim>\<open>usePostSpliting\<close>.\<close>

definition composeNewPost :: "store \<Rightarrow> bool \<Rightarrow> bool \<Rightarrow> string option \<Rightarrow> string \<Rightarrow> bool \<Rightarrow> effs \<times> string \<times> bool" where
  "composeNewPost s opened isReply reply_to val split =
     ((if opened then []
       else [Dom ''.post-area-new'' ''addClass'' [JStr ''open''],
             Dom ''.post-area-new'' ''clickoutside'' [JStr ''unfocusThis'']]) @ [Dom ''textarea'' ''focus'' []],
      (case reply_to of Some r \<Rightarrow> if r \<noteq> [] \<and> val = [] then r else val | None \<Rightarrow> val),
      if opened then split else usePostSpliting s isReply)"

definition unfocusThis :: effs where
  "unfocusThis = [Dom ''this'' ''removeClass'' [JStr ''open'']]"

section \<open>Splitting\<close>

text \<open>The room in part \<open>i\<close> of \<open>n\<close>: the number of the part, the mentions it still needs.\<close>

definition digits :: "nat \<Rightarrow> int" where
  "digits n = int (length (str_of_nat n))"

definition part_limit :: "string option \<Rightarrow> nat \<Rightarrow> nat \<Rightarrow> string \<Rightarrow> int" where
  "part_limit reply_to n i v =
     (let pml = 140 - digits (i + 1) - digits n - 4
      in case reply_to of
           None \<Rightarrow> pml
         | Some r \<Rightarrow> if checkPostForMentions v r (pml - int (length r)) then pml else pml - int (length r))"

text \<open>The separators of the text in order, \<^verbatim>\<open>match(/ |,|;|.../g)\<close>.\<close>

definition endings :: "string \<Rightarrow> string" where
  "endings v = filter name_end v"

text \<open>The loop over the endings from the last but one; the list is the endings still to be tried.\<close>

fun back_to :: "string \<Rightarrow> int \<Rightarrow> char list \<Rightarrow> int \<Rightarrow> int" where
  "back_to v pml [] ci = ci"
| "back_to v pml (e # es) ci = (if ci > pml then back_to v pml es (lastIndexOf v e (ci - 1)) else ci)"

definition split_point :: "string \<Rightarrow> int \<Rightarrow> int result" where
  "split_point v pml = (case rev (endings v) of
     [] \<Rightarrow> Inl TypeErr
   | e # es \<Rightarrow> (let ci = back_to v pml es (lastIndexOf v e (int (length v)))
                in Inr (if ci > pml then pml else ci)))"

text \<open>One round of the loop, for text area \<open>i\<close>.\<close>

definition splitStep :: "string option \<Rightarrow> nat \<Rightarrow> string list \<Rightarrow> string list result" where
  "splitStep reply_to i ts =
     (let v = ts ! i; pml = part_limit reply_to (length ts) i v
      in if int (length v) > pml
         then rbind (split_point v pml) (\<lambda>ci.
                if i < length ts - 1
                then Inr (ts[i := substr_to v ci, Suc i := substr_from v ci @ ts ! Suc i])
                else Inr (ts[i := substr_to v ci] @ [substr_from v ci]))
         else if length ts > 1 \<and> v = []
         then (if i = length ts - 1 then Inr (butlast ts) else Inr (take i ts @ drop (Suc i) ts))
         else Inr ts)"

text \<open>
  The loop runs until it has passed the last text area, of which there may be more after every round.
  \<open>None\<close>: not finished after \<open>fuel\<close> rounds.
\<close>

fun splitLoop :: "nat \<Rightarrow> string option \<Rightarrow> nat \<Rightarrow> string list \<Rightarrow> string list result option" where
  "splitLoop 0 reply_to i ts = None"
| "splitLoop (Suc fuel) reply_to i ts =
     (if i < length ts
      then (case splitStep reply_to i ts of
              Inl e \<Rightarrow> Some (Inl e)
            | Inr ts' \<Rightarrow> splitLoop fuel reply_to (Suc i) ts')
      else Some (Inr ts))"

declare splitLoop.simps [simp del]

text \<open>The characters that remain, after the loop: for the last part, or for the only one.\<close>

definition remaining :: "string option \<Rightarrow> bool \<Rightarrow> string list \<Rightarrow> string \<Rightarrow> int" where
  "remaining reply_to split ts val =
     (if split
      then let v = last ts; c = 140 - int (length v) - 2 * digits (length ts) - 4
           in (case reply_to of
                 None \<Rightarrow> c
               | Some r \<Rightarrow> if checkPostForMentions v r (140 - c - int (length r)) then c else c - int (length r))
      else 140 - int (length val))"

text \<open>
  The counter and the button, for the value \<open>val\<close> of the text area after the loop; \<open>button\<close> is
  \<^verbatim>\<open>.post-submit\<close> or \<^verbatim>\<open>.dm-submit\<close>.
\<close>

definition showRemaining :: "bool \<Rightarrow> string \<Rightarrow> string option \<Rightarrow> bool \<Rightarrow> string list \<Rightarrow> string \<Rightarrow> effs" where
  "showRemaining mobile button reply_to split ts val =
     (let c = remaining reply_to split ts val
      in [Dom ''.post-area-remaining'' (if c < 0 then ''addClass'' else ''removeClass'') [JStr ''warn''],
          Dom ''.post-area-remaining'' ''text'' [JStr (if split
            then str_of_nat (length ts) @ ''. post: '' @ str_of_int c else str_of_int c)]] @
         (if 0 \<le> c \<and> c < 140 \<and> reply_to \<noteq> Some val then enableButton mobile button else disableButton mobile button))"

text \<open>
  The end of the handler: whether the key sends the post. \<open>menuHidden\<close>: the completion menu is closed;
  \<open>disabled\<close>: the button is. The value is trimmed first.
\<close>

definition enterPressed :: "store \<Rightarrow> bool \<Rightarrow> int \<Rightarrow> bool \<Rightarrow> bool" where
  "enterPressed s menuHidden keyCode metaOrCtrl =
     (keyCode = 13 \<and> (if keyEnterToSend s then menuHidden \<and> \<not> metaOrCtrl else metaOrCtrl))"

definition sendKey :: "store \<Rightarrow> bool \<Rightarrow> int \<Rightarrow> bool \<Rightarrow> string \<Rightarrow> bool \<Rightarrow> string \<Rightarrow> effs \<times> string" where
  "sendKey s menuHidden keyCode metaOrCtrl button disabled val =
     (if enterPressed s menuHidden keyCode metaOrCtrl
      then (if disabled then [] else [Dom button ''click'' []], js_trim val)
      else ([], val))"

section \<open>Sending\<close>

definition part_text :: "string option \<Rightarrow> string \<Rightarrow> int \<Rightarrow> nat \<Rightarrow> string" where
  "part_text reply_to v k n =
     (case reply_to of
        None \<Rightarrow> v
      | Some r \<Rightarrow> if checkPostForMentions v r 140 then v else r @ v) @
     '' ('' @ str_of_int k @ ''/'' @ str_of_nat n @ '')''"

text \<open>What follows the last part.\<close>

definition messageSent :: "(string \<Rightarrow> string) \<Rightarrow> effs" where
  "messageSent t =
     [Dom ''textarea'' ''val'' [JStr ''''],
      Dom ''textarea'' ''attr'' [JStr ''placeholder'', JStr (t ''Your message was sent!'')],
      Dom ''.post-area-remaining'' ''text'' [JNum 140],
      Dom ''textarea'' ''attr'' [JStr ''placeholder'', JStr ''Your message was sent!'']] @
     closeModal @
     [Dom ''.post-area-new'' ''removeClass'' [JStr ''open''], Dom ''.post-area-new textarea'' ''blur'' [],
      Timer ''requestTimelineUpdate latest'' 1000]"

text \<open>
  \<^verbatim>\<open>postSubmit\<close> with the text areas \<open>ts\<close> that are left, of which there is at least one, and
  \<^verbatim>\<open>splitedPostsCount\<close> = \<open>n\<close>. Every part but the first replies to the last post of the user. The result:
  the effects, the new count, the text areas left, and whether the timer will call it again.
\<close>

definition postSubmit :: "(string \<Rightarrow> string) \<Rightarrow> user_state \<Rightarrow> string option \<Rightarrow> (string \<times> int option) option \<Rightarrow> nat \<Rightarrow>
    string list \<Rightarrow> effs \<times> nat \<times> string list \<times> bool" where
  "postSubmit t us reply_to postOrig n ts =
     (let orig = (if n > 1 \<and> length ts < n
                  then Some (js_string (defaultScreenName us), (case lastPostId us of Id i \<Rightarrow> Some i | _ \<Rightarrow> None))
                  else postOrig)
      in if length ts \<le> 1
         then (newPostMsg t us (if n > 1 then part_text reply_to (hd ts) (int n) n else hd ts) orig @ messageSent t,
               1, map (\<lambda>_. '''') ts, False)
         else (newPostMsg t us (part_text reply_to (hd ts) (int n - int (length ts) + 1) n) orig @
                 [Timer ''postSubmit'' 1000],
               n, tl ts, True))"

definition retweetSubmit :: "(string \<Rightarrow> string) \<Rightarrow> user_state \<Rightarrow> elem \<Rightarrow> effs result" where
  "retweetSubmit t us el = rbind (newRtMsg t us el) (\<lambda>e. Inr (e @ closeModal))"

text \<open>The calls of \<^verbatim>\<open>postSubmit\<close> one after the other, with the state of the user at each.\<close>

fun submitRun :: "(string \<Rightarrow> string) \<Rightarrow> string option \<Rightarrow> (string \<times> int option) option \<Rightarrow> nat \<Rightarrow> string list \<Rightarrow>
    user_state list \<Rightarrow> effs list" where
  "submitRun t reply_to orig n ts [] = []"
| "submitRun t reply_to orig n ts (us # rest) =
     (let (e, n', ts', again) = postSubmit t us reply_to orig n ts
      in e # (if again then submitRun t reply_to orig n' ts' rest else []))"

section \<open>Where a text is cut\<close>

text \<open>The specification: the last separator within the limit, or the limit when there is none.\<close>

definition cuts :: "string \<Rightarrow> int \<Rightarrow> nat set" where
  "cuts v pml = {k. k < length v \<and> name_end (v ! k) \<and> int k \<le> pml}"

definition best_cut :: "string \<Rightarrow> int \<Rightarrow> int" where
  "best_cut v pml = (if cuts v pml = {} then pml else int (Max (cuts v pml)))"

lemma last_index_skip:
  "e \<notin> set b \<Longrightarrow> last_index (a @ e # b @ w) e (length a + length b) = int (length a)"
proof (induction b arbitrary: w rule: rev_induct)
  case Nil
  then show ?case by (cases "length a") (auto simp: nth_append)
next
  case (snoc x b)
  from snoc.IH [of "x # w"] snoc.prems show ?case by (auto simp: nth_append)
qed

lemma last_ending:
  assumes "rev (endings v) = e # es"
  obtains a b where "v = a @ e # b" "name_end e" "list_all (\<lambda>c. \<not> name_end c) b" "es = rev (endings a)"
proof -
  from assms have "filter name_end (rev v) = e # es" by (simp add: endings_def rev_filter)
  from filter_eq_ConsD [OF this] obtain us vs where
    "rev v = us @ e # vs" "\<forall>u \<in> set us. \<not> name_end u" "name_end e" "es = filter name_end vs" by blast
  then show thesis using that [of "rev vs" "rev us"]
    by (simp add: list_all_iff endings_def rev_filter rev_eq_append_conv)
qed

text \<open>The search backwards arrives at the last separator within the limit, if there is one.\<close>

definition cut_found :: "string \<Rightarrow> int \<Rightarrow> nat \<Rightarrow> int \<Rightarrow> bool" where
  "cut_found v pml n r \<longleftrightarrow> 0 \<le> r \<and> nat r < length v \<and> name_end (v ! nat r) \<and>
     (\<forall>k. k \<le> n \<and> name_end (v ! k) \<and> int k \<le> pml \<longrightarrow> int k \<le> r \<and> r \<le> pml)"

lemma cut_found_weaken:
  "cut_found v pml m r \<Longrightarrow> (\<And>k. k \<le> n \<Longrightarrow> name_end (v ! k) \<Longrightarrow> int k \<le> pml \<Longrightarrow> k \<le> m) \<Longrightarrow> cut_found v pml n r"
  by (auto simp: cut_found_def)

lemma no_endings_nth: "endings a = [] \<Longrightarrow> k < length a \<Longrightarrow> \<not> name_end ((a @ w) ! k)"
  by (auto simp: endings_def filter_empty_conv nth_append)

lemma back_to_cut:
  "name_end e \<Longrightarrow> v = a @ e # b \<Longrightarrow>
   cut_found v pml (length a) (back_to v pml (rev (endings a)) (int (length a)))"
proof (induction a arbitrary: e b rule: length_induct)
  case (1 a)
  show ?case
  proof (cases "int (length a) > pml \<and> endings a \<noteq> []")
    case False
    then have "back_to v pml (rev (endings a)) (int (length a)) = int (length a)"
      by (cases "rev (endings a)") auto
    moreover have "int (length a) \<le> pml" if "k \<le> length a" "name_end (v ! k)" "int k \<le> pml" for k
    proof (rule ccontr)
      assume "\<not> int (length a) \<le> pml"
      with False that have "endings a = []" "k < length a" by auto
      with that(2) "1.prems"(2) no_endings_nth show False by blast
    qed
    ultimately show ?thesis using "1.prems" by (auto simp: cut_found_def)
  next
    case True
    then obtain x xs where x: "rev (endings a) = x # xs" by (cases "rev (endings a)") auto
    then obtain a' b' where a: "a = a' @ x # b'" "name_end x" "list_all (\<lambda>c. \<not> name_end c) b'"
      "xs = rev (endings a')" by (rule last_ending)
    then have "x \<notin> set b'" by (auto simp: list_all_iff)
    from last_index_skip [OF this, of a' "e # b"] have "lastIndexOf v x (int (length a) - 1) = int (length a')"
      by (simp add: lastIndexOf_def a "1.prems" nat_int_add)
    then have eq: "back_to v pml (rev (endings a)) (int (length a)) = back_to v pml (rev (endings a')) (int (length a'))"
      using x True a by simp
    have "cut_found v pml (length a') (back_to v pml (rev (endings a')) (int (length a')))"
      using "1.IH" [rule_format, of a' x "b' @ e # b"] a(1,2) "1.prems"(2) by simp
    then have "cut_found v pml (length a) (back_to v pml (rev (endings a')) (int (length a')))"
    proof (rule cut_found_weaken)
      fix k assume k: "k \<le> length a" "name_end (v ! k)" "int k \<le> pml"
      with True have "k < length a" by linarith
      with k(2) a(1,3) "1.prems"(2) show "k \<le> length a'"
        by (auto simp: nth_append nth_Cons' list_all_length not_less split: if_splits)
    qed
    with eq show ?thesis by simp
  qed
qed

lemma finite_cuts [simp]: "finite (cuts v pml)"
  by (simp add: cuts_def)

text \<open>
  C10. Where a long text is cut: at the last of its separators that lies within the limit, or at the limit
  when none does. The code finds it by going back over the separators with \<^verbatim>\<open>lastIndexOf\<close>. Without any
  separator in the text it raises an exception.
\<close>

theorem split_point_best:
  "split_point v pml = (if endings v = [] then Inl TypeErr else Inr (best_cut v pml))"
proof (cases "rev (endings v)")
  case Nil
  then show ?thesis by (simp add: split_point_def)
next
  case (Cons e es)
  then obtain a b where v: "v = a @ e # b" "name_end e" "list_all (\<lambda>c. \<not> name_end c) b" "es = rev (endings a)"
    by (rule last_ending)
  then have "e \<notin> set b" by (auto simp: list_all_iff)
  from last_index_skip [OF this, of a "[]"] have "last_index v e (length a + length b) = int (length a)"
    by (simp add: v)
  moreover have "length v = Suc (length a + length b)" by (simp add: v(1))
  ultimately have start: "lastIndexOf v e (int (length v)) = int (length a)"
    unfolding lastIndexOf_def nat_int by simp
  let ?r = "back_to v pml es (int (length a))"
  have r: "cut_found v pml (length a) ?r" using back_to_cut [OF v(2,1), of pml] v(4) by simp
  have last: "k \<le> length a" if "k < length v" "name_end (v ! k)" for k
    using that v by (auto simp: nth_append nth_Cons' list_all_length not_less split: if_splits)
  have "(if ?r > pml then pml else ?r) = best_cut v pml"
  proof (cases "?r > pml")
    case True
    have "k \<notin> cuts v pml" for k using r last [of k] True by (auto simp: cuts_def cut_found_def)
    with True show ?thesis by (auto simp: best_cut_def)
  next
    case False
    with r have "nat ?r \<in> cuts v pml" by (auto simp: cuts_def cut_found_def)
    moreover have "k \<le> nat ?r" if "k \<in> cuts v pml" for k
      using r last [of k] that by (auto simp: cuts_def cut_found_def)
    ultimately have "Max (cuts v pml) = nat ?r" by (intro Max_eqI) auto
    with False r \<open>nat ?r \<in> cuts v pml\<close> show ?thesis by (auto simp: best_cut_def cut_found_def)
  qed
  with Cons start show ?thesis by (auto simp: split_point_def Let_def)
qed

lemma best_cut_le: "best_cut v pml \<le> pml"
  using Max_in [of "cuts v pml"] by (auto simp: best_cut_def cuts_def)

section \<open>What splitting does\<close>

lemma str_of_nat_length: "n < 10 ^ k \<Longrightarrow> 0 < k \<Longrightarrow> length (str_of_nat n) \<le> k"
proof (induction k arbitrary: n)
  case (Suc k)
  show ?case
  proof (cases "n < 10 \<or> k = 0")
    case True
    with Suc.prems show ?thesis by (subst str_of_nat.simps) auto
  next
    case False
    with Suc.prems have "n div 10 < 10 ^ k" by (simp add: div_less_iff_less_mult mult.commute)
    with Suc.IH [of "n div 10"] False show ?thesis by (subst str_of_nat.simps) simp
  qed
qed simp

lemma digits_le: "n < 10 ^ k \<Longrightarrow> 0 < k \<Longrightarrow> digits n \<le> int k"
  using str_of_nat_length [of n k] by (simp add: digits_def)

lemma digits_pos: "0 < digits n"
  by (simp add: digits_def)

lemma substr_concat: "0 \<le> ci \<Longrightarrow> substr_to v ci @ substr_from v ci = v"
  by (simp add: substr_to_def substr_from_def)

lemma concat_update2:
  assumes "Suc i < length ts" and "x @ y = ts ! i"
  shows "concat (ts[i := x, Suc i := y @ ts ! Suc i]) = concat ts"
proof -
  from assms(1) have "ts = take i ts @ ts ! i # ts ! Suc i # drop (Suc (Suc i)) ts"
    by (simp add: Cons_nth_drop_Suc Suc_lessD)
  moreover have "ts[i := x, Suc i := y @ ts ! Suc i] =
      take i ts @ x # (y @ ts ! Suc i) # drop (Suc (Suc i)) ts"
    using assms(1) by (simp add: upd_conv_take_nth_drop take_update_swap drop_update_swap nth_append
        list_update_append min_def Cons_nth_drop_Suc Suc_diff_le)
  ultimately show ?thesis using assms(2)
    by (metis append_assoc concat.simps(2) concat_append)
qed

text \<open>One round keeps the text, as long as the limit is not negative.\<close>

lemma splitStep_concat:
  assumes "splitStep r i ts = Inr ts'" and "i < length ts" and "0 \<le> part_limit r (length ts) i (ts ! i)"
  shows "concat ts' = concat ts \<and> length ts' \<le> Suc (length ts)"
proof (cases "int (length (ts ! i)) > part_limit r (length ts) i (ts ! i)")
  case True
  with assms(1) obtain ci where ci: "split_point (ts ! i) (part_limit r (length ts) i (ts ! i)) = Inr ci"
    "ts' = (if i < length ts - 1 then ts[i := substr_to (ts ! i) ci, Suc i := substr_from (ts ! i) ci @ ts ! Suc i]
      else ts[i := substr_to (ts ! i) ci] @ [substr_from (ts ! i) ci])"
    by (auto simp: splitStep_def Let_def rbind_Inr_iff split: if_splits)
  then have "0 \<le> ci" using assms(3) by (auto simp: split_point_best best_cut_def split: if_splits)
  note sub = substr_concat [OF this, of "ts ! i"]
  show ?thesis
  proof (cases "i < length ts - 1")
    case True
    with ci(2) concat_update2 [of i ts, OF _ sub] show ?thesis by simp
  next
    case False
    with assms(2) obtain ps v where "ts = ps @ [v]" "i = length ps" by (cases ts rule: rev_cases) auto
    with ci(2) False sub show ?thesis by simp
  qed
next
  case False
  note fits = this
  show ?thesis
  proof (cases "length ts > 1 \<and> ts ! i = []")
    case True
    show ?thesis
    proof (cases "i = length ts - 1")
      case i: True
      with True obtain ps where "ts = ps @ [[]]" by (cases ts rule: rev_cases) auto
      with fits True i assms(1) show ?thesis by (simp add: splitStep_def Let_def)
    next
      case i: False
      have "concat ts = concat (take i ts) @ ts ! i @ concat (drop (Suc i) ts)"
        by (subst id_take_nth_drop [OF assms(2)]) simp
      with fits True i assms(1,2) show ?thesis by (auto simp: splitStep_def Let_def)
    qed
  next
    case False
    with fits assms(1) show ?thesis by (auto simp: splitStep_def Let_def)
  qed
qed

lemma part_limit_room:
  assumes "n < 10 ^ 30" and "i < n" and "case r of None \<Rightarrow> True | Some x \<Rightarrow> length x \<le> 60"
  shows "0 \<le> part_limit r n i v"
proof -
  have "i + 1 < 10 ^ 30" using assms(1,2) by (simp add: less_trans_Suc Suc_le_eq order_le_less_trans)
  then have "digits (i + 1) \<le> 30" using digits_le [of "i + 1" 30] by simp
  moreover have "digits n \<le> 30" using digits_le [of n 30] assms(1) by simp
  ultimately show ?thesis using assms(3) by (auto simp: part_limit_def Let_def split: option.splits)
qed


text \<open>More fuel does not change a result.\<close>

lemma splitLoop_mono: "splitLoop fuel r i ts = Some x \<Longrightarrow> fuel \<le> fuel' \<Longrightarrow> splitLoop fuel' r i ts = Some x"
proof (induction fuel r i ts arbitrary: fuel' rule: splitLoop.induct)
  case (2 fuel r i ts)
  then obtain f where "fuel' = Suc f" "fuel \<le> f" by (cases fuel') auto
  with 2 show ?case by (auto simp: splitLoop.simps(2) split: if_splits sum.splits)
qed (simp add: splitLoop.simps)

text \<open>No word is longer than 100 characters; \<open>n\<close> are known already of the word the text begins with.\<close>

fun short_from :: "nat \<Rightarrow> string \<Rightarrow> bool" where
  "short_from n [] = True"
| "short_from n (c # cs) = (if name_end c then short_from 0 cs else n < 100 \<and> short_from (Suc n) cs)"

definition short_words :: "string \<Rightarrow> bool" where
  "short_words v = short_from 0 v"

lemma short_from_mono: "short_from n v \<Longrightarrow> m \<le> n \<Longrightarrow> short_from m v"
proof (induction v arbitrary: m n)
  case (Cons c v)
  then show ?case using Cons.IH [of "Suc n" "Suc m"] by (auto split: if_splits)
qed simp

lemma short_words_drop: "short_words v \<Longrightarrow> short_words (drop k v)"
proof (induction k arbitrary: v)
  case (Suc k)
  then show ?case
    by (cases v) (auto simp: short_words_def split: if_splits dest: short_from_mono [of "Suc 0" _ 0])
qed simp

lemma short_from_sep:
  "short_from n v \<Longrightarrow> n \<le> 100 \<Longrightarrow> 100 - n < length v \<Longrightarrow> \<exists>j \<le> 100 - n. j < length v \<and> name_end (v ! j)"
proof (induction v arbitrary: n)
  case (Cons c v)
  show ?case
  proof (cases "name_end c")
    case False
    with Cons.prems have n: "n < 100" "short_from (Suc n) v" "100 - Suc n < length v" by auto
    with Cons.IH [OF n(2)] obtain j where "j \<le> 100 - Suc n" "j < length v" "name_end (v ! j)" by auto
    with n(1) show ?thesis by (intro exI [of _ "Suc j"]) auto
  qed (auto intro: exI [of _ 0])
qed simp

lemma best_cut_pos:
  assumes "short_words v" and "101 \<le> pml" and "pml < int (length v)"
  shows "0 < best_cut v pml \<and> endings v \<noteq> []"
proof -
  from short_words_drop [OF assms(1), of 1] have "short_from 0 (drop 1 v)" by (simp add: short_words_def)
  moreover have "100 < length v - 1" using assms(2,3) by linarith
  ultimately obtain j where j: "j \<le> 100" "j < length v - 1" "name_end (v ! (1 + j))"
    using short_from_sep [of 0 "drop 1 v"] by auto
  with assms(2) have k: "1 + j \<in> cuts v pml" by (auto simp: cuts_def)
  then have "1 + j \<le> Max (cuts v pml)" by (rule Max_ge [OF finite_cuts])
  moreover have "cuts v pml \<noteq> {}" using k by blast
  moreover have "v ! (1 + j) \<in> set (endings v)" using j by (simp add: endings_def)
  ultimately show ?thesis by (auto simp: best_cut_def)
qed


lemma splitStep_cut:
  assumes "length ps = i" and "part_limit None (Suc i) i w < int (length w)" and "endings w \<noteq> []"
  shows "splitStep None i (ps @ [w]) = Inr (ps @ [substr_to w (best_cut w (part_limit None (Suc i) i w)),
    substr_from w (best_cut w (part_limit None (Suc i) i w))])"
  using assms by (auto simp: splitStep_def split_point_best Let_def)

lemma part_limit_fresh: "part_limit None (Suc i) i w = 136 - 2 * digits (Suc i)"
  by (simp add: part_limit_def)

definition parts_fit :: "nat \<Rightarrow> string list \<Rightarrow> bool" where
  "parts_fit i qs \<longleftrightarrow> (\<forall>k < length qs. int (length (qs ! k)) + 2 * digits (i + k + 1) + 4 \<le> 140)"

lemma parts_fit_Cons:
  "parts_fit i (q # qs) \<longleftrightarrow> int (length q) + 2 * digits (Suc i) + 4 \<le> 140 \<and> parts_fit (Suc i) qs"
  by (auto simp: parts_fit_def nth_Cons' less_Suc_eq_0_disj)

lemma splitLoop_done: "length ts \<le> i \<Longrightarrow> splitLoop (Suc fuel) r i ts = Some (Inr ts)"
  by (simp add: splitLoop.simps)

lemma splitLoop_step:
  "i < length ts \<Longrightarrow> splitStep r i ts = Inr ts' \<Longrightarrow> splitLoop (Suc fuel) r i ts = splitLoop fuel r (Suc i) ts'"
  by (simp add: splitLoop.simps)

lemma splitLoop_fresh:
  "short_words w \<Longrightarrow> length ps + length w < 10 ^ 9 \<Longrightarrow>
   \<exists>qs. splitLoop (length w + 2) None (length ps) (ps @ [w]) = Some (Inr (ps @ qs)) \<and> concat qs = w \<and>
     parts_fit (length ps) qs"
proof (induction "length w" arbitrary: w ps rule: less_induct)
  case less
  let ?i = "length ps" and ?pml = "part_limit None (Suc (length ps)) (length ps) w"
  show ?case
  proof (cases "int (length w) \<le> ?pml")
    case True
    show ?thesis
    proof (cases "w = [] \<and> ps \<noteq> []")
      case True
      then have "splitStep None ?i (ps @ [w]) = Inr ps"
        using \<open>int (length w) \<le> ?pml\<close> by (simp add: splitStep_def Let_def)
      then have "splitLoop (length w + 2) None ?i (ps @ [w]) = Some (Inr ps)"
        by (simp add: splitLoop_step splitLoop_done)
      with True show ?thesis by (intro exI [of _ "[]"]) (simp add: parts_fit_def)
    next
      case False
      with True have "splitStep None ?i (ps @ [w]) = Inr (ps @ [w])" by (auto simp: splitStep_def Let_def)
      then have "splitLoop (length w + 2) None ?i (ps @ [w]) = Some (Inr (ps @ [w]))"
        by (simp add: splitLoop_step splitLoop_done)
      moreover have "parts_fit ?i [w]" using True by (simp add: part_limit_fresh parts_fit_Cons parts_fit_def)
      ultimately show ?thesis by (intro exI [of _ "[w]"]) simp
    qed
  next
    case False
    have "digits (Suc ?i) \<le> 10" using less.prems(2) digits_le [of "Suc ?i" 10] by simp
    then have "116 \<le> ?pml" by (simp add: part_limit_fresh)
    with False less.prems(1) have pos: "0 < best_cut w ?pml" "endings w \<noteq> []"
      using best_cut_pos [of w ?pml] by auto
    define n where "n = nat (best_cut w ?pml)"
    with pos False best_cut_le [of w ?pml] have n: "best_cut w ?pml = int n" "0 < n" "int n \<le> ?pml" "n < length w"
      by auto
    have step: "splitStep None ?i (ps @ [w]) = Inr (ps @ [take n w, drop n w])"
      using splitStep_cut [OF refl, of ps w] False n pos(2) by (simp add: substr_to_def substr_from_def)
    have shorter: "length (drop n w) < length w" using n by simp
    have few: "length (ps @ [take n w]) + length (drop n w) < 10 ^ 9" using n less.prems(2) by auto
    obtain qs where qs: "splitLoop (length (drop n w) + 2) None (Suc ?i) ((ps @ [take n w]) @ [drop n w]) =
        Some (Inr ((ps @ [take n w]) @ qs))" "concat qs = drop n w" "parts_fit (Suc ?i) qs"
      using less.hyps [OF shorter short_words_drop [OF less.prems(1)] few] by auto
    from splitLoop_mono [OF qs(1), of "length w + 1"] n step have
      "splitLoop (length w + 2) None ?i (ps @ [w]) = Some (Inr (ps @ take n w # qs))"
      by (simp add: splitLoop_step)
    moreover have "parts_fit ?i (take n w # qs)" using n qs(3) by (simp add: parts_fit_Cons part_limit_fresh)
    ultimately show ?thesis using qs(2) by (intro exI [of _ "take n w # qs"]) simp
  qed
qed


definition ex_words :: string where
  "ex_words = concat (replicate 28 ''word '')"


text \<open>
  A long text without any separator makes the handler of every key press raise an exception.
\<close>

theorem split_crash:
  assumes "endings v = []" and "length v > 134"
  shows "splitLoop (Suc fuel) None 0 [v] = Some (Inl TypeErr)"
proof -
  have "part_limit None (Suc 0) 0 v = 134" by (simp add: part_limit_fresh digits_def str_of_nat.simps)
  with assms show ?thesis by (simp add: splitLoop.simps(2) splitStep_def split_point_best Let_def)
qed

theorem split_crash_witness: "splitLoop 1 None 0 [replicate 135 (CHR ''a'')] = Some (Inl TypeErr)"
  using split_crash [of "replicate 135 (CHR ''a'')" 0] by (simp add: endings_def name_end_def)

definition hanging :: "nat \<Rightarrow> string" where
  "hanging n = CHR '' '' # replicate n (CHR ''a'')"

lemma hanging_cut: "0 \<le> pml \<Longrightarrow> best_cut (hanging n) pml = 0 \<and> endings (hanging n) = '' ''"
proof -
  assume pml: "0 \<le> pml"
  have c: "name_end (CHR '' '')" "\<not> name_end (CHR ''a'')" by (simp_all add: name_end_def)
  have "k \<in> cuts (hanging n) pml \<longleftrightarrow> k = 0" for k
    using pml c by (cases k) (auto simp: cuts_def hanging_def)
  then have "cuts (hanging n) pml = {0}" by blast
  then show ?thesis using c by (simp add: best_cut_def endings_def hanging_def)
qed

lemma splitLoop_hangs:
  "134 \<le> n \<Longrightarrow> length ps + fuel < 10 ^ 20 \<Longrightarrow> splitLoop fuel None (length ps) (ps @ [hanging n]) = None"
proof (induction fuel arbitrary: ps)
  case (Suc fuel)
  have "digits (Suc (length ps)) \<le> 21" using digits_le [of "Suc (length ps)" 21] Suc.prems(2) by simp
  then have pml: "0 \<le> part_limit None (Suc (length ps)) (length ps) (hanging n)"
    "part_limit None (Suc (length ps)) (length ps) (hanging n) < int (length (hanging n))"
    using digits_pos [of "Suc (length ps)"] Suc.prems(1) by (simp_all add: part_limit_fresh hanging_def)
  then have "splitStep None (length ps) (ps @ [hanging n]) = Inr ((ps @ [[]]) @ [hanging n])"
    using splitStep_cut [OF refl pml(2)] hanging_cut [OF pml(1), of n] by (simp add: substr_to_def substr_from_def)
  with Suc.IH [of "ps @ [[]]"] Suc.prems show ?case by (simp add: splitLoop.simps(2))
qed (simp add: splitLoop.simps)



section \<open>Sending the parts\<close>

definition reply_params :: "(string \<times> int option) option \<Rightarrow> js list" where
  "reply_params orig = (case orig of None \<Rightarrow> [] | Some (n, k) \<Rightarrow> [JStr n, (case k of Some i \<Rightarrow> JNum i | None \<Rightarrow> JNull)])"

text \<open>The request for part \<open>k\<close> (from 0) of \<open>n\<close>, when the last post of the user has id \<open>m\<close> + \<open>k\<close>.\<close>

definition part_request :: "user_state \<Rightarrow> string option \<Rightarrow> (string \<times> int option) option \<Rightarrow> int \<Rightarrow> nat \<Rightarrow> string \<Rightarrow> nat \<Rightarrow>
    eff" where
  "part_request us r orig m n v k = Rpc ''newpostmsg''
     ([defaultScreenName us, JNum (m + int k + 1), JStr (part_text r v (int k + 1) n)] @
      reply_params (if k = 0 then orig else Some (js_string (defaultScreenName us), Some (m + int k))))"

lemma postSubmit_request:
  assumes "1 < n" and "ts \<noteq> []" and "length ts \<le> n"
  shows "\<exists>e. postSubmit t (us\<lparr>lastPostId := Id (m + int (n - length ts))\<rparr>) r orig n ts =
    (part_request us r orig m n (hd ts) (n - length ts) # e, if length ts = 1 then 1 else n,
     if length ts = 1 then [''''] else tl ts, length ts \<noteq> 1)"
proof (cases "length ts = 1")
  case True
  then obtain v where "ts = [v]" by (cases ts) auto
  with assms show ?thesis
    by (simp add: postSubmit_def part_request_def reply_params_def newPostMsg_def submitWithId_def nextPostId_def
        int_ops(6))
next
  case False
  with assms have "\<not> length ts \<le> 1" by (cases ts) auto
  with False assms show ?thesis
    by (auto simp: postSubmit_def part_request_def reply_params_def newPostMsg_def submitWithId_def nextPostId_def
        of_nat_diff Let_def)
qed

lemma submitRun_requests:
  "1 < n \<Longrightarrow> ts \<noteq> [] \<Longrightarrow> length ts \<le> n \<Longrightarrow>
   map hd (submitRun t r orig n ts (map (\<lambda>k. us\<lparr>lastPostId := Id (m + int k)\<rparr>) [n - length ts..<n])) =
   map (\<lambda>k. part_request us r orig m n (ts ! (k - (n - length ts))) k) [n - length ts..<n]"
proof (induction ts)
  case (Cons v ts)
  let ?k = "n - length (v # ts)"
  have upt: "[?k..<n] = ?k # [Suc ?k..<n]" using Cons.prems by (simp add: upt_conv_Cons)
  obtain e where step: "postSubmit t (us\<lparr>lastPostId := Id (m + int ?k)\<rparr>) r orig n (v # ts) =
      (part_request us r orig m n v ?k # e, if ts = [] then 1 else n, if ts = [] then [''''] else ts, ts \<noteq> [])"
    using postSubmit_request [OF Cons.prems, of t m us r orig] by auto
  show ?case
  proof (cases "ts = []")
    case True
    with Cons.prems(1) have "[?k..<n] = [?k]" by (simp add: upt_conv_Cons)
    with True step show ?thesis by simp
  next
    case False
    with Cons.prems have k: "Suc ?k = n - length ts" by simp
    have "map (\<lambda>j. part_request us r orig m n ((v # ts) ! (j - ?k)) j) [Suc ?k..<n] =
        map (\<lambda>j. part_request us r orig m n (ts ! (j - (n - length ts))) j) [n - length ts..<n]"
      using k by (intro map_cong) (auto simp: nth_Cons')
    with False step Cons.IH Cons.prems k show ?thesis unfolding upt by simp
  qed
qed simp



end
