(* ===== verification/Unicode_Conversion.thy ===== *)
theory Unicode_Conversion
  imports Mobile_Abstract "HOL-Library.Word"
begin

text \<open>
  The part of \<^verbatim>\<open>interface_common.js\<close> that replaces typed sequences such as \<^verbatim>\<open>...\<close> or \<^verbatim>\<open>:-)\<close> by single
  characters, and undoes this. The characters are outside the 8 bits of \<open>char\<close>, some of them are
  surrogate pairs: a text is a list of 16-bit code units here.
\<close>

type_synonym ustring = "16 word list"

definition ascii :: "string \<Rightarrow> ustring" where
  "ascii s = map (\<lambda>c. word_of_nat (of_char c)) s"

section \<open>Patterns\<close>

text \<open>
  The regular expressions of the list are sequences of characters from a set, of optional ones
  (\<^verbatim>\<open>-{0,1}\<close>), and of any character but a line terminator. A pattern is a list of alternatives, tried in
  order, and may be anchored (\<^verbatim>\<open>^\<close>).
\<close>

datatype item = One ustring | Opt ustring | AnyChar | OptAny

record pat =
  pat_anchored :: bool
  pat_alts :: "item list list"

definition line_end :: "16 word \<Rightarrow> bool" where
  "line_end c \<longleftrightarrow> c \<in> set [0x0A, 0x0D, 0x2028, 0x2029]"

text \<open>The length of the match at the beginning of a text; optional characters are taken when possible.\<close>

definition first_some :: "'a option \<Rightarrow> 'a option \<Rightarrow> 'a option" where
  "first_some a b = (case a of None \<Rightarrow> b | Some _ \<Rightarrow> a)"

fun match_items :: "item list \<Rightarrow> ustring \<Rightarrow> nat option" where
  "match_items [] s = Some 0"
| "match_items (One cs # is) s = (case s of
     [] \<Rightarrow> None | c # s' \<Rightarrow> if c \<in> set cs then map_option Suc (match_items is s') else None)"
| "match_items (AnyChar # is) s = (case s of
     [] \<Rightarrow> None | c # s' \<Rightarrow> if \<not> line_end c then map_option Suc (match_items is s') else None)"
| "match_items (Opt cs # is) s = first_some
     (case s of [] \<Rightarrow> None | c # s' \<Rightarrow> if c \<in> set cs then map_option Suc (match_items is s') else None)
     (match_items is s)"
| "match_items (OptAny # is) s = first_some
     (case s of [] \<Rightarrow> None | c # s' \<Rightarrow> if \<not> line_end c then map_option Suc (match_items is s') else None)
     (match_items is s)"

fun match_alts :: "item list list \<Rightarrow> ustring \<Rightarrow> nat option" where
  "match_alts [] s = None"
| "match_alts (a # as) s = first_some (match_items a s) (match_alts as s)"

text \<open>\<^verbatim>\<open>k.exec(s)\<close>: place and length of the first match; \<open>i\<close> characters have been passed.\<close>

fun search :: "pat \<Rightarrow> nat \<Rightarrow> ustring \<Rightarrow> (nat \<times> nat) option" where
  "search p i s = (case match_alts (pat_alts p) s of
     Some l \<Rightarrow> Some (i, l)
   | None \<Rightarrow> (case s of [] \<Rightarrow> None | _ # s' \<Rightarrow> if pat_anchored p then None else search p (Suc i) s'))"

declare search.simps [simp del]

record conversion =
  cv_k :: pat
  cv_u :: ustring
  cv_n :: int

definition conv :: "item list list \<Rightarrow> ustring \<Rightarrow> conversion" where
  "conv alts u = \<lparr>cv_k = \<lparr>pat_anchored = False, pat_alts = alts\<rparr>, cv_u = u, cv_n = -1\<rparr>"

text \<open>A pattern of the given characters, one each.\<close>

definition lit :: "string \<Rightarrow> item list" where
  "lit s = map (\<lambda>c. One (ascii [c])) s"

definition cls :: "string \<Rightarrow> item" where
  "cls s = One (ascii s)"

definition dash :: item where
  "dash = Opt (ascii ''-'')"

section \<open>The list of conversions\<close>

definition ponctuations :: "conversion list" where
  "ponctuations =
     [conv [lit ''...''] [0x2026],
      (conv [lit ''..'' @ [AnyChar]] [0x2025])\<lparr>cv_n := 2\<rparr>,
      conv [lit ''??''] [0x2047], conv [lit ''?!''] [0x2048], conv [lit ''!?''] [0x2049], conv [lit ''!!''] [0x203C],
      conv [lit ''--''] [0x2014], conv [lit ''~~''] [0x2053]]"

definition emotions :: "conversion list" where
  "emotions =
     [conv [lit '':'' @ [OptAny] @ lit ''D''] [0xD83D, 0xDE03],
      conv [[cls ''0Oo'', cls '':'', dash, cls '')'']] [0xD83D, 0xDE07],
      conv [lit '':beer:''] [0xD83C, 0xDF7A],
      conv [[cls ''3'', cls '':'', dash, cls '')'']] [0xD83D, 0xDE08],
      conv [lit ''<3''] [0x2764],
      conv [[cls '':'', cls [CHR 0x27], cls ''('']] [0xD83D, 0xDE22],
      conv [[cls '':='', dash, cls ''('']] [0xD83D, 0xDE1E],
      conv [lit ''8)<'', lit ''8|''] [0xD83D, 0xDE0E],
      conv [[cls '':='', dash, cls '')]'']] [0xD83D, 0xDE0A],
      conv [[cls ''(['', dash, cls '':='']] [0xD83D, 0xDE0A],
      conv [lit '':*''] [0xD83D, 0xDE17],
      conv [[cls ''^'', dash, cls ''^'']] [0xD83D, 0xDE06],
      conv [[cls '':'', cls ''pP'']] [0xD83D, 0xDE1B],
      conv [[cls '';'', dash, cls '')'']] [0xD83D, 0xDE09],
      conv [[cls ''('', dash, cls '';'']] [0xD83D, 0xDE09],
      conv [[cls '':'', cls ''O0'']] [0xD83D, 0xDE2E],
      conv [lit '':@''] [0xD83D, 0xDE31],
      conv [lit '':|''] [0xD83D, 0xDE10]]"

definition tel_or_fax :: "bool \<Rightarrow> item list \<Rightarrow> ustring \<Rightarrow> conversion" where
  "tel_or_fax start word u =
     (if start
      then \<lparr>cv_k = \<lparr>pat_anchored = True, pat_alts = [word @ [cls '' :='']]\<rparr>, cv_u = u, cv_n = 3\<rparr>
      else \<lparr>cv_k = \<lparr>pat_anchored = False, pat_alts = [lit '' '' @ word @ [cls '' :='']]\<rparr>,
            cv_u = ascii '' '' @ u, cv_n = 4\<rparr>)"

definition signs :: "conversion list" where
  "signs =
     [tel_or_fax False [cls ''tT'', cls ''eE'', cls ''lL''] [0x2121],
      tel_or_fax True [cls ''tT'', cls ''eE'', cls ''lL''] [0x2121],
      tel_or_fax False [cls ''fF'', cls ''aA'', cls ''xX''] [0x213B],
      tel_or_fax True [cls ''fF'', cls ''aA'', cls ''xX''] [0x213B]]"

definition fractions :: "conversion list" where
  "fractions = map (\<lambda>(k, u). conv [lit k] [u])
     [(''1/2'', 0x00BD), (''1/3'', 0x2153), (''2/3'', 0x2154), (''1/4'', 0x00BC), (''3/4'', 0x00BE),
      (''1/5'', 0x2155), (''2/5'', 0x2156), (''3/5'', 0x2157), (''4/5'', 0x2158), (''1/6'', 0x2159),
      (''5/6'', 0x215A), (''1/7'', 0x2150), (''1/8'', 0x215B), (''3/8'', 0x215C), (''5/8'', 0x215D),
      (''7/8'', 0x215E), (''1/9'', 0x2151), (''1/10'', 0x2152)]"

section \<open>Conversion\<close>

text \<open>An element of the undo stack: the text replaced, its replacement, place, length, length of the new text.\<close>

record undo =
  un_k :: ustring
  un_u :: ustring
  un_p :: nat
  un_l :: nat
  un_m :: nat

record unicode_state =
  unicodeConversionStack :: "undo list"
  lastConvertedIndex :: int

definition unicode_init :: unicode_state where
  "unicode_init = \<lparr>unicodeConversionStack = [], lastConvertedIndex = -1\<rparr>"

text \<open>One element of a list: the body of the four loops.\<close>

definition convertStep :: "conversion \<Rightarrow> ustring \<times> unicode_state \<Rightarrow> ustring \<times> unicode_state" where
  "convertStep c st = (case st of (s, us) \<Rightarrow>
     (case search (cv_k c) 0 s of
        None \<Rightarrow> st
      | Some (i, l) \<Rightarrow>
          if int i \<ge> lastConvertedIndex us
          then let nc = (if cv_n c > -1 then [s ! (i + nat (cv_n c))] else []);
                   tmp = take i s @ cv_u c @ nc @ drop (i + l) s;
                   len = length s + length (cv_u c) - length tmp
               in (tmp, us\<lparr>unicodeConversionStack :=
                     \<lparr>un_k = take len (drop i s), un_u = cv_u c, un_p = i, un_l = len, un_m = length tmp\<rparr> #
                     unicodeConversionStack us,
                   lastConvertedIndex := int (length tmp)\<rparr>)
          else st))"

text \<open>\<^verbatim>\<open>s.indexOf(u)\<close> and \<^verbatim>\<open>s.lastIndexOf(u)\<close>.\<close>

fun u_indexOf :: "ustring \<Rightarrow> ustring \<Rightarrow> nat option" where
  "u_indexOf s u = (if take (length u) s = u then Some 0
     else (case s of [] \<Rightarrow> None | _ # s' \<Rightarrow> map_option Suc (u_indexOf s' u)))"

declare u_indexOf.simps [simp del]

fun u_lastIndexOf :: "ustring \<Rightarrow> ustring \<Rightarrow> nat option" where
  "u_lastIndexOf [] u = (if u = [] then Some 0 else None)"
| "u_lastIndexOf (c # s) u = (case u_lastIndexOf s u of
     Some i \<Rightarrow> Some (Suc i)
   | None \<Rightarrow> if take (length u) (c # s) = u then Some 0 else None)"

text \<open>The inner loop of the check for deletions, over the elements before the one in question.\<close>

fun old_place :: "ustring \<Rightarrow> nat \<Rightarrow> undo list \<Rightarrow> int \<Rightarrow> int" where
  "old_place u ni [] op = op"
| "old_place u ni (e # es) op =
     (if un_u e = u then (if un_p e = ni then -1 else old_place u ni es (int (un_p e))) else old_place u ni es op)"

text \<open>
  Element \<open>i\<close> of the check. The condition \<^verbatim>\<open>s[ni] !== unicodeConversionStack[i].p\<close> compares a character
  with a number and is always true.
\<close>

definition deletedStep :: "ustring \<Rightarrow> nat \<Rightarrow> undo list \<Rightarrow> undo list" where
  "deletedStep s i stack = (case u_indexOf s (un_u (stack ! i)) of
     None \<Rightarrow> stack
   | Some ni \<Rightarrow>
       if old_place (un_u (stack ! i)) ni (rev (take i stack)) (-1) = -1
       then take i stack @ drop (Suc i) stack
       else stack[i := (stack ! i)\<lparr>un_p := ni\<rparr>])"

definition checkDeletion :: "ustring \<Rightarrow> undo list \<Rightarrow> undo list result" where
  "checkDeletion s stack =
     (if stack \<noteq> [] \<and> length s < un_m (hd stack)
      then (case fold (deletedStep s) (rev [0..<length stack]) stack of
              [] \<Rightarrow> Inl TypeErr
            | e # es \<Rightarrow> Inr (e\<lparr>un_m := length s\<rparr> # es))
      else Inr stack)"

definition conversions :: "store \<Rightarrow> conversion list" where
  "conversions opts =
     (let all = (getUnicodeConversionOpt opts = JStr ''enable'')
      in (if all \<or> truthy (getConvertPunctuationsOpt opts) then ponctuations else []) @
         (if all \<or> truthy (getConvertEmotionsOpt opts) then emotions else []) @
         (if all \<or> truthy (getConvertSignsOpt opts) then signs else []) @
         (if all \<or> truthy (getConvertFractionsOpt opts) then fractions else []))"

text \<open>What the undo button shows: the last conversion, or that there is nothing to undo.\<close>

definition undo_shown :: "unicode_state \<Rightarrow> ustring option" where
  "undo_shown us = (case unicodeConversionStack us of [] \<Rightarrow> None | e # _ \<Rightarrow> Some (ascii ''undo: '' @ un_u e))"

definition convert2Unicodes :: "store \<Rightarrow> ustring \<Rightarrow> unicode_state \<Rightarrow> (ustring \<times> unicode_state) result" where
  "convert2Unicodes opts s us =
     rbind (checkDeletion s (unicodeConversionStack us)) (\<lambda>stack.
       let us1 = us\<lparr>unicodeConversionStack := stack,
                    lastConvertedIndex := min (lastConvertedIndex us) (int (length s))\<rparr>
       in Inr (fold convertStep (conversions opts) (s, us1)))"

definition undoLastUnicode :: "ustring \<Rightarrow> unicode_state \<Rightarrow> ustring \<times> unicode_state" where
  "undoLastUnicode pt us = (case unicodeConversionStack us of
     [] \<Rightarrow> (pt, us)
   | uc # stack \<Rightarrow>
       let put = (\<lambda>i. take i pt @ un_k uc @ drop (i + length (un_u uc)) pt);
           pt' = (if take (length (un_u uc)) (drop (un_p uc) pt) = un_u uc then put (un_p uc)
                  else (case u_lastIndexOf pt (un_u uc) of None \<Rightarrow> pt | Some i \<Rightarrow> put i))
       in (pt', us\<lparr>unicodeConversionStack := stack, lastConvertedIndex := int (length pt')\<rparr>))"

section \<open>Properties\<close>

text \<open>
  What the elements of the list have in common: a match is not empty, and when a character of the match is
  kept (\<open>cv_n\<close>), it is the last one.
\<close>

fun min_len :: "item list \<Rightarrow> nat" where
  "min_len [] = 0"
| "min_len (One _ # is) = Suc (min_len is)"
| "min_len (AnyChar # is) = Suc (min_len is)"
| "min_len (_ # is) = min_len is"

fun fixed_len :: "item list \<Rightarrow> bool" where
  "fixed_len [] = True"
| "fixed_len (One _ # is) = fixed_len is"
| "fixed_len (AnyChar # is) = fixed_len is"
| "fixed_len _ = False"

definition conversion_ok :: "conversion \<Rightarrow> bool" where
  "conversion_ok c \<longleftrightarrow> list_all (\<lambda>a. 0 < min_len a \<and>
     (cv_n c > -1 \<longrightarrow> fixed_len a \<and> min_len a = Suc (nat (cv_n c)))) (pat_alts (cv_k c))"

lemma conversions_ok: "c \<in> set (conversions opts) \<Longrightarrow> conversion_ok c"
proof -
  have "list_all conversion_ok (ponctuations @ emotions @ signs @ fractions)" by code_simp
  moreover have "set (conversions opts) \<subseteq> set (ponctuations @ emotions @ signs @ fractions)"
    by (auto simp: conversions_def Let_def)
  ultimately show "c \<in> set (conversions opts) \<Longrightarrow> conversion_ok c" by (auto simp: list_all_iff)
qed

lemma first_some_Some: "first_some a b = Some x \<longleftrightarrow> a = Some x \<or> a = None \<and> b = Some x"
  by (auto simp: first_some_def split: option.splits)

lemma match_items_len:
  "match_items is s = Some l \<Longrightarrow> min_len is \<le> l \<and> l \<le> length s \<and> (fixed_len is \<longrightarrow> l = min_len is)"
proof (induction "is" s arbitrary: l rule: match_items.induct)
qed (fastforce simp: first_some_Some split: list.splits if_splits)+

lemma match_alts_len:
  "match_alts as s = Some l \<Longrightarrow> l \<le> length s \<and> (\<exists>a \<in> set as. min_len a \<le> l \<and> (fixed_len a \<longrightarrow> l = min_len a))"
  by (induction as) (auto simp: first_some_Some dest: match_items_len)

lemma search_len:
  "search p i s = Some (j, l) \<Longrightarrow> i \<le> j \<and> j - i + l \<le> length s \<and>
     (\<exists>a \<in> set (pat_alts p). min_len a \<le> l \<and> (fixed_len a \<longrightarrow> l = min_len a))"
proof (induction p i s rule: search.induct)
  case (1 p i s)
  show ?case
  proof (cases "match_alts (pat_alts p) s")
    case None
    with "1.prems" obtain c s' where "s = c # s'" "\<not> pat_anchored p" "search p (Suc i) s' = Some (j, l)"
      by (subst (asm) search.simps) (auto split: list.splits if_splits)
    with "1.IH" [OF None] show ?thesis by (auto simp: Suc_diff_le)
  next
    case (Some l')
    with "1.prems" show ?thesis using match_alts_len by (subst (asm) search.simps) auto
  qed
qed

lemma search_conversion:
  assumes "conversion_ok c" and "search (cv_k c) 0 s = Some (i, l)"
  shows "0 < l \<and> i + l \<le> length s \<and> (cv_n c > -1 \<longrightarrow> l = Suc (nat (cv_n c)))"
  using search_len [OF assms(2)] assms(1) by (auto simp: conversion_ok_def list_all_iff)

text \<open>Right after a conversion nothing more is converted: matches before the end of the text do not count.\<close>

lemma convertStep_idle:
  "conversion_ok c \<Longrightarrow> lastConvertedIndex us = int (length s) \<Longrightarrow> convertStep c (s, us) = (s, us)"
  using search_conversion [of c s] by (fastforce simp: convertStep_def split: option.splits)

lemma convertSteps_idle:
  "list_all conversion_ok cs \<Longrightarrow> lastConvertedIndex us = int (length s) \<Longrightarrow> fold convertStep cs (s, us) = (s, us)"
  by (induction cs) (auto simp: convertStep_idle)

lemma take_parts: "take i s @ take l (drop i s) @ drop (i + l) s = s"
  by (metis append_take_drop_id drop_drop add.commute)

lemma kept_last:
  assumes "0 < l" and "i + l \<le> length s"
  shows "take i s @ take (l - 1) (drop i s) @ [s ! (i + (l - 1))] @ drop (i + l) s = s"
proof -
  have "take (l - 1) (drop i s) @ [s ! (i + (l - 1))] = take l (drop i s)"
    using assms take_Suc_conv_app_nth [of "l - 1" "drop i s"] by simp
  then show ?thesis by (metis append.assoc append_take_drop_id drop_drop add.commute)
qed

lemma convertStep_undo:
  assumes "conversion_ok c" and "convertStep c (s, us) \<noteq> (s, us)"
  shows "case convertStep c (s, us) of (s', us') \<Rightarrow> lastConvertedIndex us' = int (length s') \<and>
    undoLastUnicode s' us' = (s, us\<lparr>lastConvertedIndex := int (length s)\<rparr>)"
proof -
  from assms(2) obtain i l where i: "search (cv_k c) 0 s = Some (i, l)" "int i \<ge> lastConvertedIndex us"
    by (auto simp: convertStep_def split: option.splits if_splits)
  have l: "0 < l" "i + l \<le> length s" "cv_n c > -1 \<longrightarrow> nat (cv_n c) = l - 1"
    using search_conversion [OF assms(1) i(1)] by auto
  let ?nc = "if cv_n c > -1 then [s ! (i + nat (cv_n c))] else []"
  let ?tmp = "take i s @ cv_u c @ ?nc @ drop (i + l) s"
  have len: "length s + length (cv_u c) - length ?tmp = l - length ?nc" using l by simp
  have "take i s @ take (l - length ?nc) (drop i s) @ ?nc @ drop (i + l) s = s"
    using kept_last [OF l(1,2)] take_parts [of i s l] l(3) by simp
  with i l len show ?thesis
    by (auto simp: convertStep_def undoLastUnicode_def Let_def min_def)
qed

lemma convertSteps_undo:
  assumes "list_all conversion_ok cs" and "fold convertStep cs (s, us) = (s', us')"
  shows "(s', us') = (s, us) \<or> undoLastUnicode s' us' = (s, us\<lparr>lastConvertedIndex := int (length s)\<rparr>)"
  using assms
proof (induction cs)
  case (Cons c cs)
  show ?case
  proof (cases "convertStep c (s, us) = (s, us)")
    case True
    with Cons show ?thesis by simp
  next
    case False
    obtain s1 us1 where 1: "convertStep c (s, us) = (s1, us1)" by (cases "convertStep c (s, us)")
    with convertStep_undo [OF _ False] Cons.prems(1) have
      "lastConvertedIndex us1 = int (length s1)" "undoLastUnicode s1 us1 = (s, us\<lparr>lastConvertedIndex := int (length s)\<rparr>)"
      by auto
    with 1 Cons.prems convertSteps_idle [of cs us1 s1] show ?thesis by auto
  qed
qed simp

text \<open>
  C11. The undo button restores the text: when a key press has converted something, undoing gives back
  the text as it was typed and the conversions before it, to the last character, also where the
  conversion had to keep a character that it had read too far. In particular one key press converts at most once.
\<close>

theorem undo_restores:
  assumes "convert2Unicodes opts s us = Inr (s', us')"
    and "unicodeConversionStack us = [] \<or> un_m (hd (unicodeConversionStack us)) \<le> length s"
  shows "s' = s \<and> unicodeConversionStack us' = unicodeConversionStack us \<or>
    fst (undoLastUnicode s' us') = s \<and>
    unicodeConversionStack (snd (undoLastUnicode s' us')) = unicodeConversionStack us"
proof -
  let ?us1 = "us\<lparr>unicodeConversionStack := unicodeConversionStack us,
    lastConvertedIndex := min (lastConvertedIndex us) (int (length s))\<rparr>"
  have "checkDeletion s (unicodeConversionStack us) = Inr (unicodeConversionStack us)"
    using assms(2) by (auto simp: checkDeletion_def)
  with assms(1) have f: "fold convertStep (conversions opts) (s, ?us1) = (s', us')"
    by (simp add: convert2Unicodes_def Let_def)
  have "list_all conversion_ok (conversions opts)" by (auto simp: list_all_iff conversions_ok)
  from convertSteps_undo [OF this f] show ?thesis by auto
qed

definition ex_opts :: store where
  "ex_opts = setOption ''unicodeConversion'' (JStr ''enable'') []"

lemma ex_opts_conversions: "conversions ex_opts = ponctuations @ emotions @ signs @ fractions"
  by code_simp

lemma ex_convert: "convert2Unicodes ex_opts (ascii ''so...'') unicode_init =
     Inr (ascii ''so'' @ [0x2026], \<lparr>unicodeConversionStack = [\<lparr>un_k = ascii ''...'', un_u = [0x2026], un_p = 2,
       un_l = 3, un_m = 3\<rparr>], lastConvertedIndex = 3\<rparr>)"
  unfolding convert2Unicodes_def ex_opts_conversions by code_simp

theorem undo_restores_witness:
  "\<exists>s us. convert2Unicodes ex_opts (ascii ''so...'') unicode_init = Inr (s, us) \<and> s = ascii ''so'' @ [0x2026] \<and>
     fst (undoLastUnicode s us) = ascii ''so...''"
  using undo_restores [OF ex_convert] ex_convert by (simp add: unicode_init_def)

lemma old_place_none: "list_all (\<lambda>e. un_u e \<noteq> u) es \<Longrightarrow> old_place u ni es op = op"
  by (induction es) auto

lemma deletedSteps_all:
  "distinct (map un_u stack) \<Longrightarrow> list_all (\<lambda>e. u_indexOf s (un_u e) \<noteq> None) stack \<Longrightarrow>
   fold (deletedStep s) (rev [0..<length stack]) stack = []"
proof (induction stack rule: rev_induct)
  case (snoc e stack)
  then obtain ni where "u_indexOf s (un_u e) = Some ni" by auto
  moreover have "list_all (\<lambda>x. un_u x \<noteq> un_u e) (rev stack)"
    using snoc.prems(1) by (simp add: list_all_iff) (metis imageI)
  ultimately have "deletedStep s (length stack) (stack @ [e]) = stack"
    by (simp add: deletedStep_def old_place_none)
  with snoc show ?case by simp
qed simp



end
