(* ===== verification/Interface_Common.thy ===== *)
theory Interface_Common
  imports Post_Compose Unicode_Conversion
begin

text \<open>
  The rest of \<^verbatim>\<open>interface_common.js\<close>: the modal windows for profiles, hashtags, mentions and following,
  suggestions of users to follow, the windows for a retransmission and a reply, the expanded view of a
  post, and the handlers common to all pages. \<open>oldModal\<close> says that a modal window is open already; \<open>t\<close>,
  \<open>tv\<close> are \<^verbatim>\<open>polyglot.t\<close> without and with values.
\<close>

section \<open>Modal windows\<close>

abbreviation title :: "string \<Rightarrow> string \<Rightarrow> eff" where
  "title cl text \<equiv> Dom (''.'' @ cl @ '' h3'') ''text'' [JStr text]"

abbreviation fill_modal :: "string \<Rightarrow> eff" where
  "fill_modal cl \<equiv> Dom ''content'' ''appendTo'' [JStr (''.'' @ cl @ '' .modal-content'')]"

abbreviation username_val :: "string \<Rightarrow> js" where
  "username_val u \<equiv> JObj [(''username'', JStr u)]"

definition newProfileModal :: "string \<Rightarrow> effs" where
  "newProfileModal username = updateProfileData username"

definition openProfileModal :: "(string \<Rightarrow> string) \<Rightarrow> (string \<Rightarrow> js \<Rightarrow> string) \<Rightarrow> bool \<Rightarrow> string list \<Rightarrow> string \<Rightarrow> effs" where
  "openProfileModal t tv oldModal followingUsers href =
     (let username = urlToUser href
      in if username = [] then [Alert (t (''You don'' @ [CHR 0x27] @ ''t have any profile because you are not logged in.''))]
         else openModal oldModal ''profile-modal'' @ newProfileModal username @
              [fill_modal ''profile-modal'', title ''profile-modal'' (tv ''users_profile'' (username_val username))] @
              (if username \<in> set followingUsers
               then [Dom ''.profile-card button.followButton'' ''removeClass'' [JStr ''follow''],
                     Dom ''.profile-card button.followButton'' ''addClass'' [JStr ''profileUnfollow''],
                     Dom ''.profile-card button.followButton'' ''text'' [JStr (t ''Unfollow'')],
                     Dom ''.profile-card button.followButton'' ''on'' [JStr ''click'', JStr ''unfollow'', JStr username]]
               else []))"

text \<open>\<open>shown\<close>: the modal window exists and is displayed; \<open>resource\<close> is its \<^verbatim>\<open>data-resource\<close>.\<close>

definition updateHashtagModal :: "bool \<Rightarrow> string \<Rightarrow> string \<Rightarrow> effs" where
  "updateHashtagModal shown hashtag resource =
     (if \<not> shown then []
      else requestHashtag hashtag resource @ [Timer ''updateHashtagModal'' 5000])"

definition newHashtagModal :: "bool \<Rightarrow> string \<Rightarrow> string \<Rightarrow> hashtag_state \<Rightarrow> effs \<times> hashtag_state" where
  "newHashtagModal shown hashtag resource st =
     (Dom ''.postboard-news'' ''click'' [JStr ''displayHashtagPending''] # updateHashtagModal shown hashtag resource,
      clearHashtagProcessed st)"

text \<open>The click handler it installs on the bar that tells of new posts.\<close>

definition hashtagNewsClick :: "bool \<times> string \<Rightarrow> fmt_env \<Rightarrow> elem list \<Rightarrow> hashtag_state \<Rightarrow>
    (effs \<times> elem list \<times> hashtag_state) result" where
  "hashtagNewsClick pg env board st =
     rbind (displayHashtagPending pg env board st) (\<lambda>(e, board', st'). Inr (Dom ''this'' ''hide'' [] # e, board', st'))"

definition openHashtagModalFromSearch :: "bool \<Rightarrow> string \<Rightarrow> hashtag_state \<Rightarrow> effs \<times> hashtag_state" where
  "openHashtagModalFromSearch oldModal hashtag st =
     (let (e, st') = newHashtagModal True hashtag ''hashtag'' st
      in (openModal oldModal ''hashtag-modal'' @
          [Dom ''.hashtag-modal'' ''attr'' [JStr ''data-resource'', JStr ''hashtag'']] @ e @
          [fill_modal ''hashtag-modal'', title ''hashtag-modal'' (''#'' @ hashtag)], st'))"

text \<open>The text of the link is the hashtag with its sign.\<close>

definition openHashtagModal :: "bool \<Rightarrow> string \<Rightarrow> hashtag_state \<Rightarrow> effs \<times> hashtag_state" where
  "openHashtagModal oldModal linkText st = openHashtagModalFromSearch oldModal (toLowerCase (tl linkText)) st"

text \<open>
  \<open>clicked\<close> is the user of the element that was clicked, if any. The mentions kept by the counters are
  shown at once; \<open>posts\<close> are these mentions as posts.
\<close>

definition openMentionsModal :: "(string \<Rightarrow> string) \<Rightarrow> (string \<Rightarrow> js \<Rightarrow> string) \<Rightarrow> (string \<Rightarrow> int \<Rightarrow> string) \<Rightarrow> ui \<Rightarrow>
    bool \<times> string \<Rightarrow> fmt_env \<Rightarrow> bool \<Rightarrow> string option \<Rightarrow> post list \<Rightarrow> hashtag_state \<Rightarrow> newmsgs_state \<Rightarrow> store \<Rightarrow>
    (effs \<times> elem list \<times> hashtag_state \<times> newmsgs_state \<times> store) result" where
  "openMentionsModal t tv tn u pg env oldModal clicked posts st nm s =
     (if \<not> truthy (fe_me env)
      then Inr ([Alert (t ''No one can mention you because you are not logged in.'')], [], st, nm, s)
      else let me = js_string (fe_me env);
               username = (case clicked of Some c \<Rightarrow> c | None \<Rightarrow> me);
               (e, st1) = newHashtagModal True username ''mention'' st
           in rbind (processHashtag pg tn env (Some posts) [] st1) (\<lambda>(e1, board, st2).
              rbind (resetMentionsCount u me nm s) (\<lambda>(e2, nm', s').
              Inr (openModal oldModal ''hashtag-modal'' @
                [Dom ''.hashtag-modal'' ''attr'' [JStr ''data-resource'', JStr ''mention'']] @ e @
                [fill_modal ''hashtag-modal'', title ''hashtag-modal'' (tv ''users_mentions'' (username_val username))] @
                e1 @ e2, board, st2, nm', s'))))"

definition newFollowingModal :: "string \<Rightarrow> effs" where
  "newFollowingModal username = updateFollowingData username"

definition openFollowingModal :: "(string \<Rightarrow> js \<Rightarrow> string) \<Rightarrow> bool \<Rightarrow> string \<Rightarrow> effs" where
  "openFollowingModal tv oldModal href =
     (let username = followingUrlToUser href
      in openModal oldModal ''following-modal'' @ newFollowingModal username @
         [fill_modal ''following-modal'', title ''following-modal'' (tv ''followed_by'' (username_val username))])"

section \<open>Who to follow\<close>

definition refreshWhoToFollow :: effs where
  "refreshWhoToFollow = Dom ''.follow-suggestions'' ''html'' [JStr ''''] #
     replicate 3 (Call ''getRandomFollowSuggestion'' [JStr ''processSuggestion''])"

definition suggestion_item :: "string \<Rightarrow> string \<Rightarrow> effs" where
  "suggestion_item utf by =
     [Dom ''.twister-user-info'' ''attr'' [JStr ''data-screen-name'', JStr utf],
      Dom ''.twister-user-name'' ''attr'' [JStr ''href'', JStr (userUrl utf)],
      Dom ''.twister-by-user-name'' ''attr'' [JStr ''href'', JStr (userUrl by)],
      Dom ''.twister-user-tag'' ''text'' [JStr (''@'' @ utf)],
      Call ''getAvatar'' [JStr utf], Call ''getFullname'' [JStr utf], Call ''getBio'' [JStr utf],
      Dom ''.followed-by'' ''text'' [JStr by], Call ''getFullname'' [JStr by],
      Dom ''.twister-user-remove'' ''remove'' [], Dom ''.follow-suggestions'' ''append'' [JStr utf]]"

text \<open>The inner loop, over the users that \<open>by\<close> follows; \<open>lim\<close> is \<^verbatim>\<open>start + 25\<close>.\<close>

fun addSuggestions :: "string list \<Rightarrow> nat \<Rightarrow> string \<Rightarrow> string list \<Rightarrow> effs \<times> string list \<Rightarrow> effs \<times> string list" where
  "addSuggestions fu lim by [] acc = acc"
| "addSuggestions fu lim by (utf # us) (e, list) =
     (if length list < lim
      then addSuggestions fu lim by us
        (if utf \<notin> set fu \<and> utf \<notin> set list then (e @ suggestion_item utf by, list @ [utf]) else (e, list))
      else (e, list))"

text \<open>The outer loop, over the users followed that are left; the result has the number of users done.\<close>

fun fillLoop :: "string list \<Rightarrow> string list obj \<Rightarrow> nat \<Rightarrow> string list \<Rightarrow> nat \<Rightarrow> effs \<times> string list \<Rightarrow>
    nat \<times> effs \<times> string list" where
  "fillLoop fu ff start [] i acc = (i, acc)"
| "fillLoop fu ff start (u # us) i (e, list) =
     (if length list < start + 20
      then fillLoop fu ff start us (Suc i) (case oget ff u of
             None \<Rightarrow> (e, list) | Some fs \<Rightarrow> addSuggestions fu (start + 25) u fs (e, list))
      else (i, e, list))"

definition fillWhoToFollowModal :: "string list \<Rightarrow> string list obj \<Rightarrow> string list \<Rightarrow> nat \<Rightarrow> effs \<times> string list \<times> bool" where
  "fillWhoToFollowModal fu ff list start =
     (let (i, e, list') = fillLoop fu ff start fu 0 ([], list)
      in (e, list', \<not> int i \<ge> int (length fu) - 1))"

definition openWhoToFollowModal :: "(string \<Rightarrow> string) \<Rightarrow> bool \<Rightarrow> string list \<Rightarrow> string list obj \<Rightarrow> effs \<times> string list" where
  "openWhoToFollowModal t oldModal fu ff =
     (let (e, list, _) = fillWhoToFollowModal fu ff [] 0
      in (openModal oldModal ''who-to-follow-modal'' @ [Dom ''content'' ''scroll'' [JStr ''whoToFollowScroll'']] @ e @
          [fill_modal ''who-to-follow-modal'', title ''who-to-follow-modal'' (t ''Who to Follow'')], list))"

text \<open>The scroll handler: at the bottom more users are added, until there are no more.\<close>

definition whoToFollowScroll :: "bool \<Rightarrow> string list \<Rightarrow> string list obj \<Rightarrow> string list \<Rightarrow> effs \<times> string list" where
  "whoToFollowScroll bottom fu ff list =
     (if bottom
      then let (e, list', again) = fillWhoToFollowModal fu ff list (length list)
           in (e @ (if again then [] else [Dom ''content'' ''unbind'' [JStr ''scroll'']]), list')
      else ([], list))"

section \<open>Posts in windows of their own\<close>

text \<open>
  The members of a post, read from the object the daemon sent, in the form given by the comment in
  \<^verbatim>\<open>postToElem\<close>. \<open>None\<close>: the object does not have this form.
\<close>

definition member :: "js \<Rightarrow> string \<Rightarrow> js" where
  "member v k = (case js_prop v k of Inr x \<Rightarrow> x | Inl _ \<Rightarrow> JUndef)"

definition js_int :: "js \<Rightarrow> int option" where
  "js_int v = (case v of JNum n \<Rightarrow> Some n | _ \<Rightarrow> None)"

definition js_str :: "js \<Rightarrow> string option" where
  "js_str v = (case v of JStr s \<Rightarrow> Some s | _ \<Rightarrow> None)"

definition rt_of_js :: "js \<Rightarrow> rt_post option" where
  "rt_of_js v = (case (js_str (member v ''n''), js_int (member v ''k''), js_int (member v ''time''), js_str (member v ''msg'')) of
     (Some n, Some k, Some t, Some m) \<Rightarrow> Some \<lparr>rt_n = n, rt_k = k, rt_time = t, rt_msg = m, rt_js = v\<rparr>
   | _ \<Rightarrow> None)"

definition reply_of_js :: "js \<Rightarrow> (string \<times> int) option" where
  "reply_of_js v = (case (js_str (member v ''n''), js_int (member v ''k'')) of
     (Some n, Some k) \<Rightarrow> Some (n, k) | _ \<Rightarrow> None)"

definition userpost_of_js :: "js \<Rightarrow> userpost option" where
  "userpost_of_js v = (case (js_str (member v ''n''), js_int (member v ''k''), js_int (member v ''time'')) of
     (Some n, Some k, Some t) \<Rightarrow> Some \<lparr>up_n = n, up_k = k, up_time = t, up_msg = js_str (member v ''msg''),
        up_lastk = js_int (member v ''lastk''), up_reply = reply_of_js (member v ''reply''),
        up_rt = rt_of_js (member v ''rt''), up_sig_rt = member v ''sig_rt'', up_js = v\<rparr>
   | _ \<Rightarrow> None)"

definition post_of_js :: "js \<Rightarrow> post option" where
  "post_of_js v = map_option (\<lambda>up. \<lparr>userpost_of = up, sig_userpost = member v ''sig_userpost'', post_js = v\<rparr>)
     (userpost_of_js (member v ''userpost''))"

text \<open>The post of an element again, from the JSON text in its \<^verbatim>\<open>data-userpost\<close>.\<close>

definition elem_again :: "fmt_env \<Rightarrow> elem \<Rightarrow> elem result" where
  "elem_again env el =
     (case json_parse (case el_userpost el of Some x \<Rightarrow> x | None \<Rightarrow> ''undefined'') of
        None \<Rightarrow> Inl (Thrown ''SyntaxError'')
      | Some v \<Rightarrow> (case post_of_js v of None \<Rightarrow> Inl TypeErr | Some p \<Rightarrow> postToElem env p ''''))"

definition reTwistPopup :: "(string \<Rightarrow> string) \<Rightarrow> bool \<Rightarrow> fmt_env \<Rightarrow> elem \<Rightarrow> (effs \<times> elem option) result" where
  "reTwistPopup t oldModal env el =
     (if \<not> truthy (fe_me env) then Inr ([Alert (t ''You have to log in to retransmit messages.'')], None)
      else rbind (elem_again env el) (\<lambda>el'.
           Inr (openModal oldModal ''reTwist'' @ [title ''reTwist'' (t ''retransmit_this''), fill_modal ''reTwist''], Some el')))"

text \<open>
  The window for a reply, and the attributes of its text area: copied from the post shown in it. \<open>fullname\<close>
  is the name on the page, \<open>val\<close> the text in the area; the result has the text area's new value, its
  mentions and whether the text will be split.
\<close>

definition replyInitPopup :: "(string \<Rightarrow> js \<Rightarrow> string) \<Rightarrow> bool \<Rightarrow> fmt_env \<Rightarrow> string \<Rightarrow> elem \<Rightarrow> bool \<Rightarrow>
    (effs \<times> elem \<times> string \<times> bool) result" where
  "replyInitPopup tv oldModal env fullname el split =
     rbind (elem_again env el) (\<lambda>el'.
       let (e, val, split') = composeNewPost (fe_store env) True True (Some (el_reply_to el')) '''' split
       in Inr (openModal oldModal ''reply'' @
            [title ''reply'' (tv ''reply_to'' (JObj [(''fullname'', JStr fullname)])),
             Dom ''.reply .modal-content'' ''hide'' [], fill_modal ''reply'',
             Dom ''.reply .post-area .post-area-new'' ''addClass'' [JStr ''open''],
             Dom ''.reply textarea'' ''attr'' [JStr ''placeholder'', JStr (el_placeholder el')],
             Dom ''.reply textarea'' ''attr'' [JStr ''data-reply-to'', JStr (el_reply_to el')]] @ e @
            [Dom ''.reply .modal-content'' ''fadeIn'' [JStr ''fast'']], el', val, split'))"

definition dropDownMenu :: effs where
  "dropDownMenu = [Dom ''.config-menu'' ''slideToggle'' [JStr ''fast'']]"

definition closeThis :: effs where
  "closeThis = [Dom ''this'' ''slideUp'' [JStr ''fast'']]"

section \<open>The expanded view of a post\<close>

text \<open>\<^verbatim>\<open>/((\.jpe{0,1}g)|(\.gif)|(\.png))$/i\<close>.\<close>

definition is_image :: "string \<Rightarrow> bool" where
  "is_image href = list_ex (\<lambda>x. has_prefix (rev x) (rev (map (\<lambda>c. if CHR ''A'' \<le> c \<and> c \<le> CHR ''Z'' then to_lower c else c) href)))
     [''.jpg'', ''.jpeg'', ''.gif'', ''.png'']"

definition preview_url :: "store \<Rightarrow> string \<Rightarrow> string" where
  "preview_url s url =
     (if getUseProxyOpt s \<noteq> JStr ''disable'' \<and> truthy (getUseProxyForImgOnlyOpt s)
      then if getUseProxyOpt s = JStr ''ssl-proxy-my-addr''
           then ''https://ssl-proxy.my-addr.org/myaddrproxy.php/'' @ before_char (CHR '':'') url @ after_char (CHR ''/'') url
           else if getUseProxyOpt s = JStr ''anonymouse''
           then ''http://anonymouse.org/cgi-bin/anon-www.cgi/'' @ url
           else url
      else url)"

text \<open>The images of the links of a post, as the markup that is appended.\<close>

definition previews :: "store \<Rightarrow> bool \<Rightarrow> string list \<Rightarrow> effs" where
  "previews s added hrefs =
     (if getShowPreviewOpt s = JStr ''enable'' \<and> \<not> added
      then map (\<lambda>h. Dom ''.preview-container'' ''append'' [JStr (''<img src='' @ [CHR 0x27] @ preview_url s h @ [CHR 0x27] @
             '' class='' @ [CHR 0x27] @ ''image-preview'' @ [CHR 0x27] @ '' />'')]) (filter is_image hrefs)
      else [])"

text \<open>
  \<open>original\<close>, \<open>opened\<close>: the classes of the list item. Opening puts the post into a list of its own, of
  which it is the only item, and sends the three requests for related posts.
\<close>

definition dht_request :: "string \<Rightarrow> (string \<times> string) option \<Rightarrow> effs" where
  "dht_request multi q = (case q of None \<Rightarrow> [] | Some (n, r) \<Rightarrow> [dhtget_eff n r multi])"

definition postExpandFunction :: "(string \<Rightarrow> string) \<Rightarrow> store \<Rightarrow> bool \<Rightarrow> bool \<Rightarrow> bool \<Rightarrow> string list \<Rightarrow> elem \<Rightarrow> effs \<times> bool" where
  "postExpandFunction t s original opened added hrefs el =
     (if \<not> original then ([], opened)
      else if \<not> opened
      then ([Dom ''.post-data.original'' ''detach'' [], Dom ''postLi'' ''empty'' [], Dom ''postLi'' ''addClass'' [JStr ''open''],
             Dom ''.post-expand'' ''text'' [JStr (t ''Collapse'')], Dom ''ol.expanded-post'' ''appendTo'' [JStr ''postLi''],
             Dom ''.expanded-content'' ''slideDown'' [JStr ''fast'']] @ previews s added hrefs @
            dht_request ''s'' (requestRepliedBefore [el] el) @ dht_request ''m'' (requestRepliesAfter [el] el) @
            requestRTs el, True)
      else ([Dom ''postLi'' ''removeClass'' [JStr ''open''],
             Dom ''.post-expand'' ''text'' [JStr (t (if el_replied_to el = None then ''Expand'' else ''Show conversation''))],
             Dom ''.related'' ''slideUp'' [JStr ''fast''],
             Dom ''.expanded-content'' ''slideUp'' [JStr ''fast'', JStr ''restore'']], False))"

text \<open>A click on reply: a window for a related post, the post itself otherwise, which is opened first.\<close>

definition postReplyClick :: "(string \<Rightarrow> string) \<Rightarrow> (string \<Rightarrow> js \<Rightarrow> string) \<Rightarrow> bool \<Rightarrow> fmt_env \<Rightarrow> bool \<Rightarrow> bool \<Rightarrow> bool \<Rightarrow>
    string list \<Rightarrow> string \<Rightarrow> elem \<Rightarrow> bool \<Rightarrow> string \<Rightarrow> bool \<Rightarrow> (effs \<times> string \<times> bool) result" where
  "postReplyClick t tv oldModal env original opened added hrefs fullname el areaOpen val split =
     (if \<not> truthy (fe_me env) then Inr ([Alert (t ''You have to log in to post replies.'')], val, split)
      else if \<not> original
      then rbind (replyInitPopup tv oldModal env fullname el split) (\<lambda>(e, _, val', split'). Inr (e, val', split'))
      else let e1 = (if opened then [] else fst (postExpandFunction t (fe_store env) original opened added hrefs el));
               (e2, val', split') = composeNewPost (fe_store env) areaOpen True (Some (el_reply_to el)) val split
           in Inr (e1 @ e2, val', split'))"

section \<open>The page\<close>

definition changeStyle :: "store \<Rightarrow> effs" where
  "changeStyle s =
     (let original = (getTheme s = JStr ''original'');
          dir = (if original then '''' else ''theme_calm/'')
      in [Dom ''#stylecss'' ''attr'' [JStr ''href'', JStr (dir @ ''css/style.css'')],
          Dom ''#profilecss'' ''attr'' [JStr ''href'', JStr (dir @ ''css/profile.css'')],
          Dom ''style'' ''appendTo'' [JStr ''head'', JStr (''.theme_'' @ js_string (getTheme s))],
          Timer ''removeAttr style'' 0])"

text \<open>\<^verbatim>\<open>localStorage.defaultScreenName\<close> is the text in the storage.\<close>

definition mens_suggests :: "store \<Rightarrow> string list \<Rightarrow> string list" where
  "mens_suggests s followingUsers = rev (filter (\<lambda>u. oget s ''defaultScreenName'' \<noteq> Some u) followingUsers)"

definition mens_search :: "string list \<Rightarrow> string \<Rightarrow> string list" where
  "mens_search mentions q = filter (\<lambda>m. js_indexOf m q = Some 0) mentions"

definition mens_replace :: "string \<Rightarrow> string" where
  "mens_replace mention = ''@'' @ mention @ '' ''"

abbreviation bind_click :: "string \<times> string \<Rightarrow> eff" where
  "bind_click sf \<equiv> Dom (fst sf) ''bind'' [JStr ''click'', JStr (snd sf)]"

definition initInterfaceCommon :: "store \<Rightarrow> effs" where
  "initInterfaceCommon s =
     [Dom ''body'' ''on'' [JStr ''click'', JStr ''closeModal''], Dom ''.cancel'' ''on'' [JStr ''click'', JStr ''cancelClick''],
      Dom ''.modal-back'' ''on'' [JStr ''click'', JStr ''modalBackClick''],
      Dom ''.dropdown-menu'' ''on'' [JStr ''keydown'', JStr ''stopPropagation''],
      Dom ''.post-text'' ''on'' [JStr ''click'', JStr ''a'', JStr ''stopPropagation'']] @
     map bind_click [(''.post-reply'', ''postReplyClick''), (''.post-propagate'', ''reTwistPopup''),
       (''.userMenu-config-dropdown'', ''dropDownMenu'')] @
     [Dom ''.config-menu'' ''clickoutside'' [JStr ''closeThis'']] @
     map bind_click [(''.module.post'', ''postExpandFunction''), (''.post-area-new'', ''composeNewPost'')] @
     [Dom ''.post-area-new'' ''clickoutside'' [JStr ''unfocusThis''],
      Dom ''.post-submit'' ''click'' [JStr ''postSubmit''], Dom ''.modal-propagate'' ''click'' [JStr ''retweetSubmit''],
      Dom ''.undo-unicode'' ''click'' [JStr ''undoLastUnicode'']] @
     (if getUnicodeConversionOpt s = JStr ''disable'' then [Dom ''.undo-unicode'' ''css'' [JStr ''display'', JStr ''none'']] else []) @
     [Dom ''.post-area-new textarea'' ''on'' [JStr ''keyup'', JStr ''replyTextKeypress'']] @
     map bind_click [(''.open-profile-modal'', ''openProfileModal''), (''.open-hashtag-modal'', ''openHashtagModal''),
       (''.open-following-modal'', ''openFollowingModal''), (''.userMenu-connections a'', ''openMentionsModal''),
       (''.who-to-follow .refresh-users'', ''refreshWhoToFollow''), (''.who-to-follow .view-all-users'', ''openWhoToFollowModal'')]"

text \<open>\<open>styled\<close>: the content has a \<^verbatim>\<open>style\<close>; \<open>threads\<close>: the list of threads is shown.\<close>

definition cancelClick :: "bool \<Rightarrow> bool \<Rightarrow> effs" where
  "cancelClick isCancel styled =
     (if \<not> isCancel then []
      else (if styled then [Dom ''.modal-content'' ''removeAttr'' [JStr ''style'']] else []) @
        [Dom ''.modal-back'' ''css'' [JStr ''display'', JStr ''none''],
         Dom ''.mark-all-as-read'' ''css'' [JStr ''display'', JStr ''none'']])"

definition modalBackClick :: "(string \<Rightarrow> string) \<Rightarrow> bool \<Rightarrow> bool \<Rightarrow> js \<Rightarrow> string list \<Rightarrow> effs" where
  "modalBackClick t threads oldModal me followingUsers =
     (if threads then []
      else directMessagesPopup t oldModal me followingUsers @ [Dom ''.modal-content'' ''removeAttr'' [JStr ''style'']])"

section \<open>Properties\<close>

lemma replyInitPopup_split:
  "replyInitPopup tv oldModal env fullname el split = Inr (e, el', val, split') \<Longrightarrow> split' = split"
  by (auto simp: replyInitPopup_def composeNewPost_def rbind_Inr_iff Let_def)

lemma postToElem_userpost: "postToElem env p kind = Inr el \<Longrightarrow> el_userpost el = toJSON (post_js p)"
  by (auto simp: postToElem_def Let_def split: option.splits prod.splits)

lemma postToElem_kind: "postToElem env p kind = Inr el \<Longrightarrow> postToElem env p kind' = Inr (el\<lparr>el_kind := kind'\<rparr>)"
  by (auto simp: postToElem_def Let_def split: option.splits prod.splits)

lemma post_of_js_self: "post_of_js v = Some p \<Longrightarrow> post_js p = v"
  by (auto simp: post_of_js_def)

text \<open>
  The windows for a retransmission and for a reply show the post the user clicked on: the element
  built again from the JSON text kept in the page is the original one in all but its style class.
\<close>

theorem popup_shows_same_post:
  assumes "post_of_js v = Some p" and "jsonable v" and "postToElem env p kind = Inr el"
  shows "elem_again env el = Inr (el\<lparr>el_kind := ''''\<rparr>)"
  using postToElem_userpost [OF assms(3)] postToElem_kind [OF assms(3)] post_of_js_self [OF assms(1)] assms(1,2)
  by (simp add: elem_again_def toJSON_json json_parse_json)

definition ex_json :: js where
  "ex_json = JObj [(''userpost'', JObj [(''n'', JStr ''bob''), (''k'', JNum 3), (''time'', JNum 100), (''msg'', JStr ''hi'')]),
     (''sig_userpost'', JStr ''sig'')]"

theorem popup_shows_same_post_witness:
  "\<exists>p el. post_of_js ex_json = Some p \<and> postToElem ex_env p ''original'' = Inr el \<and>
     elem_again ex_env el = Inr (el\<lparr>el_kind := ''''\<rparr>)"
proof -
  have "\<exists>p. post_of_js ex_json = Some p \<and> up_rt (userpost_of p) = None \<and> up_msg (userpost_of p) = Some ''hi''"
    by (simp add: post_of_js_def userpost_of_js_def ex_json_def member_def js_str_def js_int_def rt_of_js_def)
  then obtain p where p: "post_of_js ex_json = Some p" "up_rt (userpost_of p) = None" "up_msg (userpost_of p) = Some ''hi''"
    by blast
  then have "\<exists>el. postToElem ex_env p ''original'' = Inr el" by (simp add: postToElem_def Let_def split_beta)
  then obtain el where el: "postToElem ex_env p ''original'' = Inr el" ..
  moreover have "jsonable ex_json" by (simp add: ex_json_def)
  ultimately show ?thesis using popup_shows_same_post [OF p(1)] p(1) by blast
qed

text \<open>The users suggested: nobody twice, nobody who is followed already, at most \<open>lim\<close>.\<close>

definition suggestions_ok :: "string list \<Rightarrow> nat \<Rightarrow> string list \<Rightarrow> bool" where
  "suggestions_ok fu lim list \<longleftrightarrow> distinct list \<and> set list \<inter> set fu = {} \<and> length list \<le> lim"

lemma addSuggestions_ok:
  "suggestions_ok fu lim list \<Longrightarrow> case addSuggestions fu lim by us (e, list) of (e', list') \<Rightarrow>
     suggestions_ok fu lim list' \<and> (\<exists>new. list' = list @ new \<and> set new \<subseteq> set us)"
proof (induction us arbitrary: e list)
  case (Cons u us)
  show ?case
  proof (cases "length list < lim \<and> u \<notin> set fu \<and> u \<notin> set list")
    case True
    with Cons.prems have "suggestions_ok fu lim (list @ [u])" by (auto simp: suggestions_ok_def)
    from Cons.IH [OF this, of "e @ suggestion_item u by"] True show ?thesis by (fastforce split: prod.splits)
  next
    case False
    with Cons.prems Cons.IH [OF Cons.prems, of e] show ?thesis by (auto split: prod.splits)
  qed
qed simp

lemma fillLoop_ok:
  "suggestions_ok fu (start + 25) list \<Longrightarrow> case fillLoop fu ff start us i (e, list) of (i', e', list') \<Rightarrow>
     suggestions_ok fu (start + 25) list' \<and> (\<exists>new. list' = list @ new)"
proof (induction us arbitrary: i e list)
  case (Cons u us)
  obtain e1 list1 where 1: "(case oget ff u of None \<Rightarrow> (e, list) | Some fs \<Rightarrow> addSuggestions fu (start + 25) u fs (e, list)) =
      (e1, list1)" by (metis prod.collapse)
  have "suggestions_ok fu (start + 25) list1 \<and> (\<exists>new. list1 = list @ new)"
    using 1 Cons.prems addSuggestions_ok [OF Cons.prems] by (fastforce split: option.splits prod.splits)
  then obtain new1 where ok1: "suggestions_ok fu (start + 25) list1" "list1 = list @ new1" by blast
  show ?case
  proof (cases "length list < start + 20")
    case True
    then have "fillLoop fu ff start (u # us) i (e, list) = fillLoop fu ff start us (Suc i) (e1, list1)"
      using 1 by simp
    with Cons.IH [OF ok1(1), of "Suc i" e1] ok1(2) show ?thesis by auto
  qed (use Cons.prems in simp)
qed simp

text \<open>
  C30. Filling the window with suggestions adds users at the end, never one twice and never one who is
  followed already, and at most 25 at a time.
\<close>

theorem suggestions_fresh:
  assumes "distinct list" and "set list \<inter> set fu = {}"
    and "fillWhoToFollowModal fu ff list (length list) = (e, list', b)"
  shows "distinct list' \<and> set list' \<inter> set fu = {} \<and> (\<exists>new. list' = list @ new \<and> length new \<le> 25)"
proof -
  have "suggestions_ok fu (length list + 25) list" using assms(1,2) by (simp add: suggestions_ok_def)
  from fillLoop_ok [OF this, of ff fu 0 "[]"] assms(3) show ?thesis
    by (auto simp: fillWhoToFollowModal_def suggestions_ok_def split: prod.splits)
qed

theorem suggestions_fresh_witness:
  "fst (snd (fillWhoToFollowModal [''bob''] [(''bob'', [''eve'', ''bob'', ''eve''])] [] 0)) = [''eve''] \<and>
   distinct (fst (snd (fillWhoToFollowModal [''bob''] [(''bob'', [''eve'', ''bob'', ''eve''])] [] 0)))"
  using suggestions_fresh [of "[]" "[''bob'']" "[(''bob'', [''eve'', ''bob'', ''eve''])]"]
  by (simp add: fillWhoToFollowModal_def split: prod.splits)

lemma fillLoop_full:
  "start + 20 \<le> length list \<Longrightarrow> fillLoop fu ff start us i (e, list) = (i, e, list)"
  by (cases us) auto

text \<open>
  The last user followed can be left out: when the users before have filled the window, the answer is
  that there are no more suggestions, without a look at those the last one follows, and the window stops
  asking.
\<close>

theorem last_user_left_out:
  assumes "fillLoop (us @ [u]) ff 0 us 0 ([], []) = (length us, e, list)" and "20 \<le> length list"
  shows "fillWhoToFollowModal (us @ [u]) ff [] 0 = (e, list, False)"
proof -
  have "fillLoop fu ff 0 (vs @ [u]) i acc = (case fillLoop fu ff 0 vs i acc of (j, e', list') \<Rightarrow>
      if j = i + length vs then fillLoop fu ff 0 [u] j (e', list') else (j, e', list'))" for fu vs i acc
  proof (induction fu ff "0 :: nat" vs i acc rule: fillLoop.induct)
    case (2 fu ff v vs i e list)
    then show ?case by (auto split: prod.splits)
  qed (simp split: prod.splits)
  from this [of "us @ [u]" us 0 "([], [])"] assms fillLoop_full [of 0 list "us @ [u]" ff "[u]" "length us" e]
  show ?thesis by (simp add: fillWhoToFollowModal_def)
qed

definition ex_followings :: "string list obj" where
  "ex_followings = [(''a'', map (\<lambda>n. replicate n (CHR ''x'')) [1..<22]), (''b'', [''eve''])]"

theorem last_user_left_out_witness:
  "\<exists>e list. fillWhoToFollowModal [''a'', ''b''] ex_followings [] 0 = (e, list, False) \<and> ''eve'' \<notin> set list"
proof -
  let ?r = "fillLoop [''a'', ''b''] ex_followings 0 [''a''] 0 ([], [])"
  have r: "fst ?r = 1" "length (snd (snd ?r)) = 21" "''eve'' \<notin> set (snd (snd ?r))" by code_simp+
  then have "?r = (1, fst (snd ?r), snd (snd ?r))" by (metis prod.collapse)
  with last_user_left_out [of "[''a'']" "''b''" ex_followings "fst (snd ?r)" "snd (snd ?r)"] r show ?thesis by simp
qed

end
