(* ===== verification/Textcomplete.thy ===== *)
theory Textcomplete
  imports Interface_Common
begin

text \<open>
  The completion menu of the text areas, \<^verbatim>\<open>jquery.textcomplete.js\<close>, with the strategy that
  \<^verbatim>\<open>mensAutocomplete\<close> of \<^verbatim>\<open>interface_common.js\<close> registers for mentions.

  A \<open>strategy\<close> is the object a caller passes. Its regular expression is \<open>st_exec\<close>, which gives
  the text before the match, the match array and the text after it; \<open>st_search\<close> gives the calls a
  search makes of its callback before it returns (\<open>data\<close> and \<open>keep\<close>); completions are strings.
  A \<open>listview\<close> is a \<^verbatim>\<open>ListView\<close>, a \<open>completer\<close> a \<^verbatim>\<open>Completer\<close>; \<^verbatim>\<open>null\<close> is \<open>None\<close>. Every
  operation returns the state it leaves, also when it throws, because the lock of \<^verbatim>\<open>search\<close>
  outlives an exception. The pixel position of the menu is not modelled.
\<close>

section \<open>Strategies\<close>

record strategy =
  st_exec :: "string \<Rightarrow> (string \<times> string option list \<times> string) option"
  st_search :: "js \<Rightarrow> (string list \<times> bool) list"
  st_replace :: "string option \<Rightarrow> string \<times> string option"
  st_template :: "string \<Rightarrow> string"
  st_index :: nat
  st_maxCount :: nat

text \<open>The fields a caller may leave out, before \<^verbatim>\<open>$.fn.textcomplete\<close> fills them in.\<close>

record raw_strategy =
  rs_exec :: "string \<Rightarrow> (string \<times> string option list \<times> string) option"
  rs_search :: "js \<Rightarrow> (string list \<times> bool) list"
  rs_replace :: "string option \<Rightarrow> string \<times> string option"
  rs_template :: "(string \<Rightarrow> string) option"
  rs_index :: "nat option"
  rs_maxCount :: "nat option"

definition setup_strategy :: "raw_strategy \<Rightarrow> strategy" where
  "setup_strategy r = \<lparr>st_exec = rs_exec r, st_search = rs_search r, st_replace = rs_replace r,
     st_template = (case rs_template r of None \<Rightarrow> (\<lambda>x. x) | Some f \<Rightarrow> f),
     st_index = (case rs_index r of None \<Rightarrow> 2 | Some i \<Rightarrow> i),
     st_maxCount = (case rs_maxCount r of None \<Rightarrow> 10 | Some n \<Rightarrow> if n = 0 then 10 else n)\<rparr>"

text \<open>
  \<^verbatim>\<open>memoize(func)\<close>: the callbacks that reach the caller and the memo they leave. A memoized
  answer, an empty one too, is delivered as one final callback.
\<close>

fun memo_add :: "string list obj \<Rightarrow> string \<Rightarrow> (string list \<times> bool) list \<Rightarrow> string list obj" where
  "memo_add memo q [] = memo"
| "memo_add memo q ((data, keep) # cbs) =
     memo_add (oset memo q ((case oget memo q of None \<Rightarrow> [] | Some d \<Rightarrow> d) @ data)) q cbs"

definition memoize :: "(string \<Rightarrow> (string list \<times> bool) list) \<Rightarrow> string list obj \<Rightarrow> string \<Rightarrow>
    (string list \<times> bool) list \<times> string list obj" where
  "memoize func memo q = (case oget memo q of
     Some d \<Rightarrow> ([(d, False)], memo)
   | None \<Rightarrow> (func q, memo_add memo q (func q)))"

section \<open>The menu\<close>

text \<open>
  \<open>lv_items\<close> are the \<^verbatim>\<open>li\<close> children with their \<^verbatim>\<open>data-index\<close>, \<open>lv_active\<close> the positions of
  those with the class \<^verbatim>\<open>active\<close>, \<open>lv_effs\<close> what the menu did to the page so far.
\<close>

record listview =
  lv_data :: "string list option"
  lv_index :: "int option"
  lv_shown :: bool
  lv_strategy :: "strategy option"
  lv_items :: "(nat \<times> string) list"
  lv_active :: "nat list"
  lv_effs :: effs

definition new_ListView :: listview where
  "new_ListView = \<lparr>lv_data = Some [], lv_index = Some 0, lv_shown = False, lv_strategy = None,
     lv_items = [], lv_active = [], lv_effs = []\<rparr>"

definition lv_clear :: "listview \<Rightarrow> listview" where
  "lv_clear lv = lv\<lparr>lv_data := Some [], lv_items := [], lv_active := [], lv_index := Some 0\<rparr>"

text \<open>\<^verbatim>\<open>children().get(index)\<close>: every child for \<^verbatim>\<open>null\<close>, from the end for a negative index.\<close>

definition getActiveItem :: "listview \<Rightarrow> nat list" where
  "getActiveItem lv = (let n = length (lv_items lv) in case lv_index lv of
     None \<Rightarrow> [0..<n]
   | Some i \<Rightarrow> let j = (if i < 0 then i + int n else i) in
       if 0 \<le> j \<and> j < int n then [nat j] else [])"

definition activateIndexedItem :: "listview \<Rightarrow> listview" where
  "activateIndexedItem lv = lv\<lparr>lv_active := getActiveItem lv\<rparr>"

definition lv_activate :: "listview \<Rightarrow> listview" where
  "lv_activate lv = (if lv_shown lv then lv
     else lv\<lparr>lv_shown := True,
             lv_effs := lv_effs lv @ [Dom ''list'' ''show'' [], Dom ''textarea'' ''trigger'' [JStr ''textComplete:show'']]\<rparr>)"

definition deactivate :: "listview \<Rightarrow> listview" where
  "deactivate lv = (if lv_shown lv
     then lv\<lparr>lv_shown := False, lv_data := None, lv_index := None,
             lv_effs := lv_effs lv @ [Dom ''list'' ''hide'' [], Dom ''textarea'' ''trigger'' [JStr ''textComplete:hide'']]\<rparr>
     else lv)"

text \<open>The loop of \<^verbatim>\<open>render\<close> over the new completions, with the data and the items so far.\<close>

fun render_loop :: "strategy \<Rightarrow> string list \<Rightarrow> string list \<Rightarrow> (nat \<times> string) list \<Rightarrow>
    string list \<times> (nat \<times> string) list" where
  "render_loop st [] data items = (data, items)"
| "render_loop st (v # vs) data items =
     (if v \<in> set data then render_loop st vs data items
      else let data' = data @ [v]; items' = items @ [(length data, st_template st v)]
           in if length data' = st_maxCount st then (data', items')
              else render_loop st vs data' items')"

definition rendered :: "listview \<Rightarrow> listview" where
  "rendered lv = (if lv_data lv = Some [] then deactivate lv else activateIndexedItem lv)"

definition render :: "listview \<Rightarrow> string list \<Rightarrow> listview \<times> js_error option" where
  "render lv data = (case lv_data lv of
     None \<Rightarrow> (lv, Some TypeErr)
   | Some d \<Rightarrow> (case lv_strategy lv of
       Some st \<Rightarrow> (let (d', items') = render_loop st data d (lv_items lv)
                  in (rendered (lv\<lparr>lv_data := Some d', lv_items := items'\<rparr>), None))
     | None \<Rightarrow> (case dropWhile (\<lambda>v. v \<in> set d) data of
         [] \<Rightarrow> (rendered lv, None)
       | v # _ \<Rightarrow> (lv\<lparr>lv_data := Some (d @ [v])\<rparr>, Some TypeErr))))"

section \<open>The completer\<close>

text \<open>
  \<open>c_value\<close> and \<open>c_selEnd\<close> are the text of the area and the end of its selection; \<open>c_term\<close> is
  \<^verbatim>\<open>undefined\<close> before the first search.
\<close>

record completer =
  c_value :: string
  c_selEnd :: nat
  c_strategies :: "strategy list"
  c_strategy :: "strategy option"
  c_term :: js
  c_clearAtNext :: bool
  c_skipNextKeyup :: bool
  c_list :: listview

definition new_Completer :: "string \<Rightarrow> nat \<Rightarrow> completer" where
  "new_Completer text caret = \<lparr>c_value = text, c_selEnd = caret, c_strategies = [], c_strategy = None,
     c_term = JUndef, c_clearAtNext = False, c_skipNextKeyup = False, c_list = new_ListView\<rparr>"

definition register :: "strategy list \<Rightarrow> completer \<Rightarrow> completer" where
  "register sts c = c\<lparr>c_strategies := c_strategies c @ sts\<rparr>"

text \<open>\<^verbatim>\<open>$.fn.textcomplete\<close> on one element, with the completer stored in its data, if any.\<close>

definition textcomplete :: "raw_strategy list \<Rightarrow> string \<Rightarrow> nat \<Rightarrow> completer option \<Rightarrow> completer" where
  "textcomplete raws text caret stored = register (map setup_strategy raws)
     (case stored of Some c \<Rightarrow> c | None \<Rightarrow> new_Completer text caret)"

definition getTextFromHeadToCaret :: "completer \<Rightarrow> string" where
  "getTextFromHeadToCaret c = take (c_selEnd c) (c_value c)"

text \<open>\<^verbatim>\<open>match[strategy.index]\<close>: a group that took no part, or a missing one, is \<^verbatim>\<open>undefined\<close>.\<close>

definition match_at :: "string option list \<Rightarrow> nat \<Rightarrow> js" where
  "match_at groups i = (if i < length groups
     then (case groups ! i of Some g \<Rightarrow> JStr g | None \<Rightarrow> JUndef) else JUndef)"

fun extractSearchQuery :: "strategy list \<Rightarrow> string \<Rightarrow> (strategy \<times> js) option" where
  "extractSearchQuery [] text = None"
| "extractSearchQuery (st # sts) text = (case st_exec st text of
     Some (before, groups, after) \<Rightarrow> Some (st, match_at groups (st_index st))
   | None \<Rightarrow> extractSearchQuery sts text)"

definition renderList :: "completer \<Rightarrow> string list \<Rightarrow> completer \<times> js_error option" where
  "renderList c data =
     (let c1 = (if c_clearAtNext c then c\<lparr>c_list := lv_clear (c_list c), c_clearAtNext := False\<rparr> else c);
          lv1 = c_list c1;
          lv2 = (if data \<noteq> [] \<and> \<not> lv_shown lv1
                 then (lv_activate (lv_clear lv1))\<lparr>lv_strategy := c_strategy c1\<rparr> else lv1);
          (lv3, err) = (if data = [] then (lv2, None)
                        else (case c_strategy c1 of
                          None \<Rightarrow> (lv2, Some TypeErr)
                        | Some st \<Rightarrow> render lv2 (take (st_maxCount st) data)))
      in case err of
           Some e \<Rightarrow> (c1\<lparr>c_list := lv3\<rparr>, Some e)
         | None \<Rightarrow> (case lv_data lv3 of
             None \<Rightarrow> (c1\<lparr>c_list := lv3\<rparr>, Some TypeErr)
           | Some d \<Rightarrow> (c1\<lparr>c_list := (if d = [] \<and> lv_shown lv3 then deactivate lv3 else lv3)\<rparr>, None)))"

text \<open>
  \<^verbatim>\<open>search\<close> runs under \<^verbatim>\<open>lock\<close>, whose variable \<^verbatim>\<open>locked\<close> belongs to the prototype: the flag is
  shared by all completers of the page, so operations that search take and return it. The callback
  made by \<^verbatim>\<open>searchCallbackFactory\<close> frees the lock at its last call.
\<close>

type_synonym search_state = "bool \<times> completer"

definition searchCallback :: "search_state \<Rightarrow> string list \<Rightarrow> bool \<Rightarrow> search_state \<times> js_error option" where
  "searchCallback s data keep = (let (c', err) = renderList (snd s) data in
     if err \<noteq> None then ((fst s, c'), err)
     else if keep then ((fst s, c'), None)
     else ((False, c'\<lparr>c_clearAtNext := True\<rparr>), None))"

fun runCallbacks :: "search_state \<Rightarrow> (string list \<times> bool) list \<Rightarrow> search_state \<times> js_error option" where
  "runCallbacks s [] = (s, None)"
| "runCallbacks s ((data, keep) # cbs) = (case searchCallback s data keep of
     (s', Some e) \<Rightarrow> (s', Some e)
   | (s', None) \<Rightarrow> runCallbacks s' cbs)"

definition completer_search :: "search_state \<Rightarrow> strategy \<times> js \<Rightarrow> search_state \<times> js_error option" where
  "completer_search s query = (if fst s then (s, None)
     else runCallbacks (True, (snd s)\<lparr>c_strategy := Some (fst query)\<rparr>) (st_search (fst query) (snd query)))"

definition skipSearch :: "completer \<Rightarrow> int \<Rightarrow> bool \<times> completer" where
  "skipSearch c keyCode = (if c_skipNextKeyup c then (True, c\<lparr>c_skipNextKeyup := False\<rparr>)
     else (keyCode = 40 \<or> keyCode = 38, c))"

definition onKeyup :: "search_state \<Rightarrow> int \<Rightarrow> search_state \<times> js_error option" where
  "onKeyup s keyCode = (let (skip, c) = skipSearch (snd s) keyCode in
     if skip then ((fst s, c), None)
     else (case extractSearchQuery (c_strategies c) (getTextFromHeadToCaret c) of
       Some query \<Rightarrow> (if c_term c = snd query then ((fst s, c), None)
                     else completer_search (fst s, c\<lparr>c_term := snd query\<rparr>) query)
     | None \<Rightarrow> ((fst s, c\<lparr>c_term := JNull, c_list := deactivate (c_list c)\<rparr>), None)))"

text \<open>
  The expansion of \<^verbatim>\<open>$\<close> patterns in the second argument of \<^verbatim>\<open>replace\<close>, with the text before the
  match, the match array and the text after it.
\<close>

definition capture :: "string option list \<Rightarrow> nat \<Rightarrow> string" where
  "capture groups i = (case groups ! i of Some g \<Rightarrow> g | None \<Rightarrow> [])"

fun expand :: "string \<Rightarrow> string option list \<Rightarrow> string \<Rightarrow> string \<Rightarrow> string" where
  "expand b gs a [] = []"
| "expand b gs a [c] = [c]"
| "expand b gs a (c # d # r) =
     (if c \<noteq> CHR ''$'' then c # expand b gs a (d # r)
      else if d = CHR ''$'' then c # expand b gs a r
      else if d = CHR ''&'' then capture gs 0 @ expand b gs a r
      else if d = CHR 0x60 then b @ expand b gs a r
      else if d = CHR 0x27 then a @ expand b gs a r
      else if is_digit d \<and> r \<noteq> [] \<and> is_digit (hd r) \<and> 1 \<le> 10 * digit_val d + digit_val (hd r)
           \<and> 10 * digit_val d + digit_val (hd r) < length gs
        then capture gs (10 * digit_val d + digit_val (hd r)) @ expand b gs a (tl r)
      else if is_digit d \<and> 1 \<le> digit_val d \<and> digit_val d < length gs
        then capture gs (digit_val d) @ expand b gs a r
      else c # expand b gs a (d # r))"

definition regex_replace :: "strategy \<Rightarrow> string \<Rightarrow> string \<Rightarrow> string" where
  "regex_replace st text repl = (case st_exec st text of
     None \<Rightarrow> text | Some (b, gs, a) \<Rightarrow> b @ expand b gs a repl @ a)"

definition onSelect :: "completer \<Rightarrow> string option \<Rightarrow> completer \<times> js_error option" where
  "onSelect c selected = (case c_strategy c of
     None \<Rightarrow> (c, Some TypeErr)
   | Some st \<Rightarrow>
       let (newSubStr, extra) = st_replace st selected;
           post = (case extra of None \<Rightarrow> [] | Some e \<Rightarrow> e) @ drop (c_selEnd c) (c_value c);
           pre = regex_replace st (getTextFromHeadToCaret c) newSubStr;
           lv = c_list c
       in (c\<lparr>c_value := pre @ post, c_selEnd := length pre, c_skipNextKeyup := True,
             c_list := lv\<lparr>lv_effs := lv_effs lv @ [Dom ''textarea'' ''trigger'' [JStr ''change''],
               Dom ''textarea'' ''trigger'' [JStr ''textComplete:select''], Dom ''textarea'' ''focus'' []]\<rparr>\<rparr>,
           None))"

text \<open>
  \<^verbatim>\<open>select(index)\<close>, with \<open>None\<close> for \<^verbatim>\<open>NaN\<close>; the menu closes in a timer of its own, \<^verbatim>\<open>deactivate\<close>.
\<close>

definition lv_select :: "completer \<Rightarrow> nat option \<Rightarrow> completer \<times> js_error option" where
  "lv_select c idx = (case lv_data (c_list c) of
     None \<Rightarrow> (c, Some TypeErr)
   | Some d \<Rightarrow>
       let (c', err) = onSelect c (case idx of None \<Rightarrow> None | Some i \<Rightarrow> if i < length d then Some (d ! i) else None);
           lv = c_list c'
       in if err \<noteq> None then (c', err)
          else (c'\<lparr>c_list := lv\<lparr>lv_effs := lv_effs lv @ [Timer ''deactivate'' 0]\<rparr>\<rparr>, None))"

text \<open>The data index of the first of some positions among the items.\<close>

definition item_index :: "listview \<Rightarrow> nat list \<Rightarrow> nat option" where
  "item_index lv ps = (case ps of [] \<Rightarrow> None | p # _ \<Rightarrow>
     if p < length (lv_items lv) then Some (fst (lv_items lv ! p)) else None)"

definition lv_move :: "listview \<Rightarrow> int \<Rightarrow> listview" where
  "lv_move lv i = activateIndexedItem (lv\<lparr>lv_index := Some i\<rparr>)"

text \<open>An index that is \<^verbatim>\<open>null\<close> counts as 0 in the arithmetic and is not equal to a number.\<close>

definition onKeydown :: "completer \<Rightarrow> int \<Rightarrow> completer \<times> js_error option" where
  "onKeydown c keyCode = (let lv = c_list c; i = (case lv_index lv of None \<Rightarrow> 0 | Some i \<Rightarrow> i) in
     if \<not> lv_shown lv then (c, None)
     else if keyCode = 38 then
       (if lv_index lv = Some 0
        then (case lv_data lv of
            None \<Rightarrow> (c, Some TypeErr)
          | Some d \<Rightarrow> (c\<lparr>c_list := lv_move lv (int (length d) - 1)\<rparr>, None))
        else (c\<lparr>c_list := lv_move lv (i - 1)\<rparr>, None))
     else if keyCode = 40 then
       (case lv_data lv of
          None \<Rightarrow> (c, Some TypeErr)
        | Some d \<Rightarrow> (c\<lparr>c_list := lv_move lv (if lv_index lv = Some (int (length d) - 1) then 0 else i + 1)\<rparr>, None))
     else if keyCode = 13 \<or> keyCode = 9 then lv_select c (item_index lv (getActiveItem lv))
     else (c, None))"

definition lv_onClick :: "completer \<Rightarrow> nat \<Rightarrow> completer \<times> js_error option" where
  "lv_onClick c position = lv_select c (item_index (c_list c) [position])"

definition onClickDocument :: "completer \<Rightarrow> bool \<Rightarrow> completer" where
  "onClickDocument c keepDropdown = (if keepDropdown then c else c\<lparr>c_list := deactivate (c_list c)\<rparr>)"

definition onKeyupDocument :: "completer \<Rightarrow> int \<Rightarrow> completer" where
  "onKeyupDocument c keyCode = (if lv_shown (c_list c) \<and> keyCode = 27
     then (let lv = deactivate (c_list c)
           in c\<lparr>c_list := lv\<lparr>lv_effs := lv_effs lv @ [Dom ''textarea'' ''focus'' []]\<rparr>\<rparr>)
     else c)"

definition completer_destroy :: "completer \<Rightarrow> effs" where
  "completer_destroy c = [Dom ''textarea'' ''off'' [JStr ''.textComplete''], Dom ''document'' ''off'' []]
     @ drop (length (lv_effs (c_list c))) (lv_effs (deactivate (c_list c)))
     @ [Dom ''list'' ''remove'' [], Dom ''wrapper'' ''remove'' []]"

section \<open>The mention strategy\<close>

text \<open>The regular expression \<^verbatim>\<open>/\B@(\w*)$/\<close>: \<open>prev_word\<close> tells whether a word character comes before.\<close>

definition is_word :: "char \<Rightarrow> bool" where
  "is_word c = (let n = (of_char c :: nat) in
     (48 \<le> n \<and> n \<le> 57) \<or> (65 \<le> n \<and> n \<le> 90) \<or> (97 \<le> n \<and> n \<le> 122) \<or> n = 95)"

fun mention_scan :: "string \<Rightarrow> bool \<Rightarrow> string \<Rightarrow> (string \<times> string option list \<times> string) option" where
  "mention_scan before prev_word [] = None"
| "mention_scan before prev_word (c # cs) =
     (if c = CHR ''@'' \<and> \<not> prev_word \<and> list_all is_word cs
      then Some (before, [Some (c # cs), Some cs], [])
      else mention_scan (before @ [c]) (is_word c) cs)"

definition mention_strategy :: "string list \<Rightarrow> raw_strategy" where
  "mention_strategy suggests = \<lparr>rs_exec = mention_scan [] False,
     rs_search = (\<lambda>q. [(mens_search suggests (js_string q), False)]),
     rs_replace = (\<lambda>m. (mens_replace (case m of Some u \<Rightarrow> u | None \<Rightarrow> ''undefined''), None)),
     rs_template = None, rs_index = Some 1, rs_maxCount = None\<rparr>"

definition mensAutocomplete :: "store \<Rightarrow> string list \<Rightarrow> string \<Rightarrow> nat \<Rightarrow> completer option \<Rightarrow> completer" where
  "mensAutocomplete s followingUsers = textcomplete [mention_strategy (mens_suggests s followingUsers)]"

section \<open>Events\<close>

text \<open>
  What can happen to one text area: the user edits the text, keys, clicks, the timer of \<open>lv_select\<close>,
  a late call of a search callback, a further registration, and the other completers of the page
  taking or freeing the shared lock.
\<close>

datatype tc_event =
    Edit string nat
  | Keyup int
  | Keydown int
  | ClickItem nat
  | ClickDocument bool
  | KeyupDocument int
  | Tick
  | Answer "string list" bool
  | Register "raw_strategy list"
  | Others bool

fun tc_handle :: "search_state \<Rightarrow> tc_event \<Rightarrow> search_state \<times> js_error option" where
  "tc_handle s (Edit text caret) = ((fst s, (snd s)\<lparr>c_value := text, c_selEnd := caret\<rparr>), None)"
| "tc_handle s (Keyup k) = onKeyup s k"
| "tc_handle s (Keydown k) = (let (c, err) = onKeydown (snd s) k in ((fst s, c), err))"
| "tc_handle s (ClickItem p) = (let (c, err) = lv_onClick (snd s) p in ((fst s, c), err))"
| "tc_handle s (ClickDocument kept) = ((fst s, onClickDocument (snd s) kept), None)"
| "tc_handle s (KeyupDocument k) = ((fst s, onKeyupDocument (snd s) k), None)"
| "tc_handle s Tick = ((fst s, (snd s)\<lparr>c_list := deactivate (c_list (snd s))\<rparr>), None)"
| "tc_handle s (Answer data keep) = searchCallback s data keep"
| "tc_handle s (Register raws) = ((fst s, textcomplete raws [] 0 (Some (snd s))), None)"
| "tc_handle s (Others lk) = ((lk, snd s), None)"

text \<open>
  Searches that answer with final callbacks only: \<^verbatim>\<open>keep\<close> is never set. An answer comes after a
  search, and an item can be clicked while the menu is shown.
\<close>

definition final_search :: "raw_strategy \<Rightarrow> bool" where
  "final_search r \<longleftrightarrow> (\<forall>q. \<forall>(data, keep) \<in> set (rs_search r q). \<not> keep)"

fun tc_enabled :: "search_state \<Rightarrow> tc_event \<Rightarrow> bool" where
  "tc_enabled s (Answer data keep) \<longleftrightarrow> \<not> keep \<and> c_strategy (snd s) \<noteq> None"
| "tc_enabled s (Register raws) \<longleftrightarrow> list_all final_search raws"
| "tc_enabled s (ClickItem p) \<longleftrightarrow> lv_shown (c_list (snd s)) \<and> p < length (lv_items (c_list (snd s)))"
| "tc_enabled s e \<longleftrightarrow> True"

inductive tc_reach :: "search_state \<Rightarrow> bool" where
  start: "tc_reach (lk, new_Completer text caret)"
| step: "tc_reach s \<Longrightarrow> tc_enabled s e \<Longrightarrow> tc_reach (fst (tc_handle s e))"

section \<open>The menu is consistent and no handler throws\<close>

definition menu_ok :: "listview \<Rightarrow> bool" where
  "menu_ok lv \<longleftrightarrow> (\<exists>d i st. lv_data lv = Some d \<and> lv_index lv = Some (int i) \<and> lv_strategy lv = Some st
     \<and> i < length d \<and> distinct d \<and> length d \<le> st_maxCount st
     \<and> map fst (lv_items lv) = [0..<length d] \<and> lv_active lv = [i])"

definition st_ok :: "strategy \<Rightarrow> bool" where
  "st_ok st \<longleftrightarrow> 0 < st_maxCount st \<and> (\<forall>q. \<forall>(data, keep) \<in> set (st_search st q). \<not> keep)"

definition tc_inv :: "completer \<Rightarrow> bool" where
  "tc_inv c \<longleftrightarrow> list_all st_ok (c_strategies c)
     \<and> (\<forall>st. c_strategy c = Some st \<longrightarrow> st \<in> set (c_strategies c))
     \<and> (lv_data (c_list c) = None \<longrightarrow> c_clearAtNext c)
     \<and> (lv_shown (c_list c) \<longrightarrow> c_clearAtNext c \<and> menu_ok (c_list c) \<and> c_strategy c \<noteq> None
          \<and> the (lv_strategy (c_list c)) \<in> set (c_strategies c))"

lemma render_loop_distinct:
  "distinct d \<Longrightarrow> length d < st_maxCount st \<Longrightarrow>
   distinct (fst (render_loop st vs d items)) \<and> length (fst (render_loop st vs d items)) \<le> st_maxCount st"
  by (induction st vs d items rule: render_loop.induct) (auto simp: Let_def)

lemma render_loop_items:
  "map fst items = [0..<length d] \<Longrightarrow>
   map fst (snd (render_loop st vs d items)) = [0..<length (fst (render_loop st vs d items))]"
proof (induction st vs d items rule: render_loop.induct)
  case (2 st v vs d items)
  have "map fst (items @ [(length d, st_template st v)]) = [0..<length (d @ [v])]"
    using 2 by simp
  with 2 show ?case by (auto simp: Let_def simp del: map_append length_append)
qed simp

lemma render_loop_grows: "length d \<le> length (fst (render_loop st vs d items))"
proof (induction st vs d items rule: render_loop.induct)
  case (2 st v vs d items)
  then show ?case by (auto simp: Let_def intro: Suc_leD)
qed simp

lemma render_loop_nonempty: "vs \<noteq> [] \<Longrightarrow> fst (render_loop st vs [] items) \<noteq> []"
  using render_loop_grows [of "[hd vs]" st "tl vs" "items @ [(0, st_template st (hd vs))]"] by (cases vs) (auto simp: Let_def)

fun firsts :: "'a list \<Rightarrow> 'a list" where
  "firsts [] = []"
| "firsts (x # xs) = x # firsts (filter (\<lambda>y. y \<noteq> x) xs)"

lemma render_loop_firsts:
  "length d + length vs \<le> st_maxCount st \<Longrightarrow>
   fst (render_loop st vs d items) = d @ firsts (filter (\<lambda>v. v \<notin> set d) vs)"
proof (induction st vs d items rule: render_loop.induct)
  case (2 st v vs d items)
  then show ?case by (cases vs) (auto simp: Let_def conj_commute)
qed simp

lemma deactivate_simps [simp]:
  "lv_shown (deactivate lv) = False"
  "lv_data (deactivate lv) = (if lv_shown lv then None else lv_data lv)"
  by (simp_all add: deactivate_def)

lemma st_ok_setup: "final_search r \<Longrightarrow> st_ok (setup_strategy r)"
  by (auto simp: final_search_def st_ok_def setup_strategy_def split: option.splits)

lemma lv_clear_shown: "lv_shown (lv_clear lv) = lv_shown lv"
  by (simp add: lv_clear_def)

lemma lv_clear_idem: "lv_clear (lv_clear lv) = lv_clear lv"
  by (simp add: lv_clear_def)

lemma tc_inv_new: "tc_inv (new_Completer text caret)"
  by (simp add: tc_inv_def new_Completer_def new_ListView_def)

lemma tc_inv_deactivate: "tc_inv c \<Longrightarrow> tc_inv (c\<lparr>c_list := deactivate (c_list c)\<rparr>)"
  by (auto simp: tc_inv_def)

lemma render_fresh:
  assumes "lv_data lv = Some []" and "lv_items lv = []" and "lv_index lv = Some 0"
    and "lv_strategy lv = Some st" and "0 < st_maxCount st" and "vs \<noteq> []"
  obtains lv' where "render lv vs = (lv', None)" and "menu_ok lv'" and "lv_shown lv' = lv_shown lv"
    and "lv_strategy lv' = Some st" and "lv_data lv' = Some (fst (render_loop st vs [] []))"
proof -
  obtain d items where r: "render_loop st vs [] [] = (d, items)" by fastforce
  have d: "d \<noteq> []" "distinct d" "length d \<le> st_maxCount st" "map fst items = [0..<length d]"
    using render_loop_nonempty [OF assms(6), of st "[]"] render_loop_distinct [of "[]" st vs "[]"]
      render_loop_items [of "[]" "[]" st vs] assms(5) r by auto
  have n: "length items = length d" using arg_cong [OF d(4), of length] by simp
  show ?thesis
  proof (rule that)
    show "render lv vs = (activateIndexedItem (lv\<lparr>lv_data := Some d, lv_items := items\<rparr>), None)"
      using assms r d by (simp add: render_def rendered_def)
  qed (use assms r d n in \<open>auto simp: menu_ok_def activateIndexedItem_def getActiveItem_def\<close>)
qed

lemma renderList_final:
  assumes "tc_inv c" and "c_strategy c = Some st"
  obtains c' where "renderList c data = (c', None)" and "tc_inv (c'\<lparr>c_clearAtNext := True\<rparr>)"
    and "lv_shown (c_list c') \<longleftrightarrow> data \<noteq> []" and "c_strategies c' = c_strategies c"
    and "c_strategy c' = c_strategy c"
    and "data \<noteq> [] \<longrightarrow> lv_data (c_list c') = Some (fst (render_loop
           (if lv_shown (c_list c) then the (lv_strategy (c_list c)) else st) (take (st_maxCount st) data) [] []))"
proof -
  let ?u = "if lv_shown (c_list c) then the (lv_strategy (c_list c)) else st"
  let ?lv = "if lv_shown (c_list c) then lv_clear (c_list c)
             else (lv_activate (lv_clear (c_list c)))\<lparr>lv_strategy := Some st\<rparr>"
  have st: "st_ok st" "st \<in> set (c_strategies c)" and u: "st_ok ?u" "?u \<in> set (c_strategies c)"
    using assms by (auto simp: tc_inv_def list_all_iff)
  show ?thesis
  proof (cases "data = []")
    case True
    with assms show ?thesis
      by (intro that [of "fst (renderList c data)"])
        (auto simp: renderList_def tc_inv_def lv_clear_def Let_def deactivate_def split: option.splits)
  next
    case False
    have "lv_strategy ?lv = Some ?u" "lv_data ?lv = Some []" "lv_items ?lv = []" "lv_index ?lv = Some 0" "lv_shown ?lv"
      using assms by (auto simp: tc_inv_def menu_ok_def lv_clear_def lv_activate_def)
    moreover have "0 < st_maxCount ?u" "take (st_maxCount st) data \<noteq> []" using u st False by (auto simp: st_ok_def)
    ultimately obtain lv' where lv': "render ?lv (take (st_maxCount st) data) = (lv', None)" "menu_ok lv'"
      "lv_shown lv'" "lv_strategy lv' = Some ?u"
      "lv_data lv' = Some (fst (render_loop ?u (take (st_maxCount st) data) [] []))"
      by (metis render_fresh)
    have "renderList c data = (c\<lparr>c_list := lv', c_clearAtNext := False\<rparr>, None)"
      using lv' assms False
      by (cases c) (auto simp: renderList_def tc_inv_def menu_ok_def Let_def lv_clear_shown lv_clear_idem)
    with lv' assms u False show ?thesis
      by (intro that [of "c\<lparr>c_list := lv', c_clearAtNext := False\<rparr>"]) (auto simp: tc_inv_def)
  qed
qed

lemma searchCallback_final:
  assumes "tc_inv c" and "c_strategy c = Some st"
  obtains c' where "searchCallback (lk, c) data False = ((False, c'), None)" and "tc_inv c'"
    and "c_strategy c' = Some st"
proof -
  obtain c1 where "renderList c data = (c1, None)" "tc_inv (c1\<lparr>c_clearAtNext := True\<rparr>)" "c_strategy c1 = c_strategy c"
    using renderList_final [OF assms, of data] by metis
  then show ?thesis using that assms(2) by (simp add: searchCallback_def)
qed

text \<open>An operation ends without an exception in a state that satisfies the invariant.\<close>

abbreviation ends_ok :: "search_state \<times> js_error option \<Rightarrow> bool" where
  "ends_ok r \<equiv> snd r = None \<and> tc_inv (snd (fst r))"

lemma runCallbacks_final:
  "tc_inv c \<Longrightarrow> c_strategy c = Some st \<Longrightarrow> \<forall>(data, keep) \<in> set cbs. \<not> keep \<Longrightarrow>
   ends_ok (runCallbacks (lk, c) cbs)"
proof (induction cbs arbitrary: lk c)
  case (Cons cb cbs)
  obtain data where cb: "cb = (data, False)" using Cons.prems by (cases cb) auto
  obtain c' where c': "searchCallback (lk, c) data False = ((False, c'), None)" "tc_inv c'" "c_strategy c' = Some st"
    using searchCallback_final Cons.prems by metis
  with Cons cb show ?case by simp
qed simp

lemma extractSearchQuery_in: "extractSearchQuery sts t = Some (st, q) \<Longrightarrow> st \<in> set sts"
  by (induction sts t rule: extractSearchQuery.induct) (auto split: option.splits)

lemma search_final:
  assumes "tc_inv c" and "st \<in> set (c_strategies c)"
  shows "ends_ok (completer_search (lk, c) (st, q))"
proof -
  have "tc_inv (c\<lparr>c_strategy := Some st\<rparr>)" using assms by (simp add: tc_inv_def)
  moreover have "\<forall>(data, keep) \<in> set (st_search st q). \<not> keep"
    using assms by (auto simp: tc_inv_def list_all_iff st_ok_def)
  ultimately have "ends_ok (runCallbacks (True, c\<lparr>c_strategy := Some st\<rparr>) (st_search st q))"
    by (intro runCallbacks_final) simp_all
  then show ?thesis using assms by (simp add: completer_search_def)
qed

lemma tc_inv_skip: "tc_inv c \<Longrightarrow> skipSearch c k = (skip, c') \<Longrightarrow> tc_inv c'"
  by (auto simp: skipSearch_def tc_inv_def split: if_splits)

lemma tc_inv_term: "tc_inv (c\<lparr>c_term := q\<rparr>) = tc_inv c"
  by (simp add: tc_inv_def)

lemma onKeyup_final:
  assumes "tc_inv c"
  shows "ends_ok (onKeyup (lk, c) k)"
proof -
  obtain skip c1 where c1: "skipSearch c k = (skip, c1)" by fastforce
  have inv: "tc_inv c1" using assms c1 by (rule tc_inv_skip)
  show ?thesis
  proof (cases "extractSearchQuery (c_strategies c1) (getTextFromHeadToCaret c1)")
    case None
    have "tc_inv (c1\<lparr>c_term := JNull, c_list := deactivate (c_list c1)\<rparr>)"
      using tc_inv_deactivate [of "c1\<lparr>c_term := JNull\<rparr>"] inv by (simp add: tc_inv_term)
    with None inv c1 show ?thesis by (simp add: onKeyup_def)
  next
    case (Some query)
    then have "fst query \<in> set (c_strategies c1)"
      using extractSearchQuery_in [of _ _ "fst query" "snd query"] by simp
    then have "ends_ok (completer_search (lk, c1\<lparr>c_term := snd query\<rparr>) (fst query, snd query))"
      using inv by (intro search_final) (simp_all add: tc_inv_term)
    with Some inv c1 show ?thesis by (simp add: onKeyup_def)
  qed
qed

lemma onSelect_final:
  "tc_inv c \<Longrightarrow> lv_shown (c_list c) \<Longrightarrow> snd (onSelect c u) = None \<and> tc_inv (fst (onSelect c u))
     \<and> lv_shown (c_list (fst (onSelect c u)))"
  by (auto simp: onSelect_def tc_inv_def menu_ok_def Let_def split_beta split: option.splits)

lemma tc_inv_effs: "tc_inv (c\<lparr>c_list := (c_list c)\<lparr>lv_effs := es\<rparr>\<rparr>) = tc_inv c"
  by (simp add: tc_inv_def menu_ok_def)

lemma lv_select_final:
  assumes "tc_inv c" and "lv_shown (c_list c)"
  shows "snd (lv_select c i) = None \<and> tc_inv (fst (lv_select c i))"
proof -
  obtain d where "lv_data (c_list c) = Some d" using assms by (auto simp: tc_inv_def menu_ok_def)
  then show ?thesis using onSelect_final [OF assms] by (simp add: lv_select_def Let_def split_beta tc_inv_effs)
qed

lemma lv_move_ok:
  assumes "menu_ok lv" and "lv_data lv = Some d" and "0 \<le> i" and "i < int (length d)"
  shows "menu_ok (lv_move lv i)" and "lv_data (lv_move lv i) = Some d"
    and "lv_shown (lv_move lv i) = lv_shown lv" and "lv_strategy (lv_move lv i) = lv_strategy lv"
proof -
  have "length (lv_items lv) = length d"
    using assms by (auto simp: menu_ok_def dest: arg_cong [where f = length])
  then show "menu_ok (lv_move lv i)"
    using assms by (auto simp: menu_ok_def lv_move_def activateIndexedItem_def getActiveItem_def intro!: exI [of _ "nat i"])
qed (use assms in \<open>simp_all add: lv_move_def activateIndexedItem_def\<close>)

lemma onKeydown_final:
  assumes "tc_inv c"
  shows "snd (onKeydown c k) = None \<and> tc_inv (fst (onKeydown c k))"
proof (cases "lv_shown (c_list c)")
  case True
  then obtain d i where m: "menu_ok (c_list c)" "lv_data (c_list c) = Some d" "lv_index (c_list c) = Some (int i)" "i < length d"
    using assms by (auto simp: tc_inv_def menu_ok_def)
  have moves: "tc_inv (c\<lparr>c_list := lv_move (c_list c) j\<rparr>)" if "0 \<le> j" "j < int (length d)" for j
    using lv_move_ok [OF m(1,2) that] assms True by (simp add: tc_inv_def)
  have "0 < int (length d)" using m(4) by linarith
  then show ?thesis
    using moves m True assms lv_select_final [OF assms True] by (auto simp: onKeydown_def Let_def)
qed (use assms in \<open>simp add: onKeydown_def Let_def\<close>)

lemma tc_handle_final:
  assumes "tc_inv (snd s)" and "tc_enabled s e"
  shows "ends_ok (tc_handle s e)"
proof (cases e)
  case (Edit t n)
  with assms show ?thesis by (simp add: tc_inv_def)
next
  case (Keyup k)
  with assms show ?thesis using onKeyup_final [of "snd s" "fst s"] by simp
next
  case (Keydown k)
  with assms show ?thesis using onKeydown_final by (simp add: split_beta)
next
  case (ClickItem p)
  with assms show ?thesis using lv_select_final by (simp add: lv_onClick_def split_beta)
next
  case (ClickDocument b)
  with assms show ?thesis by (simp add: onClickDocument_def tc_inv_deactivate)
next
  case (KeyupDocument k)
  with tc_inv_deactivate [OF assms(1)] assms show ?thesis
    using tc_inv_effs [of _ "(snd s)\<lparr>c_list := deactivate (c_list (snd s))\<rparr>"]
    by (simp add: onKeyupDocument_def Let_def)
next
  case (Answer data keep)
  with assms searchCallback_final [of "snd s" _ "fst s" data] show ?thesis by fastforce
next
  case (Register raws)
  with assms show ?thesis by (auto simp: textcomplete_def register_def tc_inv_def list_all_iff intro: st_ok_setup)
qed (use assms tc_inv_deactivate in simp_all)

lemma tc_reach_inv: "tc_reach s \<Longrightarrow> tc_inv (snd s)"
  by (induction rule: tc_reach.induct) (simp_all add: tc_inv_new tc_handle_final)


text \<open>A search that answers in two calls, the first with \<^verbatim>\<open>keep\<close>, is outside of this: see below.\<close>

section \<open>Searches that answer once\<close>

text \<open>
  The contract of a strategy whose search calls back once, before it returns. The menu then lists the
  answer to the query at hand.
\<close>

locale completion_strategy =
  fixes st :: strategy and answer :: "js \<Rightarrow> string list"
  assumes answers: "st_search st q = [(answer q, False)]"
    and room: "0 < st_maxCount st"
begin

lemma search_lists_answer:
  assumes "tc_inv c" and "c_strategies c = [st]"
  obtains c' where "completer_search (False, c) (st, q) = ((False, c'), None)"
    and "lv_shown (c_list c') \<longleftrightarrow> answer q \<noteq> []"
    and "answer q \<noteq> [] \<longrightarrow> lv_data (c_list c') = Some (firsts (take (st_maxCount st) (answer q)))"
proof -
  let ?c = "c\<lparr>c_strategy := Some st\<rparr>"
  have "tc_inv ?c" using assms by (simp add: tc_inv_def)
  then obtain c' where c': "renderList ?c (answer q) = (c', None)" "lv_shown (c_list c') \<longleftrightarrow> answer q \<noteq> []"
      "answer q \<noteq> [] \<longrightarrow> lv_data (c_list c') = Some (fst (render_loop
         (if lv_shown (c_list ?c) then the (lv_strategy (c_list ?c)) else st) (take (st_maxCount st) (answer q)) [] []))"
    using renderList_final [of ?c st "answer q"] by auto
  moreover have "(if lv_shown (c_list ?c) then the (lv_strategy (c_list ?c)) else st) = st"
    using assms by (auto simp: tc_inv_def)
  moreover have "fst (render_loop st (take (st_maxCount st) (answer q)) [] []) = firsts (take (st_maxCount st) (answer q))"
    using render_loop_firsts [of "[]" "take (st_maxCount st) (answer q)" st "[]"] by simp
  ultimately show ?thesis
    by (intro that [of "c'\<lparr>c_clearAtNext := True\<rparr>"]) (simp_all add: completer_search_def answers searchCallback_def)
qed

end

interpretation mention: completion_strategy "setup_strategy (mention_strategy sug)" "\<lambda>q. mens_search sug (js_string q)" for sug
  by unfold_locales (simp_all add: setup_strategy_def mention_strategy_def)

lemma is_word_at: "is_word CHR ''@'' = False"
  by code_simp

definition at_boundary :: "string \<Rightarrow> bool" where
  "at_boundary b \<longleftrightarrow> b = [] \<or> \<not> is_word (last b)"

lemma mention_scan_last:
  assumes "list_all is_word q"
  shows "b = [] \<and> \<not> pw \<or> b \<noteq> [] \<and> \<not> is_word (last b) \<Longrightarrow>
    mention_scan p pw (b @ CHR ''@'' # q) = Some (p @ b, [Some (CHR ''@'' # q), Some q], [])"
proof (induction b arbitrary: p pw)
  case (Cons c b)
  have "\<not> list_all is_word (b @ CHR ''@'' # q)" by (simp add: is_word_at)
  with Cons.prems Cons.IH [of "is_word c" "p @ [c]"] show ?case by (auto split: if_splits)
qed (use assms in simp)

lemma mention_exec:
  "list_all is_word q \<Longrightarrow> at_boundary b \<Longrightarrow>
   st_exec (setup_strategy (mention_strategy sug)) (b @ CHR ''@'' # q)
     = Some (b, [Some (CHR ''@'' # q), Some q], [])"
  using mention_scan_last [of q b False "[]"] by (auto simp: setup_strategy_def mention_strategy_def at_boundary_def)

lemma mention_index [simp]: "st_index (setup_strategy (mention_strategy sug)) = 1"
  and mention_maxCount [simp]: "st_maxCount (setup_strategy (mention_strategy sug)) = 10"
  by (simp_all add: setup_strategy_def mention_strategy_def)


definition ex_area :: "string \<Rightarrow> completer" where
  "ex_area typed = (let s0 = (False, new_Completer [] 0);
      s1 = fst (tc_handle s0 (Register [mention_strategy [''bob'', ''anna'', ''al'', ''anna'']]));
      s2 = fst (tc_handle s1 (Edit typed (length typed)))
    in snd s2)"

lemma ex_area_reach: "tc_reach (False, ex_area t)"
proof -
  let ?r = "Register [mention_strategy [''bob'', ''anna'', ''al'', ''anna'']]"
  let ?s1 = "fst (tc_handle (False, new_Completer [] 0) ?r)"
  have "tc_reach ?s1"
    by (intro tc_reach.intros) (simp add: final_search_def mention_strategy_def)
  then have "tc_reach (fst (tc_handle ?s1 (Edit t (length t))))"
    by (rule tc_reach.step) simp
  then show ?thesis by (simp add: ex_area_def Let_def)
qed

lemma ex_area_simps [simp]:
  "getTextFromHeadToCaret (ex_area t) = t"
  "c_strategies (ex_area t) = [setup_strategy (mention_strategy [''bob'', ''anna'', ''al'', ''anna''])]"
  "c_skipNextKeyup (ex_area t) = False" "c_term (ex_area t) = JUndef"
  by (simp_all add: ex_area_def new_Completer_def textcomplete_def register_def getTextFromHeadToCaret_def)

lemma ex_word: "list_all is_word ''a''"
  by code_simp

lemma ex_found: "mens_search [''bob'', ''anna'', ''al'', ''anna''] ''a'' = [''anna'', ''al'', ''anna'']"
  by (simp add: mens_search_def)


section \<open>Taking a completion\<close>

lemma expand_plain: "CHR ''$'' \<notin> set r \<Longrightarrow> expand b gs a r = r"
  by (induction b gs a r rule: expand.induct) auto

lemma mention_replaced:
  "list_all is_word q \<Longrightarrow> at_boundary b \<Longrightarrow> CHR ''$'' \<notin> set u \<Longrightarrow>
   regex_replace (setup_strategy (mention_strategy sug)) (b @ CHR ''@'' # q) (mens_replace u)
     = b @ CHR ''@'' # u @ '' ''"
  by (simp add: regex_replace_def mention_exec expand_plain mens_replace_def)

lemma menu_active_item:
  assumes "menu_ok lv" and "lv_index lv = Some (int i)"
  shows "item_index lv (getActiveItem lv) = Some i"
proof -
  obtain d :: "string list" and j where "lv_index lv = Some (int j)" "j < length d" and d: "map fst (lv_items lv) = [0..<length d]"
    using assms(1) unfolding menu_ok_def by blast
  then have i: "i < length d" using assms(2) by simp
  have n: "length (lv_items lv) = length d" using arg_cong [OF d, of length] by simp
  have "fst (lv_items lv ! i) = map fst (lv_items lv) ! i" using i n by simp
  then show ?thesis using assms(2) d i n by (simp add: item_index_def getActiveItem_def)
qed

text \<open>
  C16. Enter or Tab in a reachable state where the menu of the mention strategy is shown takes the
  highlighted completion \<open>d ! i\<close>: the at sign and the word characters before the caret become a
  mention of it and a space, the text around them is kept, the caret stands after the space, and the
  next key release starts no search.
\<close>

theorem mention_inserted:
  assumes "tc_reach (lk, c)" and "lv_shown (c_list c)"
    and "c_strategy c = Some (setup_strategy (mention_strategy sug))"
    and "getTextFromHeadToCaret c = b @ CHR ''@'' # q" and "list_all is_word q" and "at_boundary b"
    and "lv_data (c_list c) = Some d" and "lv_index (c_list c) = Some (int i)" and "CHR ''$'' \<notin> set (d ! i)"
    and "k = 13 \<or> k = 9"
  shows "\<exists>c'. onKeydown c k = (c', None)
    \<and> c_value c' = b @ ''@'' @ d ! i @ '' '' @ drop (c_selEnd c) (c_value c)
    \<and> c_selEnd c' = length b + length (d ! i) + 2 \<and> c_skipNextKeyup c'"
proof -
  have ok: "menu_ok (c_list c)" using tc_reach_inv [OF assms(1)] assms(2) by (simp add: tc_inv_def)
  then have "i < length d" using assms(7,8) by (auto simp: menu_ok_def)
  moreover have "st_replace (setup_strategy (mention_strategy sug)) (Some u) = (mens_replace u, None)" for u
    by (simp add: setup_strategy_def mention_strategy_def)
  ultimately show ?thesis
    using assms menu_active_item [OF ok assms(8)] mention_replaced [OF assms(5,6,9)]
    by (auto simp: onKeydown_def lv_select_def onSelect_def Let_def)
qed

definition ex_menu :: completer where
  "ex_menu = snd (fst (tc_handle (False, ex_area ''@a'') (Keyup 65)))"

lemma ex_menu_reach: "tc_reach (fst (fst (tc_handle (False, ex_area ''@a'') (Keyup 65))), ex_menu)"
  using tc_reach.step [OF ex_area_reach, of "''@a''" "Keyup 65"] by (simp add: ex_menu_def)

lemma ex_menu_search:
  "ex_menu = snd (fst (searchCallback
     (True, (ex_area ''@a'')\<lparr>c_term := JStr ''a'', c_strategy := Some (setup_strategy (mention_strategy [''bob'', ''anna'', ''al'', ''anna'']))\<rparr>)
     [''anna'', ''al'', ''anna''] False))"
  using mention_exec [OF ex_word, of "[]"] ex_found
  by (simp add: ex_menu_def onKeyup_def skipSearch_def match_at_def at_boundary_def completer_search_def mention.answers
      split: prod.splits option.splits)

lemma ex_menu_simps:
  "c_value ex_menu = ''@a''" "c_selEnd ex_menu = 2" "lv_shown (c_list ex_menu)"
  "lv_data (c_list ex_menu) = Some [''anna'', ''al'']" "lv_index (c_list ex_menu) = Some 0"
  "c_strategy ex_menu = Some (setup_strategy (mention_strategy [''bob'', ''anna'', ''al'', ''anna'']))"
  unfolding ex_menu_search
  by (simp_all add: searchCallback_def renderList_def ex_area_def new_Completer_def new_ListView_def
      textcomplete_def register_def lv_clear_def lv_activate_def render_def rendered_def Let_def
      activateIndexedItem_def split_beta)


theorem mention_inserted_witness:
  "\<exists>c'. onKeydown ex_menu 13 = (c', None) \<and> c_value c' = ''@anna '' \<and> c_selEnd c' = 6 \<and> c_skipNextKeyup c'"
  using mention_inserted [OF ex_menu_reach, of "[''bob'', ''anna'', ''al'', ''anna'']" "[]" "''a''" "[''anna'', ''al'']" 0 13]
    ex_word ex_menu_simps by (simp add: at_boundary_def getTextFromHeadToCaret_def eval_nat_numeral)

section \<open>Memoized searches\<close>

text \<open>The completions that reach the caller for each query of a sequence.\<close>

fun memo_answers :: "(string \<Rightarrow> (string list \<times> bool) list) \<Rightarrow> string list obj \<Rightarrow> string list \<Rightarrow> string list list" where
  "memo_answers func memo [] = []"
| "memo_answers func memo (q # qs) =
     concat (map fst (fst (memoize func memo q))) # memo_answers func (snd (memoize func memo q)) qs"

lemma memo_add_oget:
  "oget (memo_add memo q cbs) k = (if k = q \<and> cbs \<noteq> []
     then Some ((case oget memo q of None \<Rightarrow> [] | Some d \<Rightarrow> d) @ concat (map fst cbs)) else oget memo k)"
  by (induction memo q cbs rule: memo_add.induct) (auto simp: oget_oset)

definition memo_ok :: "(string \<Rightarrow> (string list \<times> bool) list) \<Rightarrow> string list obj \<Rightarrow> bool" where
  "memo_ok func memo \<longleftrightarrow> (\<forall>q d. oget memo q = Some d \<longrightarrow> d = concat (map fst (func q)))"

lemma memoize_ok:
  assumes "memo_ok func memo"
  shows "concat (map fst (fst (memoize func memo q))) = concat (map fst (func q))"
    and "memo_ok func (snd (memoize func memo q))"
  using assms by (auto simp: memoize_def memo_ok_def memo_add_oget split: option.splits if_splits)

text \<open>
  C17. A memoized search is equivalent to the search itself: for every sequence of queries, starting
  with an empty memo, it delivers for each query the completions that the search gives in all its
  callbacks, in the same order.
\<close>

theorem memoize_equivalent:
  "memo_answers func [] qs = map (\<lambda>q. concat (map fst (func q))) qs"
proof -
  have "memo_ok func memo \<Longrightarrow> memo_answers func memo qs = map (\<lambda>q. concat (map fst (func q))) qs" for memo
    by (induction qs arbitrary: memo) (simp_all add: memoize_ok)
  then show ?thesis by (simp add: memo_ok_def)
qed

section \<open>Two limits of the menu\<close>

text \<open>
  \<^verbatim>\<open>deactivate\<close> sets \<^verbatim>\<open>data\<close> to \<^verbatim>\<open>null\<close>. When the menu is closed between two answers to one search,
  an empty second answer throws in \<^verbatim>\<open>renderList\<close>, before \<^verbatim>\<open>free()\<close>: the lock shared by all text areas
  stays taken, and no later key release searches.
\<close>

lemma closed_menu_keeps_lock:
  assumes "lv_data (c_list c) = None" and "\<not> c_clearAtNext c"
  shows "searchCallback (True, c) [] False = ((True, c), Some TypeErr)"
  using assms by (cases c) (simp add: searchCallback_def renderList_def)

lemma locked_search: "completer_search (True, c) query = ((True, c), None)"
  by (simp add: completer_search_def)

text \<open>
  Registering the mention strategy again, with the users followed by then, changes no query: the first
  strategy that matches is used, with the suggestions of the first registration.
\<close>

lemma second_registration_unused:
  "extractSearchQuery (c_strategies (mensAutocomplete s later [] 0 (Some (mensAutocomplete s users t n None)))) typed
   = extractSearchQuery (c_strategies (mensAutocomplete s users t n None)) typed"
  by (simp add: mensAutocomplete_def textcomplete_def register_def new_Completer_def setup_strategy_def
      mention_strategy_def split: option.splits)

end
