(* ===== verification/Main_App.thy ===== *)
theory Main_App
  imports Complex_Main Twister_Rpc Posts
begin

text \<open>
  The Angular application, \<^verbatim>\<open>main.js\<close>: the routes, the service \<^verbatim>\<open>rpcQuery\<close> and the controllers. The
  scope of a controller is represented by the values it holds, \<^verbatim>\<open>$interval\<close> by \<open>Timer\<close>, and the current
  user by an option (\<^verbatim>\<open>undefined\<close> is \<open>None\<close>). A promise is \<open>None\<close> until it is resolved.
\<close>

section \<open>Routes and promises\<close>

text \<open>\<^verbatim>\<open>$routeProvider\<close>: path, template and controller; every other path leads to the first.\<close>

definition app_routes :: "(string \<times> string \<times> string) list" where
  "app_routes = [(''/'', ''dashboard.html'', ''DashboardController''),
     (''/producer/:name'', ''producer.html'', ''ProducerController''),
     (''/ordinazioni'', ''ordinazioni.html'', ''OrdinazioniController'')]"

definition resolve :: "'a \<Rightarrow> 'a option \<Rightarrow> 'a option" where
  "resolve v promise = (case promise of None \<Rightarrow> Some v | Some w \<Rightarrow> Some w)"

section \<open>Sorting\<close>

text \<open>
  \<^verbatim>\<open>Array.prototype.sort\<close> as engines do it for short arrays: every element is inserted before the
  first one that the comparison function puts after it. Both comparison functions never return 0.
\<close>

fun insert_cmp :: "('a \<Rightarrow> 'a \<Rightarrow> int) \<Rightarrow> 'a \<Rightarrow> 'a list \<Rightarrow> 'a list" where
  "insert_cmp cmp x [] = [x]"
| "insert_cmp cmp x (y # ys) = (if cmp x y < 0 then x # y # ys else y # insert_cmp cmp x ys)"

definition js_sort :: "('a \<Rightarrow> 'a \<Rightarrow> int) \<Rightarrow> 'a list \<Rightarrow> 'a list" where
  "js_sort cmp xs = fold (insert_cmp cmp) xs []"

definition comparePosts :: "post \<Rightarrow> post \<Rightarrow> int" where
  "comparePosts postA postB =
     (if up_time (userpost_of postA) < up_time (userpost_of postB) then -1 else 1)"

section \<open>Orders\<close>

text \<open>An order as shown: \<^verbatim>\<open>rawJson[i].p\<close> with the author added.\<close>

record ordine =
  od_author :: string
  od_v :: js
  od_time :: int

definition compareMsgs :: "ordine \<Rightarrow> ordine \<Rightarrow> int" where
  "compareMsgs msgA msgB = (if od_time msgA < od_time msgB then -1 else 1)"

definition ordine_of :: "dht_item \<Rightarrow> ordine" where
  "ordine_of x = \<lparr>od_author = sig_user x, od_v = p_v x, od_time = p_time x\<rparr>"

text \<open>\<^verbatim>\<open>rawJson\<close> is \<^verbatim>\<open>undefined\<close> when the request failed.\<close>

definition fillOrdinazioni :: "dht_item list option \<Rightarrow> ordine list result" where
  "fillOrdinazioni rawJson = (case rawJson of
     None \<Rightarrow> Inl TypeErr
   | Some items \<Rightarrow> Inr (js_sort compareMsgs (map ordine_of items)))"

text \<open>\<open>cb\<close> is the function \<^verbatim>\<open>rpcQuery.dhtget\<close> passes; it resolves the promise of this tick.\<close>

definition ordinazioni_tick :: "string option \<Rightarrow> nat \<Rightarrow> io_state \<Rightarrow> io_state" where
  "ordinazioni_tick current_user cb st = (case current_user of
     Some u \<Rightarrow> dhtget u ''dmgs'' ''m'' (Callback cb []) None st | None \<Rightarrow> st)"

definition OrdinazioniController :: effs where
  "OrdinazioniController = [Timer ''tick'' 7000]"

section \<open>Producers\<close>

record post_view =
  pv_text :: string
  pv_img :: string
  pv_title :: string

text \<open>\<^verbatim>\<open>replace(/^"|"$/, "")\<close> without the flag \<^verbatim>\<open>g\<close>, and \<^verbatim>\<open>replace(/_/g, " ")\<close>.\<close>

definition unquote :: "string \<Rightarrow> string" where
  "unquote s = (if s = [] then s else if hd s = CHR 0x22 then tl s
     else if last s = CHR 0x22 then butlast s else s)"

definition spaces :: "string \<Rightarrow> string" where
  "spaces s = map (\<lambda>c. if c = CHR ''_'' then CHR '' '' else c) s"

text \<open>\<^verbatim>\<open>parts[i]\<close> followed by a call of a string function.\<close>

definition string_at :: "string list \<Rightarrow> nat \<Rightarrow> string result" where
  "string_at parts i = (if i < length parts then Inr (parts ! i) else Inl TypeErr)"

definition parse_post :: "string option \<Rightarrow> post_view result" where
  "parse_post msg = (case msg of None \<Rightarrow> Inl TypeErr | Some m \<Rightarrow>
     let temp = js_split CHR ''#'' m in
     rbind (string_at (js_split CHR '':'' (hd temp)) 1) (\<lambda>t.
     rbind (string_at temp 1) (\<lambda>s1. rbind (string_at (js_split CHR '':'' s1) 1) (\<lambda>img.
     rbind (string_at temp 2) (\<lambda>s2. rbind (string_at (js_split CHR '':'' s2) 1) (\<lambda>n.
       Inr \<lparr>pv_text = spaces t, pv_img = unquote img, pv_title = unquote (spaces n)\<rparr>))))))"

text \<open>The loop of \<^verbatim>\<open>fillPosts\<close>: \<^verbatim>\<open>$scope.posts\<close> as it stands at the end, or when a post throws.\<close>

fun fillPosts :: "string option list \<Rightarrow> post_view list \<times> js_error option" where
  "fillPosts [] = ([], None)"
| "fillPosts (msg # msgs) = (case parse_post msg of
     Inl e \<Rightarrow> ([], Some e)
   | Inr v \<Rightarrow> (let (vs, err) = fillPosts msgs in (v # vs, err)))"

definition reloadFeed :: "string \<Rightarrow> effs" where
  "reloadFeed name = getposts name JUndef JUndef JUndef"

definition reloadFeed_reply :: "post list \<Rightarrow> post_view list \<times> js_error option" where
  "reloadFeed_reply posts = fillPosts (map (\<lambda>p. up_msg (userpost_of p)) posts)"

definition producer_send :: "string \<Rightarrow> js \<Rightarrow> string \<Rightarrow> effs" where
  "producer_send name dmsg current_user = dhtput name ''dmgs'' ''m'' dmsg current_user 0"

definition producer_tick :: "string option \<Rightarrow> effs" where
  "producer_tick current_user = (case current_user of Some u \<Rightarrow> getlasthave u | None \<Rightarrow> [])"

definition ProducerController :: "string \<Rightarrow> effs" where
  "ProducerController name = reloadFeed name @ [Timer ''tick'' 1000]"

section \<open>Dashboard and navigation\<close>

text \<open>
  \<open>d_columnswidth\<close> is \<^verbatim>\<open>12 / structure.columns\<close> for a number of columns, \<open>None\<close> when that is
  not finite; the structure is the JSON text of the network, whose columns are a number.
\<close>

record dashboard =
  d_rows :: js
  d_columnswidth :: "rat option"
  d_producers :: js

definition structure_member :: "js obj \<Rightarrow> string \<Rightarrow> js" where
  "structure_member m k = (case oget m k of None \<Rightarrow> JUndef | Some v \<Rightarrow> v)"

definition DashboardController_then :: "js obj \<Rightarrow> dashboard" where
  "DashboardController_then structure = \<lparr>d_rows = structure_member structure ''rows'',
     d_columnswidth = (case structure_member structure ''columns'' of
        JNum n \<Rightarrow> if n = 0 then None else Some (12 / of_int n) | _ \<Rightarrow> None),
     d_producers = structure_member structure ''order''\<rparr>"

definition DashboardController :: effs where
  "DashboardController = getStructure"

definition isAdmin :: "string option \<Rightarrow> bool" where
  "isAdmin current_user \<longleftrightarrow> current_user = Some ''utente1'' \<or> current_user = Some ''utente2''"

section \<open>Properties\<close>

lemma mset_insert_cmp [simp]: "mset (insert_cmp cmp x ys) = add_mset x (mset ys)"
  by (induction ys) auto

lemma set_insert_cmp [simp]: "set (insert_cmp cmp x ys) = insert x (set ys)"
  by (induction ys) auto

lemma insert_by_time:
  "sorted (map od_time ys) \<Longrightarrow> sorted (map od_time (insert_cmp compareMsgs x ys)) \<and>
   filter (\<lambda>y. t = od_time y) (insert_cmp compareMsgs x ys)
     = filter (\<lambda>y. t = od_time y) ys @ filter (\<lambda>y. t = od_time y) [x]"
proof (induction ys)
  case (Cons y ys)
  show ?case
  proof (cases "od_time x < od_time y")
    case True
    then have "od_time x < od_time z" if "z \<in> set (y # ys)" for z using Cons.prems that by fastforce
    then have "filter (\<lambda>z. od_time x = od_time z) (y # ys) = []" by (fastforce simp: filter_empty_conv)
    with True Cons.prems show ?thesis by (auto simp: compareMsgs_def split: if_splits)
  next
    case False
    with Cons show ?thesis by (auto simp: compareMsgs_def)
  qed
qed simp

lemma fold_insert_by_time:
  "sorted (map od_time acc) \<Longrightarrow>
   mset (fold (insert_cmp compareMsgs) xs acc) = mset xs + mset acc \<and>
   sorted (map od_time (fold (insert_cmp compareMsgs) xs acc)) \<and>
   filter (\<lambda>y. t = od_time y) (fold (insert_cmp compareMsgs) xs acc)
     = filter (\<lambda>y. t = od_time y) acc @ filter (\<lambda>y. t = od_time y) xs"
  by (induction xs arbitrary: acc) (simp_all add: insert_by_time)

lemma js_sort_by_time: "js_sort compareMsgs xs = sort_key od_time xs"
  unfolding js_sort_def
  by (rule sym, rule properties_for_sort_key) (simp_all add: fold_insert_by_time)


definition ex_orders :: "dht_item list" where
  "ex_orders = [\<lparr>p_v = JStr ''two'', p_seq = 1, p_time = 7, sig_user = ''bob''\<rparr>,
     \<lparr>p_v = JStr ''one'', p_seq = 2, p_time = 3, sig_user = ''ann''\<rparr>]"


text \<open>
  The message of a product as \<^verbatim>\<open>setup-net.sh\<close> writes it: three labelled fields in quotes, with an
  underscore for every space of the text and of the title.
\<close>

definition underscores :: "string \<Rightarrow> string" where
  "underscores s = map (\<lambda>c. if c = CHR '' '' then CHR ''_'' else c) s"

definition product_msg :: "post_view \<Rightarrow> string" where
  "product_msg v = CHR 0x22 # ''txt:'' @ underscores (pv_text v) @ ''#img:'' @ pv_img v @ ''#title:''
     @ underscores (pv_title v) @ [CHR 0x22]"

definition product_ok :: "post_view \<Rightarrow> bool" where
  "product_ok v \<longleftrightarrow> set (pv_text v @ pv_img v @ pv_title v) \<inter> {CHR ''#'', CHR '':'', CHR ''_''} = {}
     \<and> CHR 0x22 \<notin> set (pv_img v @ pv_title v)"

lemma spaces_underscores: "CHR ''_'' \<notin> set s \<Longrightarrow> spaces (underscores s) = s"
  by (induction s) (auto simp: spaces_def underscores_def)

lemma underscores_clean:
  "c \<noteq> CHR ''_'' \<Longrightarrow> c \<notin> set s \<Longrightarrow> c \<notin> set (underscores s)"
  by (auto simp: underscores_def split: if_splits)

lemma unquote_last: "CHR 0x22 \<notin> set s \<Longrightarrow> unquote (s @ [CHR 0x22]) = s"
  by (cases s) (auto simp: unquote_def)

lemma unquote_plain: "CHR 0x22 \<notin> set s \<Longrightarrow> unquote s = s"
  by (metis hd_in_set last_in_set unquote_def)

lemma parse_product:
  assumes "product_ok v"
  shows "parse_post (Some (product_msg v)) = Inr v"
proof -
  let ?t = "underscores (pv_text v)" and ?n = "underscores (pv_title v) @ [CHR 0x22]"
  have clean: "CHR ''#'' \<notin> set ?t" "CHR '':'' \<notin> set ?t" "CHR ''#'' \<notin> set (pv_img v)" "CHR '':'' \<notin> set (pv_img v)"
    "CHR ''#'' \<notin> set ?n" "CHR '':'' \<notin> set ?n"
    using assms by (auto simp: product_ok_def underscores_def split: if_splits)
  have "product_msg v = (CHR 0x22 # ''txt:'' @ ?t) @ CHR ''#'' # (''img:'' @ pv_img v) @ CHR ''#'' # (''title:'' @ ?n)"
    by (simp add: product_msg_def)
  moreover have "js_split CHR ''#'' \<dots> = [CHR 0x22 # ''txt:'' @ ?t, ''img:'' @ pv_img v, ''title:'' @ ?n]"
    using clean by (subst js_split_append, simp, subst js_split_append, simp) (simp add: js_split_nosep)
  moreover have "js_split CHR '':'' (CHR 0x22 # ''txt:'' @ ?t) = [CHR 0x22 # ''txt'', ?t]"
    "js_split CHR '':'' (''img:'' @ pv_img v) = [''img'', pv_img v]"
    "js_split CHR '':'' (''title:'' @ ?n) = [''title'', ?n]"
    using clean by (simp_all add: js_split_nosep)
  moreover have "unquote (spaces ?n) = pv_title v" "unquote (pv_img v) = pv_img v" "spaces ?t = pv_text v"
    using assms spaces_underscores [of "pv_title v"] spaces_underscores [of "pv_text v"]
    by (auto simp: product_ok_def unquote_plain unquote_last spaces_def)
  ultimately show ?thesis by (simp add: parse_post_def string_at_def)
qed

lemma fillPosts_append:
  "list_all product_ok vs \<Longrightarrow>
   fillPosts (map (\<lambda>v. Some (product_msg v)) vs @ msgs) = (vs @ fst (fillPosts msgs), snd (fillPosts msgs))"
  by (induction vs) (auto simp: parse_product split_beta)


definition ex_product :: post_view where
  "ex_product = \<lparr>pv_text = ''Nice Cross-Body Bag'', pv_img = ''1.jpg'', pv_title = ''The Sak Silverlake''\<rparr>"

definition ex_product_post :: "string option \<Rightarrow> post" where
  "ex_product_post m = \<lparr>userpost_of = \<lparr>up_n = ''utente1'', up_k = 2, up_time = 5, up_msg = m, up_lastk = None,
     up_reply = None, up_rt = None, up_sig_rt = JUndef, up_js = JUndef\<rparr>, sig_userpost = JUndef, post_js = JUndef\<rparr>"




end
