(* ===== verification/Pages.thy ===== *)
theory Pages
  imports Interface_Common Twister_Following
begin

text \<open>
  The scripts of single pages: \<^verbatim>\<open>interface_home.js\<close>, \<^verbatim>\<open>interface_login.js\<close> and
  \<^verbatim>\<open>interface_profile-edit.js\<close>, with the small helpers \<^verbatim>\<open>plugins.js\<close> and \<^verbatim>\<open>jQueryPlugins.js\<close>. Operations
  of other components that only start requests are \<open>Call\<close>s; the timeline is the one of
  \<open>Twister_Timeline\<close>. \<open>users\<close> is the global list \<^verbatim>\<open>followingUsers\<close> the scripts read.
\<close>

section \<open>Home page\<close>

type_synonym home_state = "bool \<times> timeline_state"

definition newsClick :: "bool \<Rightarrow> js \<Rightarrow> string list \<Rightarrow> home_state \<Rightarrow> effs \<times> request option \<times> home_state" where
  "newsClick mobile me users hs =
     (let (e, r, st) = requestTimelineUpdate mobile me Latest postsPerRefresh users (fst hs) (snd hs)
      in (e, r, (fst hs, st)))"

text \<open>\<^verbatim>\<open>getStreamPostsParent().empty()\<close> removes the posts that \<^verbatim>\<open>timelineChangedUser\<close> leaves.\<close>

definition promotedClick :: "bool \<Rightarrow> js \<Rightarrow> string list \<Rightarrow> home_state \<Rightarrow> effs \<times> request option \<times> home_state" where
  "promotedClick mobile me users hs =
     (let promoted = (\<not> fst hs);
          (e, r, st) = requestTimelineUpdate mobile me LatestFirstTime postsPerRefresh users promoted
            ((timelineChangedUser (snd hs))\<lparr>stream := []\<rparr>)
      in (Dom ''.promoted-posts-only'' ''text'' [JStr (if promoted then ''Switch to Normal posts'' else ''Switch to Promoted posts'')]
            # Dom (getStreamPostsParent mobile) ''empty'' [] # e, r, (promoted, st)))"

definition home_init :: "store \<Rightarrow> effs" where
  "home_init s = [Dom ''.wrapper .postboard-news'' ''click'' [JStr ''newsClick''],
       Dom ''.promoted-posts-only'' ''click'' [JStr ''promotedClick'']]
     @ initInterfaceCommon s @ [Call ''initUserSearch'' []] @ initInterfaceDirectMsg
     @ [Call ''initUser'' [JStr ''initHome'']]"

definition trending :: effs where
  "trending = [Rpc ''gettrendinghashtags'' [JNum 10]]"

definition trending_reply :: "string list option \<Rightarrow> effs" where
  "trending_reply ret = (case ret of
     None \<Rightarrow> [Log ''Error with gettrendinghashtags. Older twister daemon?'']
   | Some tags \<Rightarrow> concat (map (\<lambda>h. [Dom ''hashtag-link'' ''attr'' [JStr ''href'', JStr (hashtagUrl h)],
         Dom ''hashtag-link'' ''text'' [JStr (''#'' @ h)], Dom ''.toptrends-list'' ''append'' []]) tags))"

text \<open>\<^verbatim>\<open>initHome\<close> for a visitor and for a user. \<open>t\<close> is \<^verbatim>\<open>polyglot.t\<close>.\<close>

definition initHome_guest :: "(string \<Rightarrow> string) \<Rightarrow> effs" where
  "initHome_guest t =
     (let nobody = JStr (t ''You are not following anyone because you are not logged in.'');
          mini = (\<lambda>c. ''.mini-profile '' @ c)
      in [Dom ''.userMenu-profile > a'' ''text'' [JStr (t ''Login'')],
          Dom ''.userMenu-profile > a'' ''attr'' [JStr ''href'', JStr ''login.html''],
          Dom ''.post-area-new > textarea'' ''attr'' [JStr ''placeholder'', JStr (t ''You have to log in to post messages.'')],
          Dom ''.post-area-new > textarea'' ''attr'' [JStr ''disabled'', JStr ''true''],
          Dom (mini ''.mini-profile-name'') ''text'' [JStr ''guest''], Dom (mini ''.posts-count'') ''text'' [JStr ''0''],
          Dom (mini ''.following-count'') ''text'' [JStr ''0''], Dom (mini ''.followers-count'') ''text'' [JStr ''0''],
          Dom (mini ''a.open-following-page'') ''attr'' [JStr ''href'', JStr ''#''],
          Dom (mini ''a.open-following-page'') ''bind'' [JStr ''click'', nobody],
          Dom (mini ''a.open-followers'') ''bind'' [JStr ''click'', JStr (t (''You don'' @ [CHR 0x27] @ ''t have any followers because you are not logged in.''))],
          Dom ''.dropdown-menu-following'' ''attr'' [JStr ''href'', JStr ''#''],
          Dom ''.dropdown-menu-following'' ''bind'' [JStr ''click'', nobody]] @ trending)"

definition initHome_user :: "js \<Rightarrow> effs" where
  "initHome_user me = (let url = JStr (userUrl (js_string me)); mini = (\<lambda>c. ''.mini-profile '' @ c) in
     [Dom (mini ''a.mini-profile-name'') ''attr'' [JStr ''href'', url],
      Dom (mini ''a.open-profile-modal'') ''attr'' [JStr ''href'', url],
      Dom (mini ''.mini-profile-name'') ''text'' [me],
      Call ''getFullname'' [me], Call ''getAvatar'' [me], Call ''getPostsCount'' [me], Call ''getFollowers'' [me],
      Call ''loadFollowing'' [JStr ''homeFollowing'']])"

definition initHome :: "(string \<Rightarrow> string) \<Rightarrow> js \<Rightarrow> effs" where
  "initHome t me = map net_rpc (checkNetworkStatusAndAskRedirect ''askRedirect'' JUndef) @
     (if truthy me then initHome_user me else initHome_guest t)"

text \<open>The callback of \<^verbatim>\<open>loadFollowing\<close>; \<open>cb\<close> is the pair \<^verbatim>\<open>cbFunc, cbArg\<close>.\<close>

definition homeFollowing :: "bool \<Rightarrow> js \<Rightarrow> string list \<Rightarrow> (string \<times> js) option \<Rightarrow> home_state \<Rightarrow>
    effs \<times> request option \<times> home_state" where
  "homeFollowing mobile me users cb hs =
     (let (e, r, st) = requestTimelineUpdate mobile me LatestFirstTime postsPerRefresh users (fst hs) (snd hs)
      in ([Dom ''.mini-profile .following-count'' ''text'' [JNum (int (length users) - 1)]]
            @ requestLastHave (js_string me) @ [Timer ''requestLastHave()'' 1000, Call ''initMentionsCount'' [], Call ''initDMsCount'' []]
            @ e @ [Dom ''window'' ''scroll'' [JStr ''homeScroll''], Call ''TwisterFollowing'' [me]]
            @ replicate 3 (Timer ''getRandomFollowSuggestion(processSuggestion)'' 1000) @ trending
            @ (case cb of None \<Rightarrow> [] | Some (f, a) \<Rightarrow> [Call f [a]]), r, (fst hs, st)))"

definition homeScroll :: "bool \<Rightarrow> js \<Rightarrow> string list \<Rightarrow> int \<Rightarrow> int \<Rightarrow> int \<Rightarrow> home_state \<Rightarrow>
    effs \<times> request option \<times> home_state" where
  "homeScroll mobile me users scrollTop docHeight winHeight hs =
     (if scrollTop \<ge> docHeight - winHeight - 20 \<and> timelineLoaded (snd hs)
      then let (e, r, st) = requestTimelineUpdate mobile me Older postsPerRefresh users (fst hs) (snd hs)
           in (e, r, (fst hs, st))
      else ([], None, hs))"

definition fixDiv :: "int \<Rightarrow> effs" where
  "fixDiv scrollTop = [Dom ''.postboard h2'' (if scrollTop > 26 then ''addClass'' else ''removeClass'') [JStr ''fixed'']]"

section \<open>Login page\<close>

definition processCreateUser :: "(string \<Rightarrow> js \<Rightarrow> string) \<Rightarrow> bool \<Rightarrow> js \<Rightarrow> js \<Rightarrow> user_state \<Rightarrow> store \<Rightarrow>
    effs \<times> user_state \<times> store" where
  "processCreateUser tv oldModal username secretKey st s =
     (let st' = st\<lparr>defaultScreenName := username\<rparr>
      in (openModal oldModal ''new-user''
            @ [Dom ''.new-user h3'' ''text'' [JStr (tv ''propagating_nickname'' (JObj [(''username'', username)]))],
               Dom ''new-user-modal-template'' ''appendTo'' [JStr ''.new-user .modal-content''],
               Dom ''.new-user .secret-key'' ''text'' [secretKey]]
            @ sendNewUserTransaction (js_string username),
          st', if truthy username then saveScreenName st' s else s))"

definition processSendnewusertransaction :: effs where
  "processSendnewusertransaction = [Dom ''.login-created-user'' ''show'' []]"

definition loginCreatedUser :: "bool \<Rightarrow> effs" where
  "loginCreatedUser mobile = goProfileEdit mobile"

definition initInterfaceLogin :: "store \<Rightarrow> effs" where
  "initInterfaceLogin s = Call ''initUser'' [] # initInterfaceCommon s
     @ map net_rpc (checkNetworkStatusAndAskRedirect ''askRedirect'' JUndef) @ interfaceCommonLoginHandlers
     @ [Dom ''.create-user'' ''bind'' [JStr ''click'', JStr ''createUserClick''],
        Dom ''.login-created-user'' ''bind'' [JStr ''click'', JStr ''loginCreatedUser'']]"

section \<open>Profile page\<close>

definition initProfileEdit :: "bool \<Rightarrow> store \<Rightarrow> effs" where
  "initProfileEdit fileApi s =
     (if fileApi then [] else [Alert ''The File APIs are not fully supported in this browser.''])
     @ initInterfaceCommon s
     @ [Dom ''.profile-card-photo.forEdition'' ''click'' [JStr ''avatar-file click''],
        Dom ''#avatar-file'' ''bind'' [JStr ''change'', JStr ''handleAvatarFileSelect''],
        Dom ''.submit-changes'' ''click'' [JStr ''saveProfile''], Dom ''.cancel-changes'' ''click'' [JStr ''goHome''],
        Call ''initUser'' [JStr ''profileUser'']]"

definition profileUser :: "(string \<Rightarrow> string) \<Rightarrow> bool \<Rightarrow> js \<Rightarrow> effs" where
  "profileUser t mobile me =
     (if \<not> truthy me then Alert (t ''username_undefined'') # goLogin mobile
      else map net_rpc (checkNetworkStatusAndAskRedirect ''verifyUserAlreadyInBlockchain'' JUndef)
        @ [Call ''loadFollowing'' [JStr ''initMentionsCount'', JStr ''initDMsCount''],
           Dom ''.profile-card-main h2'' ''text'' [JStr (''@'' @ js_string me)]]
        @ loadForEdit me ''avatar'' @ loadForEdit me ''profile''
        @ [Dom ''.secret-key-container'' ''hide'' [], Dom ''.toggle-priv-key'' ''click'' [JStr ''togglePrivKey'']])"

definition togglePrivKey :: "js \<Rightarrow> bool \<Rightarrow> effs" where
  "togglePrivKey me visible = (if visible
     then [Dom ''.secret-key-container'' ''fadeOut'' [JStr ''clear .secret-key'']] else dumpPrivkey (js_string me))"

definition togglePrivKey_key :: "js \<Rightarrow> effs" where
  "togglePrivKey_key key = [Dom ''.secret-key'' ''text'' [key], Dom ''.secret-key-container'' ''fadeIn'' []]"

text \<open>
  The picture is scaled so that its longer side has 64 pixels; \<^verbatim>\<open>Math.round\<close> rounds a half up. The
  quality goes from 0.9 down in steps of 0.01 while it is above 0.1: eighty values, the last one
  0.11 up to the rounding of the subtractions. \<open>q\<close> counts hundredths, and \<open>toDataURL q\<close> is what the
  browser makes of the canvas at that quality.
\<close>

definition scaled :: "nat \<Rightarrow> nat \<Rightarrow> nat" where
  "scaled longest side = (2 * 64 * side + longest) div (2 * longest)"

definition avatar_size :: "nat \<Rightarrow> nat \<Rightarrow> nat \<times> nat" where
  "avatar_size width height = (scaled (max width height) width, scaled (max width height) height)"

fun avatar_loop :: "(nat \<Rightarrow> string) \<Rightarrow> string option \<Rightarrow> nat \<Rightarrow> string option" where
  "avatar_loop toDataURL imgURL 0 = imgURL"
| "avatar_loop toDataURL imgURL (Suc n) =
     (case imgURL of
        Some u \<Rightarrow> if u \<noteq> [] \<and> length u \<le> 4096 then imgURL
                 else avatar_loop toDataURL (Some (toDataURL (n + 11))) n
      | None \<Rightarrow> avatar_loop toDataURL (Some (toDataURL (n + 11))) n)"

definition avatar_image :: "(nat \<Rightarrow> string) \<Rightarrow> string option" where
  "avatar_image toDataURL = avatar_loop toDataURL None 80"

definition has_infix :: "string \<Rightarrow> string \<Rightarrow> bool" where
  "has_infix p s \<longleftrightarrow> js_indexOf s p \<noteq> None"

text \<open>\<^verbatim>\<open>f.type.match('image.*')\<close>: the type contains \<^verbatim>\<open>image\<close>. The picture loads after the file.\<close>

definition handleAvatarFileSelect :: "string \<Rightarrow> (nat \<Rightarrow> string) \<Rightarrow> effs" where
  "handleAvatarFileSelect ftype toDataURL = (if has_infix ''image'' ftype
     then [Dom ''.profile-card-photo.forEdition'' ''attr'' [JStr ''src'',
             (case avatar_image toDataURL of Some u \<Rightarrow> JStr u | None \<Rightarrow> JUndef)]]
     else [])"

definition verifyUserAlreadyInBlockchain :: "bool \<Rightarrow> string \<Rightarrow> effs" where
  "verifyUserAlreadyInBlockchain mobile me = disableButton mobile ''.submit-changes'' @ dumpPubkey me"

text \<open>The lines of the warning; the second of two answers to \<^verbatim>\<open>dumppubkey\<close> shows it no more.\<close>

definition newUserWarning :: string where
  "newUserWarning = js_join [CHR 0x0A] [''Other peers have not yet accepted this new user.'',
     ''Unfortunately it is not possible to save profile'', ''or send any posts in this state.'', [],
     ''Please wait a few minutes to continue.'', [],
     ''The '' @ [CHR 0x27] @ ''Save Changes'' @ [CHR 0x27] @ '' will be automatically enabled'',
     ''when the process completes. (I promise this is'', ''the last time you will have to wait before using'',
     ''twister).'', [], ''Tip: choose your avatar in the meantime!'']"

text \<open>
  The answer; the flag is \<^verbatim>\<open>newUserWarnDisplayed\<close>. The function that enables the button goes through
  \<^verbatim>\<open>follow\<close> and \<^verbatim>\<open>saveFollowing\<close> to the request of \<^verbatim>\<open>updateFollowing\<close>, whose success handler calls it.
\<close>

definition followedTwister :: "bool \<Rightarrow> effs" where
  "followedTwister mobile = enableButton mobile ''.submit-changes''"

definition userVerified :: "string \<Rightarrow> string \<Rightarrow> bool \<Rightarrow> following_state \<Rightarrow> store \<Rightarrow>
    (effs \<times> bool \<times> following_state \<times> store) result" where
  "userVerified me pubkey warned st s = (if pubkey \<noteq> []
     then rbind (follow me ''twister'' (Some True) st s) (\<lambda>(e, a, st', s'). Inr (e, warned, st', s'))
     else Inr ((if warned then [] else [Alert newUserWarning]) @ [Timer ''verifyUserAlreadyInBlockchain()'' 5000],
               True, st, s))"

section \<open>Small helpers\<close>

text \<open>\<^verbatim>\<open>plugins.js\<close>: the methods of the console that are missing become \<^verbatim>\<open>noop\<close>, last one first.\<close>

definition console_methods :: "string list" where
  "console_methods = [''assert'', ''clear'', ''count'', ''debug'', ''dir'', ''dirxml'', ''error'',
     ''exception'', ''group'', ''groupCollapsed'', ''groupEnd'', ''info'', ''log'', ''markTimeline'', ''profile'',
     ''profileEnd'', ''table'', ''time'', ''timeEnd'', ''timeStamp'', ''trace'', ''warn'']"

definition stub_console :: "js obj \<Rightarrow> js obj" where
  "stub_console console = fold (\<lambda>m c. if (case oget c m of Some f \<Rightarrow> truthy f | None \<Rightarrow> False)
     then c else oset c m (JStr ''noop'')) (rev console_methods) console"

text \<open>\<^verbatim>\<open>clickoutside\<close>: a click inside clears the flag before the same click reaches the document.\<close>

definition clickoutside_self :: "bool \<Rightarrow> bool" where
  "clickoutside_self outside = False"

definition clickoutside_document :: "bool \<Rightarrow> bool \<times> bool" where
  "clickoutside_document outside = (outside, True)"

section \<open>Properties\<close>

lemma scaled_le: "0 < longest \<Longrightarrow> side \<le> longest \<Longrightarrow> scaled longest side \<le> 64"
proof -
  assume "0 < longest" "side \<le> longest"
  then have "2 * 64 * side + longest \<le> 129 * longest" by simp
  then have "scaled longest side \<le> (129 * longest) div (2 * longest)"
    unfolding scaled_def by (rule div_le_mono)
  also have "\<dots> = 64" using \<open>0 < longest\<close> by simp
  finally show ?thesis .
qed

lemma scaled_longest: "0 < longest \<Longrightarrow> scaled longest longest = 64"
proof -
  assume "0 < longest"
  moreover have "2 * 64 * longest + longest = 129 * longest" by simp
  ultimately show ?thesis unfolding scaled_def by simp
qed

text \<open>
  The picture of a profile fits into 64 by 64 pixels and fills one of the two dimensions, for
  every picture that has a pixel.
\<close>

theorem avatar_size_bounds:
  assumes "0 < width" and "0 < height" and "avatar_size width height = (w, h)"
  shows "w \<le> 64 \<and> h \<le> 64 \<and> max w h = 64"
proof (cases "width \<le> height")
  case True
  then show ?thesis using assms scaled_le [of height width] scaled_longest [of height] by (auto simp: avatar_size_def)
next
  case False
  then show ?thesis using assms scaled_le [of width height] scaled_longest [of width] by (auto simp: avatar_size_def)
qed

theorem avatar_size_bounds_witness: "avatar_size 200 150 = (64, 48) \<and> max 64 48 = (64 :: nat)"
proof -
  have "avatar_size 200 150 = (64, 48)" by (simp add: avatar_size_def scaled_def)
  then show ?thesis using avatar_size_bounds [of 200 150 64 48] by simp
qed

definition fits :: "string \<Rightarrow> bool" where
  "fits u \<longleftrightarrow> u \<noteq> [] \<and> length u \<le> 4096"

lemma avatar_loop_fits: "fits u \<Longrightarrow> avatar_loop f (Some u) n = Some u"
  by (cases n) (simp_all add: fits_def)

lemma avatar_loop_best:
  "\<not> fits (f (n + 11)) \<Longrightarrow> \<exists>q. avatar_loop f (Some (f (n + 11))) n = Some (f q) \<and> 11 \<le> q \<and> q \<le> n + 11
     \<and> (\<forall>q'. q < q' \<and> q' \<le> n + 11 \<longrightarrow> \<not> fits (f q')) \<and> (fits (f q) \<or> q = 11)"
proof (induction n)
  case 0
  then show ?case by (intro exI [of _ 11]) auto
next
  case (Suc n)
  have step: "avatar_loop f (Some (f (Suc n + 11))) (Suc n) = avatar_loop f (Some (f (n + 11))) n"
    using Suc.prems by (auto simp: fits_def)
  show ?case
  proof (cases "fits (f (n + 11))")
    case True
    then have "avatar_loop f (Some (f (Suc n + 11))) (Suc n) = Some (f (n + 11))"
      unfolding step by (rule avatar_loop_fits)
    moreover have "\<not> fits (f q')" if "n + 11 < q'" "q' \<le> Suc n + 11" for q'
    proof -
      have "q' = Suc n + 11" using that by simp
      then show ?thesis using Suc.prems by simp
    qed
    ultimately show ?thesis using True by (intro exI [of _ "n + 11"]) (auto simp del: avatar_loop.simps)
  next
    case False
    from Suc.IH [OF this] obtain q where q: "avatar_loop f (Some (f (n + 11))) n = Some (f q)" "11 \<le> q" "q \<le> n + 11"
      "\<forall>q'. q < q' \<and> q' \<le> n + 11 \<longrightarrow> \<not> fits (f q')" "fits (f q) \<or> q = 11" by blast
    have "\<not> fits (f q')" if "q < q'" "q' \<le> Suc n + 11" for q'
      using that q(4) Suc.prems by (cases "q' = Suc n + 11") auto
    with q step show ?thesis by (intro exI [of _ q]) auto
  qed
qed

text \<open>
  The data URL of a profile picture is made at the best quality, in hundredths from 90 down to
  11, at which it is not empty and at most 4096 characters long; when there is none, at quality 11.
\<close>

theorem avatar_best_quality:
  "\<exists>q. avatar_image f = Some (f q) \<and> 11 \<le> q \<and> q \<le> 90
     \<and> (\<forall>q'. q < q' \<and> q' \<le> 90 \<longrightarrow> \<not> fits (f q')) \<and> (fits (f q) \<or> q = 11)"
proof -
  have i: "avatar_image f = avatar_loop f (Some (f 90)) 79"
    by (simp add: avatar_image_def numeral_eq_Suc)
  show ?thesis
  proof (cases "fits (f 90)")
    case True
    then show ?thesis using i by (intro exI [of _ 90]) (auto simp: avatar_loop_fits)
  next
    case False
    then show ?thesis using i avatar_loop_best [of f 79] by simp
  qed
qed

theorem avatar_best_quality_witness:
  "avatar_image (\<lambda>q. replicate (100 * q) CHR ''x'') = Some (replicate 4000 CHR ''x'')"
proof -
  let ?f = "\<lambda>q. replicate (100 * q) CHR ''x''"
  have fits: "fits (?f q) \<longleftrightarrow> 0 < q \<and> q \<le> 40" for q by (auto simp: fits_def)
  obtain q where q: "avatar_image ?f = Some (?f q)" "11 \<le> q" "q \<le> 90"
    "\<And>q'. q < q' \<Longrightarrow> q' \<le> 90 \<Longrightarrow> \<not> fits (?f q')" "fits (?f q) \<or> q = 11"
    using avatar_best_quality [of ?f] by blast
  have "\<not> q < 40" using q(4) [of 40] unfolding fits by auto
  moreover have "q \<le> 40" using q(5) unfolding fits by auto
  ultimately have "q = 40" by simp
  with q(1) show ?thesis by simp
qed

lemma fresh_requests:
  "\<forall>tr \<in> set (map snd m). latest tr = -1 \<Longrightarrow>
   fst (fold (userRequest LatestFirstTime) us (rs, m))
     = rs @ map (\<lambda>u. JObj [(''since_id'', JNum (-1)), (''username'', JStr u)]) us"
proof (induction us arbitrary: rs m)
  case (Cons u us)
  let ?tr = "case oget m u of None \<Rightarrow> idTrackerObj | Some tr \<Rightarrow> tr"
  have "latest ?tr = -1"
    using Cons.prems by (fastforce simp: idTrackerObj_def dest: map_of_SomeD split: option.splits)
  then have "\<exists>tr'. latest tr' = -1 \<and> userRequest LatestFirstTime u (rs, m)
      = (rs @ [JObj [(''since_id'', JNum (-1)), (''username'', JStr u)]], oset m u tr')"
    by (intro exI [of _ "?tr\<lparr>gapHigh := -1, gapLow := -1\<rparr>"])
      (simp add: userRequest_def tracker_getRequest_def id_request_js_def opt_member_def Let_def)
  then obtain tr' where tr': "latest tr' = -1" "userRequest LatestFirstTime u (rs, m)
      = (rs @ [JObj [(''since_id'', JNum (-1)), (''username'', JStr u)]], oset m u tr')" by blast
  have "\<forall>tr \<in> set (map snd (oset m u tr')). latest tr = -1"
    using Cons.prems tr'(1) list_all_oset [of "\<lambda>p. latest (snd p) = -1" m u tr'] by (auto simp: list_all_iff)
  from Cons.IH [OF this] tr'(2) show ?case by simp
qed simp

text \<open>
  Switching between normal and promoted posts starts over, whatever state the timeline was in,
  an unfinished refresh included: the timeline is empty, and one request goes out, for promoted posts
  without bounds or for the posts of every user from the first id on.
\<close>

theorem promoted_switch_starts_over:
  assumes "truthy me" and "users \<noteq> []" and "promotedClick mobile me users (promoted, st) = (e, r, (promoted', st'))"
  shows "promoted' = (\<not> promoted) \<and> stream st' = [] \<and> refreshInProgress st' \<and>
    [x \<leftarrow> e. case x of Rpc m ps \<Rightarrow> True | _ \<Rightarrow> False] =
      [if promoted' then Rpc ''getspamposts'' [JNum 10, JNum (-1), JNum (-1)]
       else Rpc ''getposts'' [JNum 10, JArr (map (\<lambda>u. JObj [(''since_id'', JNum (-1)), (''username'', JStr u)]) users)]]"
proof -
  have fresh: "fst (fold (userRequest LatestFirstTime) users ([], [])) =
      map (\<lambda>u. JObj [(''since_id'', JNum (-1)), (''username'', JStr u)]) users"
    using fresh_requests [of "[]" users "[]"] by simp
  show ?thesis
    using assms fresh
    by (auto simp: promotedClick_def requestTimelineUpdate_def timelineChangedUser_def timeline_init_def
        requestGetposts_def tracker_getRequest_def idTrackerObj_def or_minus_one_def postsPerRefresh_def
        postboardLoading_def reportNewPosts_def Let_def split_beta split: if_splits)
qed

theorem promoted_switch_starts_over_witness:
  "\<exists>e r st'. promotedClick False (JStr ''me'') [''ann'', ''bob''] (True, timeline_init\<lparr>refreshInProgress := True\<rparr>) = (e, r, (False, st'))
   \<and> stream st' = [] \<and> [x \<leftarrow> e. case x of Rpc m ps \<Rightarrow> True | _ \<Rightarrow> False] = [Rpc ''getposts'' [JNum 10,
        JArr [JObj [(''since_id'', JNum (-1)), (''username'', JStr ''ann'')], JObj [(''since_id'', JNum (-1)), (''username'', JStr ''bob'')]]]]"
proof -
  obtain e r p st' where c: "promotedClick False (JStr ''me'') [''ann'', ''bob''] (True, timeline_init\<lparr>refreshInProgress := True\<rparr>) = (e, r, (p, st'))"
    by (metis prod_cases3 surj_pair)
  show ?thesis using promoted_switch_starts_over [OF _ _ c] c by auto
qed

end
