(* ===== verification/Localization.thy ===== *)
theory Localization
  imports Options Post_Compose
begin

text \<open>
  \<^verbatim>\<open>interface_localization.js\<close>: the choice of the language and the translation of the fixed labels of a
  page. The word list of the language (\<^verbatim>\<open>wordset\<close>) and \<^verbatim>\<open>polyglot.t\<close> are arguments, so that the results
  hold for all twelve languages.
\<close>

section \<open>Choice of the language\<close>

definition knownLanguages :: "string list" where
  "knownLanguages = [''en'', ''es'', ''nl'', ''it'', ''fr'', ''ru'', ''de'', ''zh'', ''ja'', ''pt-BR'', ''tr'', ''uk'']"

text \<open>\<^verbatim>\<open>userLanguage || language || "en"\<close>: a missing or empty value counts as false.\<close>

definition navigatorLanguage :: "string \<Rightarrow> string \<Rightarrow> string" where
  "navigatorLanguage userLanguage language =
     (if userLanguage \<noteq> [] then userLanguage else if language \<noteq> [] then language else ''en'')"

definition detectLanguage :: "string \<Rightarrow> string" where
  "detectLanguage lang = (let base = hd (js_split CHR ''-'' lang) in
     if lang \<in> set knownLanguages then lang
     else if base \<in> set knownLanguages then base
     else ''en'')"

definition preferredLanguage :: "store \<Rightarrow> string \<Rightarrow> string \<Rightarrow> js" where
  "preferredLanguage s userLanguage language =
     (if getOption s ''locLang'' (JStr ''auto'') = JStr ''auto''
      then JStr (detectLanguage (navigatorLanguage userLanguage language))
      else getOption s ''locLang'' (JStr ''en''))"

section \<open>Translation of a page\<close>

record label_elem =
  le_text :: string
  le_placeholder :: "string option"

definition has_word :: "string obj \<Rightarrow> string \<Rightarrow> bool" where
  "has_word wordset w \<longleftrightarrow> (case oget wordset w of Some v \<Rightarrow> v \<noteq> [] | None \<Rightarrow> False)"

definition translateElem :: "string obj \<Rightarrow> (string \<Rightarrow> string) \<Rightarrow> label_elem \<Rightarrow> label_elem" where
  "translateElem wordset t e =
     (let content = js_trim (le_text e);
          e1 = (if has_word wordset content then e\<lparr>le_text := t content\<rparr> else e)
      in case le_placeholder e1 of
           Some p \<Rightarrow> if has_word wordset p then e1\<lparr>le_placeholder := Some (t p)\<rparr> else e1
         | None \<Rightarrow> e1)"

text \<open>
  The loop over \<^verbatim>\<open>fixedLabels\<close>. For each selector, \<open>matches\<close> lists the elements it selects, by their place
  among the elements of the page; an element can be selected by several.
\<close>

definition translatePage :: "string obj \<Rightarrow> (string \<Rightarrow> string) \<Rightarrow> nat list list \<Rightarrow> label_elem list \<Rightarrow> label_elem list" where
  "translatePage wordset t matches elems =
     fold (\<lambda>elems_i es. fold (\<lambda>i es. es[i := translateElem wordset t (es ! i)]) elems_i es) matches elems"

section \<open>Properties\<close>

text \<open>
  With the language option at its default the language is always one there is a word list for:
  the language of the browser when it is known, else its part before the hyphen when that is, else
  English.
\<close>

theorem detected_language_known:
  assumes "getOption s ''locLang'' (JStr ''auto'') = JStr ''auto''"
  shows "\<exists>l \<in> set knownLanguages. preferredLanguage s userLanguage language = JStr l \<and>
    (let nav = navigatorLanguage userLanguage language in
     (nav \<in> set knownLanguages \<longrightarrow> l = nav) \<and>
     (\<forall>base region. nav = base @ CHR ''-'' # region \<and> nav \<notin> set knownLanguages \<and> CHR ''-'' \<notin> set base
        \<and> base \<in> set knownLanguages \<longrightarrow> l = base))"
proof -
  have "detectLanguage nav \<in> set knownLanguages" for nav
    by (simp add: detectLanguage_def Let_def knownLanguages_def)
  moreover have "detectLanguage (base @ CHR ''-'' # region) = base"
    if "base @ CHR ''-'' # region \<notin> set knownLanguages" "CHR ''-'' \<notin> set base" "base \<in> set knownLanguages" for base region
    using that by (simp add: detectLanguage_def Let_def js_split_append)
  ultimately show ?thesis
    using assms by (auto simp: preferredLanguage_def Let_def intro!: bexI) (simp add: detectLanguage_def)
qed

theorem detected_language_known_witness:
  "preferredLanguage [] '''' ''de-AT'' = JStr ''de''"
proof -
  have "getOption [] ''locLang'' (JStr ''auto'') = JStr ''auto''" by code_simp
  from detected_language_known [OF this, of "''''" "''de-AT''"] show ?thesis
    by (fastforce simp: navigatorLanguage_def Let_def knownLanguages_def)
qed

lemma translateElem_again:
  assumes "\<And>w. has_word ws w \<Longrightarrow> \<not> has_word ws (js_trim (t w)) \<or> t (js_trim (t w)) = t w"
    and "\<And>w. has_word ws w \<Longrightarrow> \<not> has_word ws (t w) \<or> t (t w) = t w"
  shows "translateElem ws t (translateElem ws t e) = translateElem ws t e"
  using assms by (cases e) (auto simp: translateElem_def Let_def split: option.splits)

lemma fold_translate:
  assumes "\<And>e. f (f e) = f e"
  shows "\<forall>i \<in> set is. i < length es \<Longrightarrow> k < length es \<Longrightarrow>
    fold (\<lambda>i es. es[i := f (es ! i)]) is es ! k = (if k \<in> set is then f (es ! k) else es ! k)"
proof (induction "is" arbitrary: es)
  case (Cons i "is")
  then show ?case using assms by (auto simp: nth_list_update)
qed simp

lemma fold_fold_concat: "fold (\<lambda>xs. fold f xs) xss s = fold f (concat xss) s"
  by (induction xss arbitrary: s) simp_all

text \<open>
  A page is translated the same whatever the number of selectors that match an element and
  their order: an element that some selector matches is translated once, every other one is left
  alone. This needs a word list in which a translated text is not a word with another translation.
\<close>

theorem labels_translated_once:
  assumes "\<And>w. has_word ws w \<Longrightarrow> \<not> has_word ws (js_trim (t w)) \<or> t (js_trim (t w)) = t w"
    and "\<And>w. has_word ws w \<Longrightarrow> \<not> has_word ws (t w) \<or> t (t w) = t w"
    and "\<forall>i \<in> set (concat matches). i < length elems" and "k < length elems"
  shows "translatePage ws t matches elems ! k =
    (if k \<in> set (concat matches) then translateElem ws t (elems ! k) else elems ! k)"
  using fold_translate [of "translateElem ws t", OF translateElem_again [OF assms(1,2)] assms(3,4)]
  by (simp add: translatePage_def fold_fold_concat)

definition ex_words :: "string obj" where
  "ex_words = [(''Cancel'', ''Annulla'')]"

definition ex_t :: "string \<Rightarrow> string" where
  "ex_t w = (if w = ''Cancel'' then ''Annulla'' else w)"

lemma ex_word_only: "has_word ex_words w \<Longrightarrow> w = ''Cancel''"
  by (simp add: has_word_def ex_words_def split: if_splits)

lemma ex_words_stable:
  "js_trim (ex_t ''Cancel'') = ''Annulla''" "ex_t ''Cancel'' = ''Annulla''" "\<not> has_word ex_words ''Annulla''"
  "translateElem ex_words ex_t \<lparr>le_text = '' Cancel'', le_placeholder = None\<rparr> = \<lparr>le_text = ''Annulla'', le_placeholder = None\<rparr>"
  by code_simp+

theorem labels_translated_once_witness:
  "translatePage ex_words ex_t [[0], [0, 0]] [\<lparr>le_text = '' Cancel'', le_placeholder = None\<rparr>] ! 0
     = \<lparr>le_text = ''Annulla'', le_placeholder = None\<rparr>"
  by (subst labels_translated_once) (use ex_word_only ex_words_stable in fastforce)+

end
