(* ===== verification/Lru_Cache.thy ===== *)
theory Lru_Cache
  imports Js_Prelude
begin

text \<open>
  \<^verbatim>\<open>$cacheFactory\<close> of \<^verbatim>\<open>angular.js\<close>, the cache behind the templates of the application: a map with,
  when a capacity is given, a doubly linked list of the keys from the least to the most recently used.
  An entry of the list exists once for each key in \<^verbatim>\<open>lruHash\<close>, so that the key identifies it; \<open>ln_n\<close> and
  \<open>ln_p\<close> are its \<^verbatim>\<open>n\<close> and \<^verbatim>\<open>p\<close>, the next and the previous entry (\<open>None\<close> is \<^verbatim>\<open>null\<close> and \<^verbatim>\<open>undefined\<close>, which
  the comparisons do not tell apart). The capacity \<^verbatim>\<open>Number.MAX_VALUE\<close> is \<open>None\<close>.

  The list and the map are shown to implement the plain specification \<open>lru_spec\<close> below: a list of
  pairs, where every use moves a pair to the end and an overflow drops the first.
\<close>

section \<open>State\<close>

record lru_entry =
  ln_n :: "string option"
  ln_p :: "string option"

record cache =
  c_size :: int
  c_data :: "js obj"
  c_capacity :: "int option"
  c_lruHash :: "lru_entry obj"
  c_freshEnd :: "string option"
  c_staleEnd :: "string option"

definition new_cache :: "int option \<Rightarrow> cache" where
  "new_cache capacity = \<lparr>c_size = 0, c_data = [], c_capacity = (if capacity = Some 0 then None else capacity),
     c_lruHash = [], c_freshEnd = None, c_staleEnd = None\<rparr>"

section \<open>The linked list\<close>

definition entry_of :: "cache \<Rightarrow> string \<Rightarrow> lru_entry" where
  "entry_of c k = (case oget (c_lruHash c) k of Some e \<Rightarrow> e | None \<Rightarrow> \<lparr>ln_n = None, ln_p = None\<rparr>)"

definition set_entry :: "string option \<Rightarrow> (lru_entry \<Rightarrow> lru_entry) \<Rightarrow> cache \<Rightarrow> cache" where
  "set_entry k f c = (case k of None \<Rightarrow> c
     | Some j \<Rightarrow> c\<lparr>c_lruHash := oset (c_lruHash c) j (f (entry_of c j))\<rparr>)"

definition lru_link :: "string option \<Rightarrow> string option \<Rightarrow> cache \<Rightarrow> cache" where
  "lru_link nextEntry prevEntry c = (if nextEntry \<noteq> prevEntry
     then set_entry prevEntry (ln_n_update (\<lambda>_. nextEntry)) (set_entry nextEntry (ln_p_update (\<lambda>_. prevEntry)) c)
     else c)"

definition refresh :: "string \<Rightarrow> cache \<Rightarrow> cache" where
  "refresh k c = (if Some k = c_freshEnd c then c
     else let c1 = (if c_staleEnd c = None then c\<lparr>c_staleEnd := Some k\<rparr>
                    else if c_staleEnd c = Some k then c\<lparr>c_staleEnd := ln_n (entry_of c k)\<rparr> else c);
              c2 = lru_link (ln_n (entry_of c1 k)) (ln_p (entry_of c1 k)) c1;
              c3 = lru_link (Some k) (c_freshEnd c2) c2
          in set_entry (Some k) (ln_n_update (\<lambda>_. None)) (c3\<lparr>c_freshEnd := Some k\<rparr>))"

section \<open>Operations\<close>

definition lru_remove :: "string \<Rightarrow> cache \<Rightarrow> cache" where
  "lru_remove k c =
     (if c_capacity c \<noteq> None
      then (if \<not> ohas (c_lruHash c) k then c
            else let e = entry_of c k;
                     c1 = (if Some k = c_freshEnd c then c\<lparr>c_freshEnd := ln_p e\<rparr> else c);
                     c2 = (if Some k = c_staleEnd c1 then c1\<lparr>c_staleEnd := ln_n e\<rparr> else c1);
                     c3 = lru_link (ln_n e) (ln_p e) c2
                 in c3\<lparr>c_lruHash := odel (c_lruHash c3) k, c_data := odel (c_data c3) k, c_size := c_size c3 - 1\<rparr>)
      else c\<lparr>c_data := odel (c_data c) k, c_size := c_size c - 1\<rparr>)"

text \<open>The stale end is there when the size exceeds the capacity; without it the code would throw.\<close>

definition lru_put :: "string \<Rightarrow> js \<Rightarrow> cache \<Rightarrow> cache result" where
  "lru_put k v c = (if v = JUndef then Inr c
     else let c1 = (if c_capacity c = None then c
                    else refresh k (if ohas (c_lruHash c) k then c else set_entry (Some k) (\<lambda>e. e) c));
              c2 = c1\<lparr>c_size := (if ohas (c_data c1) k then c_size c1 else c_size c1 + 1),
                      c_data := oset (c_data c1) k v\<rparr>
          in case c_capacity c of
               None \<Rightarrow> Inr c2
             | Some cap \<Rightarrow> (if c_size c2 > cap
                 then (case c_staleEnd c2 of None \<Rightarrow> Inl TypeErr | Some s \<Rightarrow> Inr (lru_remove s c2))
                 else Inr c2))"

definition lru_get :: "string \<Rightarrow> cache \<Rightarrow> js \<times> cache" where
  "lru_get k c =
     (let val = (\<lambda>c. case oget (c_data c) k of None \<Rightarrow> JUndef | Some v \<Rightarrow> v)
      in if c_capacity c \<noteq> None
         then (if \<not> ohas (c_lruHash c) k then (JUndef, c) else (val (refresh k c), refresh k c))
         else (val c, c))"

definition lru_removeAll :: "cache \<Rightarrow> cache" where
  "lru_removeAll c = c\<lparr>c_data := [], c_size := 0, c_lruHash := [], c_freshEnd := None, c_staleEnd := None\<rparr>"

text \<open>The registry \<^verbatim>\<open>caches\<close>: a second cache under an id in use is refused, and \<^verbatim>\<open>destroy\<close> frees the id.\<close>

definition cacheFactory :: "string \<Rightarrow> int option \<Rightarrow> cache obj \<Rightarrow> cache obj result" where
  "cacheFactory cacheId capacity caches = (if ohas caches cacheId then Inl (Thrown ''$cacheFactory:iid'')
     else Inr (oset caches cacheId (new_cache capacity)))"

definition lru_destroy :: "string \<Rightarrow> cache obj \<Rightarrow> cache obj" where
  "lru_destroy cacheId caches = odel caches cacheId"

definition cacheFactory_get :: "string \<Rightarrow> cache obj \<Rightarrow> cache option" where
  "cacheFactory_get cacheId caches = oget caches cacheId"

definition cacheFactory_info :: "cache obj \<Rightarrow> int obj" where
  "cacheFactory_info caches = map (\<lambda>(k, c). (k, c_size c)) caches"

section \<open>Neighbours in a list\<close>

text \<open>\<open>nxt xs k\<close> is the element after \<open>k\<close>; the one before it is \<open>nxt (rev xs) k\<close>.\<close>

fun nxt :: "'a list \<Rightarrow> 'a \<Rightarrow> 'a option" where
  "nxt (x # y # zs) k = (if x = k then Some y else nxt (y # zs) k)"
| "nxt _ k = None"

definition first_of :: "'a list \<Rightarrow> 'a option" where
  "first_of xs = (case xs of [] \<Rightarrow> None | x # _ \<Rightarrow> Some x)"

definition last_of :: "'a list \<Rightarrow> 'a option" where
  "last_of xs = first_of (rev xs)"

lemma first_of_simps [simp]: "first_of [] = None" "first_of (x # xs) = Some x"
  "first_of (xs @ ys) = (if xs = [] then first_of ys else first_of xs)"
  by (simp_all add: first_of_def split: list.split)

lemma first_of_None [simp]: "first_of xs = None \<longleftrightarrow> xs = []"
  by (simp add: first_of_def split: list.split)

lemma last_of_simps [simp]: "last_of [] = None" "last_of (xs @ [x]) = Some x"
  "last_of (xs @ ys) = (if ys = [] then last_of xs else last_of ys)" "last_of [x] = Some x"
  by (simp_all add: last_of_def)

lemma last_of_Cons [simp]: "last_of (x # xs) = (if xs = [] then Some x else last_of xs)"
  using last_of_simps(3) [of "[x]" xs] by simp

lemma first_of_rev [simp]: "first_of (rev xs) = last_of xs" "last_of (rev xs) = first_of xs"
  by (simp_all add: last_of_def)

lemma first_of_in: "first_of xs = Some x \<Longrightarrow> x \<in> set xs"
  by (cases xs) auto

lemma last_of_in: "last_of xs = Some x \<Longrightarrow> x \<in> set xs"
  using first_of_in [of "rev xs"] by simp

lemma nxt_notin: "k \<notin> set xs \<Longrightarrow> nxt xs k = None"
  by (induction xs k rule: nxt.induct) auto

lemma nxt_mid: "k \<notin> set as \<Longrightarrow> nxt (as @ k # bs) k = first_of bs"
proof (induction as)
  case Nil
  show ?case by (cases bs) auto
next
  case (Cons a as)
  then show ?case by (cases as) auto
qed

lemma nxt_append:
  "j \<notin> set bs \<Longrightarrow> distinct as \<Longrightarrow> nxt (as @ bs) j = (if last_of as = Some j then first_of bs else nxt as j)"
proof (induction as)
  case Nil
  then show ?case by (simp add: nxt_notin)
next
  case (Cons a as)
  show ?case
  proof (cases as)
    case Nil
    with Cons.prems show ?thesis by (cases bs) (auto simp: nxt_notin)
  next
    case (Cons b cs)
    with Cons.IH Cons.prems show ?thesis by (auto dest: last_of_in)
  qed
qed

lemma nxt_append_right: "j \<notin> set as \<Longrightarrow> nxt (as @ bs) j = nxt bs j"
proof (induction as)
  case (Cons a as)
  then show ?case by (cases "as @ bs") auto
qed simp

lemma nxt_remove:
  assumes "distinct (as @ k # bs)" and "j \<in> set (as @ bs)"
  shows "nxt (as @ bs) j = (if last_of as = Some j then first_of bs else nxt (as @ k # bs) j)"
proof (cases "j \<in> set as")
  case True
  then have "j \<notin> set bs" "j \<notin> set (k # bs)" "distinct as" using assms(1) by auto
  then show ?thesis by (simp add: nxt_append)
next
  case False
  then have "nxt (as @ k # bs) j = nxt bs j"
    using assms nxt_append_right [of j "as @ [k]" bs] by auto
  moreover have "nxt (as @ bs) j = nxt bs j" using False by (rule nxt_append_right)
  moreover have "last_of as \<noteq> Some j" using False by (auto dest: last_of_in)
  ultimately show ?thesis by simp
qed

lemma nxt_snoc:
  "distinct (ys @ [k]) \<Longrightarrow> nxt (ys @ [k]) j = (if last_of ys = Some j then Some k else nxt ys j)"
  using nxt_append [of j "[k]" ys] nxt_mid [of k ys "[]"] by (cases "j = k") (auto simp: nxt_notin dest: last_of_in)

lemma nxt_Cons: "k \<notin> set ys \<Longrightarrow> nxt (k # ys) j = (if j = k then first_of ys else nxt ys j)"
  by (cases ys) (auto simp: nxt_notin)

section \<open>The list is a list\<close>

text \<open>The entry of \<open>k\<close> when the list holds the keys \<open>xs\<close>, stale end first.\<close>

definition node_of :: "string list \<Rightarrow> string \<Rightarrow> lru_entry" where
  "node_of xs k = \<lparr>ln_n = nxt xs k, ln_p = nxt (rev xs) k\<rparr>"

definition links :: "string list \<Rightarrow> cache \<Rightarrow> bool" where
  "links xs c \<longleftrightarrow> distinct xs \<and>
     (\<forall>k. oget (c_lruHash c) k = (if k \<in> set xs then Some (node_of xs k) else None))"

definition dll :: "string list \<Rightarrow> cache \<Rightarrow> bool" where
  "dll xs c \<longleftrightarrow> links xs c \<and> c_freshEnd c = last_of xs \<and> c_staleEnd c = first_of xs"

lemma set_entry_simps [simp]:
  "c_freshEnd (set_entry k f c) = c_freshEnd c" "c_staleEnd (set_entry k f c) = c_staleEnd c"
  "c_data (set_entry k f c) = c_data c" "c_size (set_entry k f c) = c_size c"
  "c_capacity (set_entry k f c) = c_capacity c"
  by (simp_all add: set_entry_def split: option.split)

lemma lru_link_simps [simp]:
  "c_freshEnd (lru_link n p c) = c_freshEnd c" "c_staleEnd (lru_link n p c) = c_staleEnd c"
  "c_data (lru_link n p c) = c_data c" "c_size (lru_link n p c) = c_size c"
  "c_capacity (lru_link n p c) = c_capacity c"
  by (simp_all add: lru_link_def)

lemma set_entry_get:
  "oget (c_lruHash (set_entry k f c)) j = (if k = Some j then Some (f (entry_of c j)) else oget (c_lruHash c) j)"
  by (cases k) (auto simp: set_entry_def oget_oset)

lemma entry_of_set: "entry_of (set_entry k f c) j = (if k = Some j then f (entry_of c j) else entry_of c j)"
  by (auto simp: entry_of_def set_entry_get)

lemma entry_of_links: "links xs c \<Longrightarrow> k \<in> set xs \<Longrightarrow> entry_of c k = node_of xs k"
  by (simp add: entry_of_def links_def)

lemma node_of_mid: "distinct (as @ k # bs) \<Longrightarrow> node_of (as @ k # bs) k = \<lparr>ln_n = first_of bs, ln_p = last_of as\<rparr>"
  using nxt_mid [of k as bs] nxt_mid [of k "rev bs" "rev as"] by (simp add: node_of_def)

lemma node_of_remove:
  assumes "distinct (as @ k # bs)" and "j \<in> set (as @ bs)"
  shows "node_of (as @ bs) j = (let e = node_of (as @ k # bs) j;
     e1 = (if first_of bs = Some j then e\<lparr>ln_p := last_of as\<rparr> else e)
     in if last_of as = Some j then e1\<lparr>ln_n := first_of bs\<rparr> else e1)"
proof -
  have "distinct (rev bs @ k # rev as)" "j \<in> set (rev bs @ rev as)" using assms by auto
  from nxt_remove [OF this] nxt_remove [OF assms] show ?thesis by (simp add: node_of_def Let_def)
qed

text \<open>Linking the neighbours of a key takes it out of the list; its own entry is left behind.\<close>

lemma link_unlinks:
  assumes "links (as @ k # bs) c"
  shows "j \<noteq> k \<Longrightarrow> oget (c_lruHash (lru_link (first_of bs) (last_of as) c)) j
      = (if j \<in> set (as @ bs) then Some (node_of (as @ bs) j) else None)"
    and "oget (c_lruHash (lru_link (first_of bs) (last_of as) c)) k = Some (node_of (as @ k # bs) k)"
proof -
  have d: "distinct (as @ k # bs)" using assms by (simp add: links_def)
  have ne: "first_of bs \<noteq> last_of as \<or> first_of bs = None \<and> last_of as = None"
    using d by (cases "last_of as") (auto dest: first_of_in last_of_in)
  have k: "first_of bs \<noteq> Some k" "last_of as \<noteq> Some k" using d by (auto dest: first_of_in last_of_in)
  have e: "entry_of c j = node_of (as @ k # bs) j" if "j \<in> set (as @ bs)" for j
    using entry_of_links [OF assms] that by auto
  have h: "oget (c_lruHash c) j = (if j \<in> set (as @ k # bs) then Some (node_of (as @ k # bs) j) else None)" for j
    using assms by (simp add: links_def)
  show "oget (c_lruHash (lru_link (first_of bs) (last_of as) c)) k = Some (node_of (as @ k # bs) k)"
    using k h [of k] by (simp add: lru_link_def set_entry_get)
  show "j \<noteq> k \<Longrightarrow> oget (c_lruHash (lru_link (first_of bs) (last_of as) c)) j
      = (if j \<in> set (as @ bs) then Some (node_of (as @ bs) j) else None)"
  proof (cases "j \<in> set (as @ bs)")
    case True
    then show ?thesis
      using ne e [OF True] h [of j] node_of_remove [OF d True]
      by (auto simp: lru_link_def set_entry_get entry_of_set Let_def)
  next
    case False
    then have "first_of bs \<noteq> Some j" "last_of as \<noteq> Some j" by (auto dest: first_of_in last_of_in)
    moreover assume "j \<noteq> k"
    ultimately show ?thesis using False h [of j] by (simp add: lru_link_def set_entry_get)
  qed
qed

lemma entry_of_ends [simp]:
  "entry_of (c\<lparr>c_staleEnd := x\<rparr>) k = entry_of c k" "entry_of (c\<lparr>c_freshEnd := x\<rparr>) k = entry_of c k"
  by (simp_all add: entry_of_def)

lemma lru_link_ends [simp]:
  "c_lruHash (lru_link n p (c\<lparr>c_staleEnd := x\<rparr>)) = c_lruHash (lru_link n p c)"
  "c_lruHash (lru_link n p (c\<lparr>c_freshEnd := x\<rparr>)) = c_lruHash (lru_link n p c)"
  by (auto simp: lru_link_def set_entry_def entry_of_def split: option.split)

text \<open>The end of \<open>refresh\<close>: an entry outside of the list becomes its fresh end.\<close>

definition to_front :: "string \<Rightarrow> cache \<Rightarrow> cache" where
  "to_front k c = set_entry (Some k) (ln_n_update (\<lambda>_. None)) ((lru_link (Some k) (c_freshEnd c) c)\<lparr>c_freshEnd := Some k\<rparr>)"

lemma to_front_simps [simp]:
  "c_freshEnd (to_front k c) = Some k" "c_staleEnd (to_front k c) = c_staleEnd c"
  "c_data (to_front k c) = c_data c" "c_size (to_front k c) = c_size c" "c_capacity (to_front k c) = c_capacity c"
  by (simp_all add: to_front_def)

lemma to_front_dll:
  assumes d: "distinct (ys @ [k])"
    and h: "\<And>j. j \<noteq> k \<Longrightarrow> oget (c_lruHash c) j = (if j \<in> set ys then Some (node_of ys j) else None)"
    and ends: "c_freshEnd c = last_of ys" "c_staleEnd c = first_of (ys @ [k])"
  shows "dll (ys @ [k]) (to_front k c)"
proof -
  have k: "last_of ys \<noteq> Some k" using d by (auto dest: last_of_in)
  have "oget (c_lruHash (to_front k c)) j = (if j \<in> set (ys @ [k]) then Some (node_of (ys @ [k]) j) else None)" for j
  proof (cases "j = k")
    case True
    have "node_of (ys @ [k]) k = \<lparr>ln_n = None, ln_p = last_of ys\<rparr>" using node_of_mid [of ys k "[]"] d by simp
    with True k show ?thesis by (simp add: to_front_def set_entry_get entry_of_set lru_link_def ends)
  next
    case False
    have "node_of (ys @ [k]) j = (node_of ys j)\<lparr>ln_n := if last_of ys = Some j then Some k else ln_n (node_of ys j)\<rparr>"
      using False d nxt_snoc [OF d, of j] nxt_Cons [of k "rev ys" j] by (simp add: node_of_def)
    moreover have "entry_of c j = node_of ys j" if "last_of ys = Some j"
      using h [OF False] last_of_in [OF that] by (simp add: entry_of_def)
    moreover have "j \<in> set ys" if "last_of ys = Some j" using that by (rule last_of_in)
    ultimately show ?thesis
      using False k h [OF False] by (auto simp: to_front_def set_entry_get entry_of_set lru_link_def ends)
  qed
  then show ?thesis using d ends by (simp add: dll_def links_def)
qed

lemma refresh_unfold:
  "Some k \<noteq> c_freshEnd c \<Longrightarrow> refresh k c =
     (let c1 = (if c_staleEnd c = None then c\<lparr>c_staleEnd := Some k\<rparr>
                else if c_staleEnd c = Some k then c\<lparr>c_staleEnd := ln_n (entry_of c k)\<rparr> else c)
      in to_front k (lru_link (ln_n (entry_of c k)) (ln_p (entry_of c k)) c1))"
  by (auto simp: refresh_def to_front_def Let_def)

lemma refresh_old:
  assumes "dll (as @ k # bs) c"
  shows "dll (as @ bs @ [k]) (refresh k c)"
proof (cases "bs = []")
  case True
  with assms show ?thesis by (simp add: dll_def refresh_def)
next
  case False
  have l: "links (as @ k # bs) c" and d: "distinct (as @ k # bs)" using assms by (simp_all add: dll_def links_def)
  have e: "entry_of c k = \<lparr>ln_n = first_of bs, ln_p = last_of as\<rparr>"
    using entry_of_links [OF l] node_of_mid [OF d] by simp
  have "Some k \<noteq> c_freshEnd c" using assms False d last_of_in [of bs k] by (auto simp: dll_def)
  from refresh_unfold [OF this] e have r: "refresh k c = to_front k (lru_link (first_of bs) (last_of as)
      (if c_staleEnd c = None then c\<lparr>c_staleEnd := Some k\<rparr>
       else if c_staleEnd c = Some k then c\<lparr>c_staleEnd := first_of bs\<rparr> else c))" by simp
  have "dll ((as @ bs) @ [k]) (refresh k c)"
    unfolding r
  proof (rule to_front_dll)
    show "distinct ((as @ bs) @ [k])" using d by auto
  qed (use assms False d link_unlinks(1) [OF l] in \<open>auto simp: dll_def dest: first_of_in\<close>)
  then show ?thesis by simp
qed

lemma refresh_new:
  assumes "dll xs c" and "k \<notin> set xs"
  shows "dll (xs @ [k]) (refresh k (set_entry (Some k) (\<lambda>e. e) c))"
proof -
  let ?c = "set_entry (Some k) (\<lambda>e. e) c"
  have none: "oget (c_lruHash c) k = None" using assms by (simp add: dll_def links_def)
  then have e: "entry_of ?c k = \<lparr>ln_n = None, ln_p = None\<rparr>" by (simp add: entry_of_set) (simp add: entry_of_def)
  have "Some k \<noteq> c_freshEnd ?c" using assms last_of_in [of xs k] by (auto simp: dll_def)
  from refresh_unfold [OF this] e have r: "refresh k ?c = to_front k
      (if c_staleEnd ?c = None then ?c\<lparr>c_staleEnd := Some k\<rparr>
       else if c_staleEnd ?c = Some k then ?c\<lparr>c_staleEnd := None\<rparr> else ?c)"
    by (auto simp: lru_link_def Let_def)
  show ?thesis
    unfolding r
  proof (rule to_front_dll)
    show "distinct (xs @ [k])" using assms by (simp add: dll_def links_def)
  qed (use assms in \<open>auto simp: dll_def links_def set_entry_get dest: first_of_in split: if_splits\<close>)
qed

lemma refresh_keeps [simp]:
  "c_data (refresh k c) = c_data c" "c_size (refresh k c) = c_size c" "c_capacity (refresh k c) = c_capacity c"
  by (simp_all add: refresh_def Let_def)

lemma dll_has: "dll xs c \<Longrightarrow> ohas (c_lruHash c) k \<longleftrightarrow> k \<in> set xs"
  by (simp add: dll_def links_def ohas_def)

lemma dll_irrelevant [simp]:
  "dll xs (c\<lparr>c_size := n, c_data := d\<rparr>) = dll xs c" "dll xs (c\<lparr>c_data := d\<rparr>) = dll xs c"
  "dll xs (c\<lparr>c_size := n\<rparr>) = dll xs c"
  by (simp_all add: dll_def links_def)

lemma lru_remove_dll:
  assumes "dll (as @ k # bs) c" and "c_capacity c \<noteq> None"
  shows "dll (as @ bs) (lru_remove k c)"
    and "c_data (lru_remove k c) = odel (c_data c) k" and "c_size (lru_remove k c) = c_size c - 1"
proof -
  have l: "links (as @ k # bs) c" and d: "distinct (as @ k # bs)" using assms by (simp_all add: dll_def links_def)
  have e: "entry_of c k = \<lparr>ln_n = first_of bs, ln_p = last_of as\<rparr>"
    using entry_of_links [OF l] node_of_mid [OF d] by simp
  have has: "ohas (c_lruHash c) k" using dll_has [OF assms(1)] by simp
  have ends: "c_freshEnd c = last_of (k # bs)" "c_staleEnd c = first_of (as @ [k])"
    using assms(1) by (simp_all add: dll_def)
  have nk: "last_of bs \<noteq> Some k" "first_of as \<noteq> Some k" using d by (auto dest: first_of_in last_of_in)
  show "c_data (lru_remove k c) = odel (c_data c) k" "c_size (lru_remove k c) = c_size c - 1"
    using assms(2) has by (simp_all add: lru_remove_def Let_def)
  have "oget (c_lruHash (lru_remove k c)) j = (if j \<in> set (as @ bs) then Some (node_of (as @ bs) j) else None)" for j
    using link_unlinks(1) [OF l, of j] d assms(2) has e
    by (cases "j = k") (simp_all add: lru_remove_def Let_def oget_odel)
  moreover have "c_freshEnd (lru_remove k c) = last_of (as @ bs)" "c_staleEnd (lru_remove k c) = first_of (as @ bs)"
    using assms(2) has e ends nk by (auto simp: lru_remove_def Let_def)
  ultimately show "dll (as @ bs) (lru_remove k c)" using d by (simp add: dll_def links_def)
qed

section \<open>The specification\<close>

text \<open>
  What a bounded cache promises: a list of pairs in the order of their last use, oldest first. Writing
  and reading a key move it to the end; one pair too many drops the first.
\<close>

datatype cache_op = CPut string js | CGet string | CRemove string | CRemoveAll | CInfo

type_synonym lru_spec = "(string \<times> js) list"

definition without :: "string \<Rightarrow> lru_spec \<Rightarrow> lru_spec" where
  "without k s = filter (\<lambda>p. fst p \<noteq> k) s"

fun spec_op :: "int \<Rightarrow> cache_op \<Rightarrow> lru_spec \<Rightarrow> js \<times> lru_spec" where
  "spec_op cap (CPut k v) s = (v, if v = JUndef then s
     else let s' = without k s @ [(k, v)] in if int (length s') > cap then tl s' else s')"
| "spec_op cap (CGet k) s = (case map_of s k of None \<Rightarrow> (JUndef, s) | Some v \<Rightarrow> (v, without k s @ [(k, v)]))"
| "spec_op cap (CRemove k) s = (JUndef, without k s)"
| "spec_op cap CRemoveAll s = (JUndef, [])"
| "spec_op cap CInfo s = (JNum (int (length s)), s)"

fun spec_run :: "int \<Rightarrow> cache_op list \<Rightarrow> lru_spec \<Rightarrow> js list \<times> lru_spec" where
  "spec_run cap [] s = ([], s)"
| "spec_run cap (op # ops) s = (let (v, s') = spec_op cap op s; (vs, s'') = spec_run cap ops s' in (v # vs, s''))"

text \<open>The same operations on the code's cache, with what each of them returns.\<close>

fun cache_step :: "cache_op \<Rightarrow> cache \<Rightarrow> (js \<times> cache) result" where
  "cache_step (CPut k v) c = rbind (lru_put k v c) (\<lambda>c'. Inr (v, c'))"
| "cache_step (CGet k) c = Inr (lru_get k c)"
| "cache_step (CRemove k) c = Inr (JUndef, lru_remove k c)"
| "cache_step CRemoveAll c = Inr (JUndef, lru_removeAll c)"
| "cache_step CInfo c = Inr (JNum (c_size c), c)"

fun cache_run :: "cache_op list \<Rightarrow> cache \<Rightarrow> (js list \<times> cache) result" where
  "cache_run [] c = Inr ([], c)"
| "cache_run (op # ops) c = rbind (cache_step op c) (\<lambda>(v, c'). rbind (cache_run ops c') (\<lambda>(vs, c''). Inr (v # vs, c'')))"

definition represents :: "int \<Rightarrow> lru_spec \<Rightarrow> cache \<Rightarrow> bool" where
  "represents cap s c \<longleftrightarrow> c_capacity c = Some cap \<and> dll (map fst s) c \<and>
     (\<forall>k. oget (c_data c) k = map_of s k) \<and> c_size c = int (length s)"

lemma represents_new: "cap \<noteq> 0 \<Longrightarrow> represents cap [] (new_cache (Some cap))"
  by (simp add: represents_def new_cache_def dll_def links_def)

lemma represents_removeAll: "represents cap s c \<Longrightarrow> represents cap [] (lru_removeAll c)"
  by (simp add: represents_def lru_removeAll_def dll_def links_def)

lemma represents_distinct: "represents cap s c \<Longrightarrow> distinct (map fst s)"
  by (simp add: represents_def dll_def links_def)

lemma represents_has: "represents cap s c \<Longrightarrow> ohas (c_lruHash c) k \<longleftrightarrow> k \<in> fst ` set s"
  using dll_has [of "map fst s" c k] by (simp add: represents_def)

lemma without_id: "k \<notin> fst ` set s \<Longrightarrow> without k s = s"
  by (auto simp: without_def intro!: filter_True)

lemma without_mid: "distinct (map fst (as @ (k, v) # bs)) \<Longrightarrow> without k (as @ (k, v) # bs) = as @ bs"
  using without_id [of k as] without_id [of k bs] by (auto simp: without_def)

lemma map_of_without: "map_of (without k s) j = (if j = k then None else map_of s j)"
  by (induction s) (auto simp: without_def)

lemma split_key:
  assumes "map_of s k = Some v" obtains as bs where "s = as @ (k, v) # bs"
  using split_list [OF map_of_SomeD [OF assms]] that by blast

lemma represents_remove:
  assumes r: "represents cap s c" shows "represents cap (without k s) (lru_remove k c)"
proof (cases "map_of s k")
  case None
  then have "k \<notin> fst ` set s" by (simp add: map_of_eq_None_iff)
  with r represents_has [OF r, of k] show ?thesis by (simp add: represents_def lru_remove_def without_id)
next
  case (Some v)
  then obtain as bs where s: "s = as @ (k, v) # bs" by (rule split_key)
  have d: "distinct (map fst s)" and cap: "c_capacity c \<noteq> None"
    using r by (auto simp: represents_def dll_def links_def)
  have dl: "dll (map fst as @ k # map fst bs) c" using r by (simp add: represents_def s)
  have "c_capacity (lru_remove k c) = c_capacity c" by (simp add: lru_remove_def Let_def)
  then show ?thesis
    using r lru_remove_dll [OF dl cap] without_mid [of as k v bs] d
      map_of_without [of k s] by (simp add: represents_def s oget_odel)
qed

lemma represents_moved:
  assumes "c_capacity c = Some cap" "dll (map fst (without k s) @ [k]) c"
    and "\<And>j. oget (c_data c) j = (if j = k then Some v else map_of s j)"
    and "c_size c = int (length (without k s)) + 1"
  shows "represents cap (without k s @ [(k, v)]) c"
  using assms by (auto simp: represents_def map_add_def map_of_without split: option.split)

lemma represents_use:
  assumes r: "represents cap s c" and v: "map_of s k = Some v"
  shows "dll (map fst (without k s) @ [k]) (refresh k c)" and "length s = length (without k s) + 1"
proof -
  from v obtain as bs where s: "s = as @ (k, v) # bs" by (rule split_key)
  have w: "without k s = as @ bs" using without_mid [of as k v bs] represents_distinct [OF r] by (simp add: s)
  have "dll (map fst as @ k # map fst bs) c" using r by (simp add: represents_def s)
  from refresh_old [OF this] show "dll (map fst (without k s) @ [k]) (refresh k c)" by (simp add: w)
  show "length s = length (without k s) + 1" by (simp add: w) (simp add: s)
qed

lemma represents_new_key:
  assumes r: "represents cap s c" and k: "map_of s k = None"
  shows "dll (map fst s @ [k]) (refresh k (set_entry (Some k) (\<lambda>e. e) c))"
proof (rule refresh_new)
  show "dll (map fst s) c" using r by (simp add: represents_def)
  show "k \<notin> set (map fst s)" using k by (simp add: map_of_eq_None_iff)
qed

text \<open>The state of \<open>put\<close> before it looks at the capacity.\<close>

lemma represents_store:
  fixes k :: string
  assumes r: "represents cap s c"
  defines "c1 \<equiv> refresh k (if ohas (c_lruHash c) k then c else set_entry (Some k) (\<lambda>e. e) c)"
  shows "represents cap (without k s @ [(k, v)])
    (c1\<lparr>c_size := (if ohas (c_data c1) k then c_size c1 else c_size c1 + 1), c_data := oset (c_data c1) k v\<rparr>)"
proof (cases "map_of s k")
  case None
  then have n: "k \<notin> fst ` set s" by (simp add: map_of_eq_None_iff)
  with r have h: "\<not> ohas (c_lruHash c) k" by (simp add: represents_has)
  show ?thesis
    using r None h represents_new_key [OF r None] without_id [OF n]
    by (intro represents_moved) (simp_all add: c1_def represents_def ohas_def oget_oset)
next
  case (Some w)
  then have n: "k \<in> fst ` set s" by (metis map_of_eq_None_iff option.distinct(1))
  with r have h: "ohas (c_lruHash c) k" by (simp add: represents_has)
  show ?thesis
    using r Some h represents_use [OF r Some]
    by (intro represents_moved) (simp_all add: c1_def represents_def ohas_def oget_oset)
qed

lemma represents_put:
  assumes r: "represents cap s c" and b: "int (length s) \<le> max 0 cap"
  shows "\<exists>c'. lru_put k v c = Inr c' \<and> represents cap (snd (spec_op cap (CPut k v) s)) c'
    \<and> int (length (snd (spec_op cap (CPut k v) s))) \<le> max 0 cap"
proof (cases "v = JUndef")
  case True
  with r b show ?thesis by (simp add: lru_put_def)
next
  case False
  define c1 where "c1 = refresh k (if ohas (c_lruHash c) k then c else set_entry (Some k) (\<lambda>e. e) c)"
  define c2 where "c2 = c1\<lparr>c_size := (if ohas (c_data c1) k then c_size c1 else c_size c1 + 1),
    c_data := oset (c_data c1) k v\<rparr>"
  define s' where "s' = without k s @ [(k, v)]"
  have r2: "represents cap s' c2" unfolding c2_def c1_def s'_def by (rule represents_store [OF r])
  have cap: "c_capacity c = Some cap" using r by (simp add: represents_def)
  have size: "c_size c2 = int (length s')" using r2 by (simp add: represents_def)
  have len: "length s' \<le> length s + 1" by (simp add: s'_def without_def)
  obtain p q where pq: "s' = p # q" by (cases s') (auto simp: s'_def)
  have stale: "c_staleEnd c2 = Some (fst p)" using r2 by (simp add: represents_def dll_def pq)
  have "without (fst p) s' = q"
    using represents_distinct [OF r2] without_mid [of "[]" "fst p" "snd p" q] by (simp add: pq)
  then have rm: "represents cap q (lru_remove (fst p) c2)" using represents_remove [OF r2, of "fst p"] by simp
  have "lru_put k v c = (if c_size c2 > cap
      then (case c_staleEnd c2 of None \<Rightarrow> Inl TypeErr | Some s \<Rightarrow> Inr (lru_remove s c2)) else Inr c2)"
    unfolding lru_put_def c2_def c1_def Let_def by (simp only: False cap if_False option.case option.distinct)
  then have "lru_put k v c = (if int (length s') > cap then Inr (lru_remove (fst p) c2) else Inr c2)"
    unfolding stale size by simp
  moreover have "snd (spec_op cap (CPut k v) s) = (if int (length s') > cap then q else s')"
    using False by (simp add: s'_def [symmetric] pq Let_def)
  ultimately show ?thesis using r2 rm len b by (auto simp: pq)
qed

lemma represents_step:
  assumes r: "represents cap s c" and b: "int (length s) \<le> max 0 cap"
  shows "\<exists>c'. cache_step op c = Inr (fst (spec_op cap op s), c') \<and> represents cap (snd (spec_op cap op s)) c'
    \<and> int (length (snd (spec_op cap op s))) \<le> max 0 cap"
proof (cases op)
  case (CPut k v)
  then show ?thesis using represents_put [OF r b, of k v] by auto
next
  case (CGet k)
  have has: "ohas (c_lruHash c) k \<longleftrightarrow> map_of s k \<noteq> None"
    using represents_has [OF r] by (simp add: map_of_eq_None_iff)
  have cap: "c_capacity c = Some cap" using r by (simp add: represents_def)
  show ?thesis
  proof (cases "map_of s k")
    case None
    with CGet has cap r b show ?thesis by (simp add: lru_get_def)
  next
    case (Some v)
    have d: "oget (c_data c) k = Some v" using r Some by (simp add: represents_def)
    have "represents cap (without k s @ [(k, v)]) (refresh k c)"
      using r Some represents_use [OF r Some] by (intro represents_moved) (auto simp: represents_def)
    then show ?thesis using CGet has cap Some d b represents_use(2) [OF r Some] by (simp add: lru_get_def Let_def)
  qed
next
  case (CRemove k)
  have "length (without k s) \<le> length s" by (simp add: without_def)
  with CRemove b represents_remove [OF r, of k] show ?thesis by auto
next
  case CRemoveAll
  with represents_removeAll [OF r] show ?thesis by simp
next
  case CInfo
  with r b show ?thesis by (simp add: represents_def)
qed

lemma represents_run:
  "represents cap s c \<Longrightarrow> int (length s) \<le> max 0 cap \<Longrightarrow>
     \<exists>c'. cache_run ops c = Inr (fst (spec_run cap ops s), c') \<and> represents cap (snd (spec_run cap ops s)) c'
       \<and> int (length (snd (spec_run cap ops s))) \<le> max 0 cap"
proof (induction ops arbitrary: s c)
  case (Cons op ops)
  obtain c1 where c1: "cache_step op c = Inr (fst (spec_op cap op s), c1)"
    "represents cap (snd (spec_op cap op s)) c1" "int (length (snd (spec_op cap op s))) \<le> max 0 cap"
    using represents_step [OF Cons.prems] by blast
  from Cons.IH [OF c1(2,3)] c1(1) show ?case by (auto simp: Let_def split_beta)
qed simp

text \<open>
  C18. A bounded cache behaves as the recency list: for every sequence of writes, reads, removals,
  clearings and size queries on a fresh cache with a non-zero capacity, no operation throws, each of
  them returns what the specification returns, and the cache never ends with more entries than its capacity
  (a negative capacity counting as zero).
\<close>

theorem cache_refines_recency_list:
  assumes "cap \<noteq> 0"
  shows "\<exists>c. cache_run ops (new_cache (Some cap)) = Inr (fst (spec_run cap ops []), c)
    \<and> represents cap (snd (spec_run cap ops [])) c \<and> c_size c \<le> max 0 cap"
  using represents_run [OF represents_new [OF assms], of ops] by (auto simp: represents_def)

theorem cache_refines_recency_list_witness:
  "\<exists>c. cache_run [CPut ''a'' (JNum 1), CPut ''b'' (JNum 2), CGet ''a'', CPut ''c'' (JNum 3), CGet ''b'', CGet ''a'']
      (new_cache (Some 2)) = Inr ([JNum 1, JNum 2, JNum 1, JNum 3, JUndef, JNum 1], c) \<and> c_size c \<le> 2"
  using cache_refines_recency_list [of 2 "[CPut ''a'' (JNum 1), CPut ''b'' (JNum 2), CGet ''a'', CPut ''c'' (JNum 3),
    CGet ''b'', CGet ''a'']"] by (auto simp: without_def)

text \<open>Without a capacity a removal does not look whether the key is there: the size falls below zero.\<close>

lemma unbounded_remove_missing: "c_size (lru_remove k (new_cache None)) = - 1"
  by (simp add: lru_remove_def new_cache_def)

end
