(* ===== verification/Angular_Location.thy ===== *)
theory Angular_Location
  imports Mobile_Abstract Twister_User Json_Text
begin

text \<open>
  \<^verbatim>\<open>$location\<close> of \<^verbatim>\<open>angular.js\<close>, which the routes of the application read and write: the encoding of
  paths and query strings, the query string as an object, and the getters and setters of a location in
  hashbang mode. A query object has strings, \<^verbatim>\<open>true\<close> (a key without \<^verbatim>\<open>=\<close>), \<^verbatim>\<open>undefined\<close> (a value that does not
  decode) and arrays of these. Characters are those below 256, encoded as UTF-8; a sequence that decodes
  to a character above them counts as malformed.
\<close>

section \<open>Percent encoding\<close>

text \<open>\<^verbatim>\<open>s.replace(/p/g, r)\<close> for a literal pattern, with the flag \<^verbatim>\<open>i\<close> when \<open>ci\<close>.\<close>

fun replaceAll :: "bool \<Rightarrow> string \<Rightarrow> string \<Rightarrow> string \<Rightarrow> string" where
  "replaceAll ci p r [] = []"
| "replaceAll ci p r (c # s) =
     (if (if ci then toLowerCase (take (length p) (c # s)) = toLowerCase p else take (length p) (c # s) = p)
      then r @ replaceAll ci p r (drop (length p - 1) s) else c # replaceAll ci p r s)"

text \<open>\<^verbatim>\<open>%XX\<close> at the start of a string, and the byte it stands for.\<close>

definition pct_byte :: "string \<Rightarrow> (nat \<times> string) option" where
  "pct_byte s = (case s of p # a # b # r \<Rightarrow>
       (if p = CHR ''%'' then (case (hex_val a, hex_val b) of (Some m, Some n) \<Rightarrow> Some (16 * m + n, r) | _ \<Rightarrow> None)
        else None) | _ \<Rightarrow> None)"

lemma pct_byte_length: "pct_byte s = Some (v, r) \<Longrightarrow> length r < length s"
  by (auto simp: pct_byte_def split: list.splits if_splits option.splits)

function decodeURIComponent :: "string \<Rightarrow> string option" where
  "decodeURIComponent s = (case s of [] \<Rightarrow> Some [] | c # r \<Rightarrow>
     if c \<noteq> CHR ''%'' then map_option ((#) c) (decodeURIComponent r)
     else (case pct_byte s of None \<Rightarrow> None | Some (v, r1) \<Rightarrow>
       if v < 128 then map_option ((#) (char_of v)) (decodeURIComponent r1)
       else if v = 194 \<or> v = 195
       then (case pct_byte r1 of None \<Rightarrow> None | Some (w, r2) \<Rightarrow>
         if 128 \<le> w \<and> w < 192 then map_option ((#) (char_of (64 * (v - 192) + (w - 128)))) (decodeURIComponent r2)
         else None)
       else None))"
  by pat_completeness auto
termination
  by (relation "measure length") (auto dest!: pct_byte_length)

declare decodeURIComponent.simps [simp del]

definition tryDecodeURIComponent :: "string \<Rightarrow> js" where
  "tryDecodeURIComponent v = (case decodeURIComponent v of None \<Rightarrow> JUndef | Some s \<Rightarrow> JStr s)"

definition encodeUriQuery :: "string \<Rightarrow> bool \<Rightarrow> string" where
  "encodeUriQuery val pctEncodeSpaces =
     replaceAll False ''%20'' (if pctEncodeSpaces then ''%20'' else ''+'')
       (replaceAll True ''%3B'' '';'' (replaceAll True ''%2C'' '','' (replaceAll False ''%24'' ''$''
         (replaceAll True ''%3A'' '':'' (replaceAll True ''%40'' ''@'' (encodeURIComponent val))))))"

definition encodeUriSegment :: "string \<Rightarrow> string" where
  "encodeUriSegment val = replaceAll True ''%2B'' ''+'' (replaceAll True ''%3D'' ''=''
     (replaceAll True ''%26'' ''&'' (encodeUriQuery val True)))"

definition encodePath :: "string \<Rightarrow> string" where
  "encodePath path = js_join ''/'' (map encodeUriSegment (js_split (CHR ''/'') path))"

section \<open>Query strings\<close>

text \<open>\<^verbatim>\<open>String(v)\<close>.\<close>

fun js_String :: "js \<Rightarrow> string" where
  "js_String (JStr s) = s"
| "js_String (JNum n) = str_of_int n"
| "js_String (JBool b) = (if b then ''true'' else ''false'')"
| "js_String JNull = ''null''"
| "js_String JUndef = ''undefined''"
| "js_String (JArr xs) = js_join '','' (map (\<lambda>x. if x = JNull \<or> x = JUndef then '''' else js_String x) xs)"
| "js_String (JObj m) = ''[object Object]''"

definition add_value :: "string \<Rightarrow> js \<Rightarrow> js obj \<Rightarrow> js obj" where
  "add_value key val obj = (case oget obj key of
       None \<Rightarrow> oset obj key val
     | Some (JArr xs) \<Rightarrow> oset obj key (JArr (xs @ [val]))
     | Some v \<Rightarrow> oset obj key (JArr [v, val]))"

definition parse_part :: "string \<Rightarrow> js obj \<Rightarrow> js obj" where
  "parse_part keyValue obj =
     (if keyValue = [] then obj
      else let kv = replaceAll False ''+'' ''%20'' keyValue;
               (k, v) = (case js_indexOf kv ''='' of None \<Rightarrow> (kv, None) | Some i \<Rightarrow> (take i kv, Some (drop (i + 1) kv)))
           in case tryDecodeURIComponent k of
                JStr key \<Rightarrow> add_value key (case v of None \<Rightarrow> JBool True | Some w \<Rightarrow> tryDecodeURIComponent w) obj
              | _ \<Rightarrow> obj)"

definition parseKeyValue :: "string \<Rightarrow> js obj" where
  "parseKeyValue keyValue = fold parse_part (js_split (CHR ''&'') keyValue) []"

definition key_value_part :: "string \<Rightarrow> js \<Rightarrow> string" where
  "key_value_part key v = encodeUriQuery key True @
     (if v = JBool True then [] else ''='' @ encodeUriQuery (js_String v) True)"

definition key_value_parts :: "string \<times> js \<Rightarrow> string list" where
  "key_value_parts kv = (case snd kv of JArr xs \<Rightarrow> map (key_value_part (fst kv)) xs
     | v \<Rightarrow> [key_value_part (fst kv) v])"

definition toKeyValue :: "js obj \<Rightarrow> string" where
  "toKeyValue obj = js_join ''&'' (concat (map key_value_parts obj))"

section \<open>Locations\<close>

record location =
  l_appBase :: string
  l_hashPrefix :: string
  l_path :: string
  l_search :: "js obj"
  l_hash :: string
  l_url :: string
  l_absUrl :: string
  l_replace :: bool

definition compose :: "location \<Rightarrow> location" where
  "compose l = (let search = toKeyValue (l_search l);
       hash = (if l_hash l = [] then [] else ''#'' @ encodeUriSegment (l_hash l));
       url = encodePath (l_path l) @ (if search = [] then [] else ''?'' @ search) @ hash
     in l\<lparr>l_url := url, l_absUrl := l_appBase l @ (if url = [] then [] else l_hashPrefix l @ url)\<rparr>)"

definition loc_path :: "string \<Rightarrow> location \<Rightarrow> location" where
  "loc_path path l = compose (l\<lparr>l_path := (case path of c # _ \<Rightarrow> if c = CHR ''/'' then path else ''/'' @ path
                                          | [] \<Rightarrow> ''/'')\<rparr>)"

definition set_hash :: "string \<Rightarrow> location \<Rightarrow> location" where
  "set_hash h l = compose (l\<lparr>l_hash := h\<rparr>)"

text \<open>\<^verbatim>\<open>search(string)\<close>, \<^verbatim>\<open>search(object)\<close> and \<^verbatim>\<open>search(key, value)\<close>.\<close>

definition set_search_string :: "string \<Rightarrow> location \<Rightarrow> location" where
  "set_search_string s l = compose (l\<lparr>l_search := parseKeyValue s\<rparr>)"

definition set_search :: "js obj \<Rightarrow> location \<Rightarrow> location" where
  "set_search m l = compose (l\<lparr>l_search := filter (\<lambda>(k, v). v \<noteq> JNull \<and> v \<noteq> JUndef) m\<rparr>)"

definition set_search_key :: "string \<Rightarrow> js \<Rightarrow> location \<Rightarrow> location" where
  "set_search_key k v l = compose (l\<lparr>l_search :=
     (if v = JNull \<or> v = JUndef then odel (l_search l) k else oset (l_search l) k v)\<rparr>)"

definition loc_replace :: "location \<Rightarrow> location" where
  "loc_replace l = l\<lparr>l_replace := True\<rparr>"

text \<open>
  \<^verbatim>\<open>PATH_MATCH.exec(url)\<close>: path, query (with its question mark, when there is one) and fragment. The dot of
  the fragment does not match a line terminator.
\<close>

definition path_match :: "string \<Rightarrow> (string \<times> string option \<times> string option) option" where
  "path_match url =
     (let path = takeWhile (\<lambda>c. c \<noteq> CHR ''?'' \<and> c \<noteq> CHR ''#'') url; rest = drop (length path) url;
          query = (case rest of c # q \<Rightarrow> if c = CHR ''?'' then Some (takeWhile (\<lambda>c. c \<noteq> CHR ''#'') q) else None | [] \<Rightarrow> None);
          frag = (case query of None \<Rightarrow> rest | Some q \<Rightarrow> drop (length q + 1) rest)
      in case frag of [] \<Rightarrow> Some (path, query, None)
         | _ # h \<Rightarrow> if list_ex (\<lambda>c. c = CHR 0x0A \<or> c = CHR 0x0D) h then None else Some (path, query, Some h))"

definition set_url :: "string \<Rightarrow> location \<Rightarrow> location result" where
  "set_url url l = (case path_match url of
       None \<Rightarrow> Inl TypeErr
     | Some (path, query, frag) \<Rightarrow>
         rbind (if path \<noteq> [] \<or> url = []
                then (case decodeURIComponent path of None \<Rightarrow> Inl (Thrown ''URIError'') | Some p \<Rightarrow> Inr (loc_path p l))
                else Inr l)
           (\<lambda>l1. let l2 = (if query \<noteq> None \<or> path \<noteq> [] \<or> url = []
                           then set_search_string (case query of None \<Rightarrow> [] | Some q \<Rightarrow> q) l1 else l1)
                 in Inr (set_hash (case frag of None \<Rightarrow> [] | Some h \<Rightarrow> h) l2)))"

section \<open>Encoding and decoding\<close>

text \<open>The encoders differ in the characters they keep.\<close>

definition enc_char :: "(char \<Rightarrow> bool) \<Rightarrow> char \<Rightarrow> string" where
  "enc_char keep c = (if keep c then [c] else let n = of_char c in
     if n < 128 then pct n else pct (192 + n div 64) @ pct (128 + n mod 64))"

abbreviation enc :: "(char \<Rightarrow> bool) \<Rightarrow> string \<Rightarrow> string" where
  "enc keep s \<equiv> concat (map (enc_char keep) s)"

lemma encodeURIComponent_enc: "encodeURIComponent s = enc uri_unreserved s"
  unfolding encodeURIComponent_def enc_char_def [abs_def] ..

lemma hex_val_upper: "n < 16 \<Longrightarrow> hex_val (hex_upper n) = Some n"
  by (auto simp: hex_val_def hex_upper_def Let_def)

lemma hex_val_percent: "hex_val (CHR ''%'') = None"
  by (simp add: hex_val_def)

lemma hex_lower_upper: "n < 16 \<Longrightarrow> to_lower (hex_upper n) = hex_digit n"
  by (auto simp: to_lower_def hex_upper_def hex_digit_def Let_def)

lemma hex_digit_inj: "m < 16 \<Longrightarrow> n < 16 \<Longrightarrow> hex_digit m = hex_digit n \<longleftrightarrow> m = n"
  by (metis hex_val_hex_digit option.inject)

lemma pct_inj:
  assumes "m < 256" "n < 256"
  shows "toLowerCase (pct m) = toLowerCase (pct n) \<longleftrightarrow> m = n" and "pct m = pct n \<longleftrightarrow> m = n"
proof -
  have d: "m div 16 < 16" "n div 16 < 16" using assms by auto
  have eq: "m div 16 = n div 16 \<Longrightarrow> m mod 16 = n mod 16 \<Longrightarrow> m = n" by (metis div_mult_mod_eq)
  then show t: "toLowerCase (pct m) = toLowerCase (pct n) \<longleftrightarrow> m = n"
    using d by (auto simp: pct_def toLowerCase_def hex_lower_upper hex_digit_inj)
  then show "pct m = pct n \<longleftrightarrow> m = n" by metis
qed

lemma pct_byte_pct: "n < 256 \<Longrightarrow> pct_byte (pct n @ r) = Some (n, r)"
  by (simp add: pct_byte_def pct_def hex_val_upper)

lemma pct_Cons: "pct n @ r = CHR ''%'' # hex_upper (n div 16) # hex_upper (n mod 16) # r"
  by (simp add: pct_def)

lemma decode_pct:
  assumes "n < 256"
  shows "decodeURIComponent (pct n @ r) =
     (if n < 128 then map_option ((#) (char_of n)) (decodeURIComponent r)
      else if n = 194 \<or> n = 195
      then (case pct_byte r of None \<Rightarrow> None | Some (w, r2) \<Rightarrow>
        if 128 \<le> w \<and> w < 192 then map_option ((#) (char_of (64 * (n - 192) + (w - 128)))) (decodeURIComponent r2)
        else None)
      else None)"
  using pct_byte_pct [OF assms, of r] unfolding pct_Cons by (subst decodeURIComponent.simps) simp

lemma decode_enc_char:
  assumes "\<not> keep (CHR ''%'')"
  shows "decodeURIComponent (enc_char keep c @ r) = map_option ((#) c) (decodeURIComponent r)"
proof (cases "keep c \<or> of_char c < (128 :: nat)")
  case True
  then consider (kept) "keep c" "c \<noteq> CHR ''%''" | (coded) "\<not> keep c" "of_char c < (128 :: nat)" using assms by blast
  then show ?thesis
    by cases (simp_all add: enc_char_def decode_pct decodeURIComponent.simps [of "c # r"])
next
  case False
  let ?n = "of_char c :: nat"
  have c: "?n < 256" by simp
  with False have v: "192 + ?n div 64 = 194 \<or> 192 + ?n div 64 = 195" by linarith
  have w: "?n mod 64 < 64" and e: "64 * (?n div 64) + ?n mod 64 = ?n" by simp_all
  from False have "enc_char keep c @ r = pct (192 + ?n div 64) @ pct (128 + ?n mod 64) @ r"
    by (simp add: enc_char_def Let_def)
  moreover have "192 + ?n div 64 < 256" "\<not> 192 + ?n div 64 < 128" "128 + ?n mod 64 < 256" using v w by auto
  ultimately show ?thesis
    using v w e by (simp add: decode_pct pct_byte_pct)
qed

lemma decode_enc: "\<not> keep (CHR ''%'') \<Longrightarrow> decodeURIComponent (enc keep s @ r) = map_option (\<lambda>t. s @ t) (decodeURIComponent r)"
proof (induction s)
  case (Cons a s)
  then show ?case by (cases "decodeURIComponent r") (simp_all add: decode_enc_char)
next
  case Nil
  show ?case by (cases "decodeURIComponent r") simp_all
qed

lemma decode_encoded: "\<not> keep (CHR ''%'') \<Longrightarrow> decodeURIComponent (enc keep s) = Some s"
  using decode_enc [of keep s "[]"] by (simp add: decodeURIComponent.simps [of "[]"])

text \<open>Putting a character back extends what an encoder keeps.\<close>

lemma to_lower_pct: "to_lower c = CHR ''%'' \<longleftrightarrow> c = CHR ''%''"
proof
  assume "to_lower c = CHR ''%''"
  then have l: "of_char (to_lower c) = (37 :: nat)" by simp
  have "of_char (to_lower c) = (of_char c :: nat) \<or> of_char (to_lower c) \<ge> (97 :: nat)"
    by (simp add: to_lower_def Let_def)
  with l have "of_char c = (of_char (CHR ''%'') :: nat)" by simp
  then show "c = CHR ''%''" by (simp only: of_char_eq_iff)
qed (simp add: to_lower_def)

lemma hex_upper_pct: "i < 16 \<Longrightarrow> hex_upper i \<noteq> CHR ''%''"
  by (metis hex_val_upper hex_val_percent option.distinct(1))

lemma replaceAll_pct:
  assumes "m < 256" "n < 256"
  shows "replaceAll ci (pct n) r (pct m @ s) = (if m = n then r else pct m) @ replaceAll ci (pct n) r s"
proof -
  have h: "m div 16 < 16" "m mod 16 < 16" using assms by auto
  have t: "take (length (pct n)) (pct m @ s) = pct m" by (simp add: pct_def)
  have skip: "replaceAll ci (pct n) r (x # s') = x # replaceAll ci (pct n) r s'"
    if "x \<noteq> CHR ''%''" for x s'
    using that to_lower_pct [of x] by (auto simp: pct_def toLowerCase_def to_lower_pct [of "CHR ''%''", simplified])
  show ?thesis
  proof (cases "m = n")
    case True
    then show ?thesis using t by (simp add: pct_def)
  next
    case False
    then have "pct m \<noteq> pct n" "toLowerCase (pct m) \<noteq> toLowerCase (pct n)" using pct_inj [OF assms] by auto
    with t have "replaceAll ci (pct n) r (pct m @ s)
        = CHR ''%'' # replaceAll ci (pct n) r (hex_upper (m div 16) # hex_upper (m mod 16) # s)"
      unfolding pct_Cons by simp
    also have "\<dots> = pct m @ replaceAll ci (pct n) r s" 
      unfolding skip [OF hex_upper_pct [OF h(1)]] skip [OF hex_upper_pct [OF h(2)]] pct_Cons ..
    finally show ?thesis using False by simp
  qed
qed

lemma replaceAll_enc:
  assumes "n < 128" "\<not> keep (CHR ''%'')" "n \<noteq> 37"
  shows "replaceAll ci (pct n) [char_of n] (enc keep s) = enc (\<lambda>c. keep c \<or> c = char_of n) s"
proof (induction s)
  case (Cons c s)
  let ?n = "of_char c :: nat"
  have c: "?n < 256" by simp
  show ?case
  proof (cases "keep c")
    case True
    with assms have "c \<noteq> CHR ''%''" by auto
    with Cons True to_lower_pct [of c] show ?thesis
      by (simp add: enc_char_def pct_def toLowerCase_def to_lower_pct [of "CHR ''%''", simplified])
  next
    case False
    have b: "192 + ?n div 64 < 256" "128 + ?n mod 64 < 256" "n < 256" using c assms(1) by linarith+
    have d: "192 + ?n div 64 \<noteq> n" "128 + ?n mod 64 \<noteq> n" using assms by auto
    have e: "c = char_of n \<longleftrightarrow> ?n = n" using assms by auto
    show ?thesis
      using False Cons b d e c assms(1) by (auto simp: enc_char_def Let_def replaceAll_pct)
  qed
qed simp

lemma replaceAll_same: "p \<noteq> [] \<Longrightarrow> replaceAll False p p s = s"
proof (induction "length s" arbitrary: s rule: less_induct)
  case less
  show ?case
  proof (cases s)
    case (Cons c t)
    have "replaceAll False p p (drop (length p - 1) t) = drop (length p - 1) t" "replaceAll False p p t = t"
      using less Cons by simp_all
    moreover have "drop (length p - 1) t = drop (length p) (c # t)" using less.prems by (cases p) simp_all
    moreover have "p @ drop (length p) (c # t) = c # t" if "take (length p) (c # t) = p"
      using append_take_drop_id [of "length p" "c # t"] unfolding that .
    ultimately show ?thesis using Cons by simp
  qed simp
qed

definition keep_query :: "char \<Rightarrow> bool" where
  "keep_query c = (uri_unreserved c \<or> c \<in> set ''@:$,;'')"

definition keep_segment :: "char \<Rightarrow> bool" where
  "keep_segment c = (keep_query c \<or> c \<in> set ''&=+'')"

lemma keep_special:
  "\<not> uri_unreserved (CHR ''%'')" "\<not> keep_query (CHR ''%'')" "\<not> keep_segment (CHR ''%'')"
  "\<not> keep_query (CHR ''&'')" "\<not> keep_query (CHR ''='')" "\<not> keep_query (CHR ''+'')" "\<not> keep_query (CHR ''#'')"
  "\<not> keep_segment (CHR ''?'')" "\<not> keep_segment (CHR ''#'')" "\<not> keep_segment (CHR ''/'')"
  by (simp_all add: keep_query_def keep_segment_def uri_unreserved_def Let_def)

lemma pct_literals:
  "''%20'' = pct 32" "''%3B'' = pct 59" "''%2C'' = pct 44" "''%24'' = pct 36" "''%3A'' = pct 58" "''%40'' = pct 64"
  "''%2B'' = pct 43" "''%3D'' = pct 61" "''%26'' = pct 38"
  by code_simp+

lemma char_literals:
  "'';'' = [char_of (59 :: nat)]" "'','' = [char_of (44 :: nat)]" "''$'' = [char_of (36 :: nat)]"
  "'':'' = [char_of (58 :: nat)]" "''@'' = [char_of (64 :: nat)]" "''+'' = [char_of (43 :: nat)]"
  "''='' = [char_of (61 :: nat)]" "''&'' = [char_of (38 :: nat)]"
  by code_simp+

lemma percent_char: "n < 128 \<Longrightarrow> n \<noteq> 37 \<Longrightarrow> CHR ''%'' \<noteq> char_of (n :: nat)"
proof
  assume "n < 128" "n \<noteq> 37" "CHR ''%'' = char_of n"
  then have "of_char (CHR ''%'') = (of_char (char_of n) :: nat)" by simp
  with \<open>n < 128\<close> \<open>n \<noteq> 37\<close> show False by simp
qed

lemma encodeUriQuery_enc: "encodeUriQuery s True = enc keep_query s"
proof -
  have "encodeUriQuery s True = enc (\<lambda>c. ((((uri_unreserved c \<or> c = char_of (64 :: nat)) \<or> c = char_of (58 :: nat))
      \<or> c = char_of (36 :: nat)) \<or> c = char_of (44 :: nat)) \<or> c = char_of (59 :: nat)) s"
    unfolding encodeUriQuery_def encodeURIComponent_enc pct_literals char_literals if_True
    by (simp add: replaceAll_enc replaceAll_same keep_special percent_char pct_def [of 32]
        del: One_nat_def concat_map_singleton)
  moreover have "set ''@:$,;'' = {char_of (64 :: nat), char_of (58 :: nat), char_of (36 :: nat), char_of (44 :: nat), char_of (59 :: nat)}"
    by code_simp
  ultimately show ?thesis by (simp add: keep_query_def [abs_def] disj_assoc)
qed

lemma encodeUriSegment_enc: "encodeUriSegment s = enc keep_segment s"
proof -
  have "encodeUriSegment s = enc (\<lambda>c. ((keep_query c \<or> c = char_of (38 :: nat)) \<or> c = char_of (61 :: nat))
      \<or> c = char_of (43 :: nat)) s"
    unfolding encodeUriSegment_def encodeUriQuery_enc pct_literals char_literals
    by (simp add: replaceAll_enc keep_special percent_char)
  moreover have "set ''&=+'' = {char_of (38 :: nat), char_of (61 :: nat), char_of (43 :: nat)}"
    by code_simp
  ultimately show ?thesis by (simp add: keep_segment_def [abs_def] disj_assoc)
qed

lemma pct_chars: "n < 256 \<Longrightarrow> set (pct n) \<subseteq> {CHR ''%''} \<union> Collect uri_unreserved"
  by (auto simp: pct_def uri_unreserved_def hex_upper_def Let_def)

lemma enc_chars: "\<not> keep c \<Longrightarrow> \<not> uri_unreserved c \<Longrightarrow> c \<noteq> CHR ''%'' \<Longrightarrow> c \<notin> set (enc keep s)"
proof -
  assume c: "\<not> keep c" "\<not> uri_unreserved c" "c \<noteq> CHR ''%''"
  have "c \<notin> set (enc_char keep x)" for x
  proof -
    have "of_char x < (256 :: nat)" by simp
    then have "192 + of_char x div 64 < (256 :: nat)" "128 + of_char x mod 64 < (256 :: nat)" by linarith+
    then show ?thesis using c pct_chars by (auto simp: enc_char_def Let_def dest!: subsetD [OF pct_chars, rotated])
  qed
  then show ?thesis by auto
qed

lemma query_chars: "c \<in> set ''&=+#?/'' \<Longrightarrow> c \<notin> set (encodeUriQuery s True)"
  unfolding encodeUriQuery_enc by (rule enc_chars) (auto simp: keep_query_def uri_unreserved_def Let_def)

lemma segment_chars: "c \<in> set ''#?/'' \<Longrightarrow> c \<notin> set (encodeUriSegment s)"
  unfolding encodeUriSegment_enc
  by (rule enc_chars) (auto simp: keep_segment_def keep_query_def uri_unreserved_def Let_def)

section \<open>Query strings round trip\<close>

definition scalar_value :: "js \<Rightarrow> bool" where
  "scalar_value v = (case v of JStr _ \<Rightarrow> True | JBool b \<Rightarrow> b | _ \<Rightarrow> False)"

definition search_ok :: "js obj \<Rightarrow> bool" where
  "search_ok m = (distinct (okeys m) \<and> list_all (\<lambda>(k, v). (k, v) \<noteq> ('''', JBool True) \<and>
     (scalar_value v \<or> (case v of JArr xs \<Rightarrow> length xs \<ge> 2 \<and> list_all (\<lambda>x. scalar_value x \<and> (k, x) \<noteq> ('''', JBool True)) xs
                        | _ \<Rightarrow> False))) m)"

lemma replaceAll_absent: "h \<notin> set s \<Longrightarrow> replaceAll False [h] r s = s"
  by (induction s) auto

lemma decode_query: "decodeURIComponent (encodeUriQuery s True) = Some s"
  by (simp add: encodeUriQuery_enc decode_encoded keep_special)

lemma enc_char_ne [simp]: "enc_char keep c \<noteq> []"
  by (simp add: enc_char_def pct_def Let_def)

lemma query_empty: "encodeUriQuery s True = [] \<longleftrightarrow> s = []"
  by (simp add: encodeUriQuery_enc)

lemma parse_key_value_part:
  assumes "scalar_value v" "(k, v) \<noteq> ('''', JBool True)"
  shows "parse_part (key_value_part k v) m = add_value k v m"
proof -
  have plus: "CHR ''+'' \<notin> set (key_value_part k v)"
    using query_chars [of "CHR ''+''"] by (simp add: key_value_part_def)
  have ne: "key_value_part k v \<noteq> []"
    using assms by (auto simp: key_value_part_def query_empty)
  show ?thesis
  proof (cases "v = JBool True")
    case True
    have "js_indexOf (encodeUriQuery k True) ''='' = None"
      using query_chars [of "CHR ''=''" k] by (simp add: js_indexOf_char_none)
    with True ne plus show ?thesis
      by (simp add: parse_part_def replaceAll_absent tryDecodeURIComponent_def decode_query key_value_part_def Let_def)
  next
    case False
    with assms obtain s where v: "v = JStr s" by (cases v) (auto simp: scalar_value_def)
    have "js_indexOf (encodeUriQuery k True @ ''='' @ encodeUriQuery s True) ''='' = Some (length (encodeUriQuery k True))"
      using query_chars [of "CHR ''=''" k] js_indexOf_skip [of "CHR ''=''" _ "[]"] by simp
    with v ne plus show ?thesis
      by (simp add: parse_part_def replaceAll_absent tryDecodeURIComponent_def decode_query key_value_part_def Let_def)
  qed
qed

lemma fold_array:
  assumes new: "k \<notin> set (okeys m)" and "list_all (\<lambda>x. scalar_value x \<and> (k, x) \<noteq> ('''', JBool True)) xs"
  shows "fold parse_part (map (key_value_part k) xs) (m @ [(k, JArr ys)]) = m @ [(k, JArr (ys @ xs))]"
  using assms(2)
proof (induction xs arbitrary: ys)
  case (Cons x xs)
  have "oget (m @ [(k, JArr ys)]) k = Some (JArr ys)"
    using new by (simp add: map_add_def map_of_eq_None_iff [symmetric])
  moreover have "oset (m @ [(k, JArr ys)]) k v = m @ [(k, v)]" for v
    using new by (induction m) auto
  ultimately show ?case using Cons by (simp add: parse_key_value_part add_value_def)
qed simp

lemma fold_entry:
  assumes "search_ok [(k, v)]" and new: "k \<notin> set (okeys m)"
  shows "fold parse_part (key_value_parts (k, v)) m = m @ [(k, v)]"
proof -
  have none: "oget m k = None" using new by (simp add: map_of_eq_None_iff)
  have one: "add_value k w m = m @ [(k, w)]" for w
    using none new by (simp add: add_value_def oset_new)
  show ?thesis
  proof (cases "scalar_value v")
    case True
    then have "key_value_parts (k, v) = [key_value_part k v]"
      by (cases v) (auto simp: key_value_parts_def scalar_value_def)
    with True assms one show ?thesis by (simp add: search_ok_def parse_key_value_part)
  next
    case False
    with assms obtain xs where xs: "v = JArr xs" "length xs \<ge> 2"
      and ok: "list_all (\<lambda>x. scalar_value x \<and> (k, x) \<noteq> ('''', JBool True)) xs"
      by (auto simp: search_ok_def split: js.splits)
    then obtain x y zs where "xs = x # y # zs" by (cases xs; cases "tl xs") auto
    with xs ok have v: "v = JArr (x # y # zs)" and x: "scalar_value x" "(k, x) \<noteq> ('''', JBool True)"
      and y: "scalar_value y" "(k, y) \<noteq> ('''', JBool True)"
      and zs: "list_all (\<lambda>x. scalar_value x \<and> (k, x) \<noteq> ('''', JBool True)) zs" by auto
    have "oget (m @ [(k, x)]) k = Some x" using none by (simp add: map_add_def)
    moreover have "oset (m @ [(k, x)]) k w = m @ [(k, w)]" for w
      using new by (induction m) auto
    ultimately have two: "add_value k y (m @ [(k, x)]) = m @ [(k, JArr [x, y])]"
      using x by (auto simp: add_value_def scalar_value_def split: js.splits)
    show ?thesis
      using x y one two fold_array [OF new zs, of "[x, y]"] by (simp add: v key_value_parts_def parse_key_value_part)
  qed
qed

lemma js_split_join:
  "ps \<noteq> [] \<Longrightarrow> (\<And>p. p \<in> set ps \<Longrightarrow> c \<notin> set p) \<Longrightarrow> js_split c (js_join [c] ps) = ps"
proof (induction ps rule: induct_list012)
  case (3 p q ps)
  then show ?case by (simp add: js_split_append)
qed (simp_all add: js_split_nosep)

lemma parts_no_amp: "p \<in> set (key_value_parts kv) \<Longrightarrow> CHR ''&'' \<notin> set p"
  using query_chars [of "CHR ''&''"]
  by (auto simp: key_value_parts_def key_value_part_def split: js.splits if_splits)

lemma fold_entries:
  "search_ok (m @ n) \<Longrightarrow> fold parse_part (concat (map key_value_parts n)) m = m @ n"
proof (induction n arbitrary: m)
  case (Cons kv n)
  obtain k v where kv: "kv = (k, v)" by (cases kv)
  have "fold parse_part (key_value_parts (k, v)) m = m @ [(k, v)]"
    using Cons.prems by (intro fold_entry) (auto simp: kv search_ok_def)
  with Cons.IH [of "m @ [(k, v)]"] Cons.prems show ?case by (simp add: kv)
qed simp

lemma parse_toKeyValue:
  assumes "search_ok m" shows "parseKeyValue (toKeyValue m) = m"
proof (cases "concat (map key_value_parts m) = []")
  case True
  then have "fold parse_part (concat (map key_value_parts m)) [] = []" by (simp only: fold.simps id_apply)
  with fold_entries [of "[]" m] assms have "m = []" by simp
  then show ?thesis by (simp add: parseKeyValue_def toKeyValue_def parse_part_def)
next
  case False
  have "js_split (CHR ''&'') (toKeyValue m) = concat (map key_value_parts m)"
    unfolding toKeyValue_def by (rule js_split_join [OF False]) (auto dest: parts_no_amp)
  with fold_entries [of "[]" m] assms show ?thesis by (simp add: parseKeyValue_def)
qed

section \<open>Locations round trip\<close>

lemma js_join_prefix: "js_join sep ((a @ p) # ps) = a @ js_join sep (p # ps)"
  by (cases ps) simp_all

lemma join_enc_split:
  "js_join [c] (map (enc keep) (js_split c s)) = enc (\<lambda>x. keep x \<or> x = c) s"
proof (induction s)
  case (Cons x s)
  obtain p ps where ps: "js_split c s = p # ps" by (cases "js_split c s") simp_all
  show ?case
  proof (cases "x = c")
    case True
    with Cons ps show ?thesis by (simp add: enc_char_def)
  next
    case False
    then have "enc_char keep x = enc_char (\<lambda>x. keep x \<or> x = c) x" by (simp add: enc_char_def)
    with False Cons ps show ?thesis by (simp add: js_join_prefix)
  qed
qed simp

lemma encodePath_enc: "encodePath p = enc (\<lambda>x. keep_segment x \<or> x = CHR ''/'') p"
  using join_enc_split [of "CHR ''/''" keep_segment p]
  by (simp add: encodePath_def encodeUriSegment_enc [abs_def])

lemma decode_path: "decodeURIComponent (encodePath p) = Some p"
  by (simp add: encodePath_enc decode_encoded keep_special)

lemma path_chars: "c \<in> set ''#?'' \<Longrightarrow> c \<notin> set (encodePath p)"
  unfolding encodePath_enc
  by (rule enc_chars) (auto simp: keep_segment_def keep_query_def uri_unreserved_def Let_def)

lemma js_join_chars: "x \<in> set (js_join sep ps) \<Longrightarrow> x \<in> set sep \<or> (\<exists>p\<in>set ps. x \<in> set p)"
  by (induction ps rule: induct_list012) auto

lemma toKeyValue_no_hash: "CHR ''#'' \<notin> set (toKeyValue m)"
proof
  assume "CHR ''#'' \<in> set (toKeyValue m)"
  then obtain kv p where "p \<in> set (key_value_parts kv)" "CHR ''#'' \<in> set p"
    using js_join_chars [of "CHR ''#''" "''&''"] by (fastforce simp: toKeyValue_def)
  then show False using query_chars [of "CHR ''#''"]
    by (auto simp: key_value_parts_def key_value_part_def split: js.splits if_splits)
qed

lemma takeWhile_stop: "\<forall>x\<in>set p. P x \<Longrightarrow> r = [] \<or> \<not> P (hd r) \<Longrightarrow> takeWhile P (p @ r) = p"
  by (cases r) (auto simp: takeWhile_append2)

lemma path_match_url:
  assumes "CHR ''#'' \<notin> set p" "CHR ''?'' \<notin> set p" "CHR ''#'' \<notin> set q"
    and "\<not> list_ex (\<lambda>c. c = CHR 0x0A \<or> c = CHR 0x0D) h"
  shows "path_match (p @ (if q = [] then [] else ''?'' @ q) @ (if h = [] then [] else ''#'' @ h))
    = Some (p, if q = [] then None else Some q, if h = [] then None else Some h)"
proof -
  let ?r = "(if q = [] then [] else ''?'' @ q) @ (if h = [] then [] else ''#'' @ h)"
  have p: "takeWhile (\<lambda>c. c \<noteq> CHR ''?'' \<and> c \<noteq> CHR ''#'') (p @ ?r) = p"
    using assms by (intro takeWhile_stop) auto
  have t: "takeWhile (\<lambda>c. c \<noteq> CHR ''#'') (q @ (if h = [] then [] else ''#'' @ h)) = q"
    using assms by (intro takeWhile_stop) auto
  have d: "drop (length p) (p @ ?r) = ?r" by simp
  show ?thesis
    using t assms(4) unfolding path_match_def p Let_def d
    by (cases "q = []"; cases "h = []") (simp_all del: takeWhile_eq_all_conv)
qed

lemma compose_again [simp]: "compose (compose l) = compose l"
  by (simp add: compose_def Let_def)

lemma compose_fields [simp]:
  "compose ((compose l)\<lparr>l_path := p\<rparr>) = compose (l\<lparr>l_path := p\<rparr>)"
  "compose ((compose l)\<lparr>l_search := m\<rparr>) = compose (l\<lparr>l_search := m\<rparr>)"
  "compose ((compose l)\<lparr>l_hash := h\<rparr>) = compose (l\<lparr>l_hash := h\<rparr>)"
  "compose ((compose l)\<lparr>l_search := m, l_hash := h\<rparr>) = compose (l\<lparr>l_search := m, l_hash := h\<rparr>)"
  by (simp_all add: compose_def Let_def)

lemma compose_url: "l_url (compose l) = encodePath (l_path l) @
    (if toKeyValue (l_search l) = [] then [] else ''?'' @ toKeyValue (l_search l)) @
    (if l_hash l = [] then [] else ''#'' @ encodeUriSegment (l_hash l))"
  by (simp add: compose_def Let_def)

lemma parseKeyValue_empty: "parseKeyValue [] = []"
  by (simp add: parseKeyValue_def parse_part_def)

lemma segment_empty: "encodeUriSegment h = [] \<longleftrightarrow> h = []"
  by (simp add: encodeUriSegment_enc)

text \<open>
  C32. A URL written by one location and given to another reproduces its path and its query: for every
  path that starts with a slash and every query object of strings, keys without a value and arrays of at
  least two of these, \<^verbatim>\<open>url\<close> does not throw and restores both. Each character below 256 is allowed in them.
  The fragment is not restored but arrives as it was encoded, since \<^verbatim>\<open>url\<close> does not decode it.
\<close>

theorem url_round_trip:
  assumes "l_path l = CHR ''/'' # p" "search_ok (l_search l)"
  shows "set_url (l_url (compose l)) l' =
    Inr (compose (l'\<lparr>l_path := l_path l, l_search := l_search l, l_hash := encodeUriSegment (l_hash l)\<rparr>))"
proof -
  let ?q = "toKeyValue (l_search l)" and ?h = "encodeUriSegment (l_hash l)"
  have nl: "\<not> list_ex (\<lambda>c. c = CHR 0x0A \<or> c = CHR 0x0D) ?h"
    using enc_chars [of keep_segment "CHR 0x0A"] enc_chars [of keep_segment "CHR 0x0D"]
    by (auto simp: list_ex_iff encodeUriSegment_enc keep_segment_def keep_query_def uri_unreserved_def Let_def
        simp del: set_concat)
  have m: "path_match (l_url (compose l)) = Some (encodePath (l_path l), if ?q = [] then None else Some ?q,
      if ?h = [] then None else Some ?h)"
    using path_match_url [OF _ _ toKeyValue_no_hash nl] path_chars by (simp add: compose_url segment_empty)
  have "encodePath (l_path l) \<noteq> []" using assms(1) by (simp add: encodePath_enc)
  then show ?thesis
    using m assms(1) parse_toKeyValue [OF assms(2)] parseKeyValue_empty
    by (auto simp: set_url_def decode_path loc_path_def set_search_string_def set_hash_def)
qed

definition ex_location :: location where
  "ex_location = \<lparr>l_appBase = ''http://h/'', l_hashPrefix = ''#'', l_path = ''/a b'', l_search = [(''q'', JStr ''x&y'')],
     l_hash = ''c d'', l_url = [], l_absUrl = [], l_replace = False\<rparr>"

theorem url_round_trip_witness:
  "set_url ''/a%20b?q=x%26y#c%20d'' ex_location = Inr (compose (ex_location\<lparr>l_hash := ''c%20d''\<rparr>))"
proof -
  have "l_url (compose ex_location) = ''/a%20b?q=x%26y#c%20d''" "search_ok (l_search ex_location)"
    "encodeUriSegment (l_hash ex_location) = ''c%20d''" by code_simp+
  with url_round_trip [of ex_location "''a b''" ex_location] show ?thesis by (simp add: ex_location_def)
qed

end
