(* ===== verification/Angular_Route.thy ===== *)
theory Angular_Route
  imports Angular_Location Main_App
begin

text \<open>
  \<^verbatim>\<open>angular-route.js\<close>: path patterns and how they match, the table of routes, and the machine that turns
  changes of the location into the current route and \<^verbatim>\<open>$routeParams\<close> while templates load in the background.

  A pattern is kept as the list of its items instead of the text of the regular expression. The code
  escapes \<^verbatim>\<open>( ) . / $ *\<close>; the other operators of regular expressions (\<^verbatim>\<open>+ ? [ ] { } | ^ \\<close>) would reach
  \<^verbatim>\<open>RegExp\<close> as such, and a pattern with one of them is outside of the model (\<open>None\<close>). Of a route the model
  has the redirection, the template URL and the controller, not the functions of \<^verbatim>\<open>resolve\<close>.
\<close>

section \<open>Patterns\<close>

datatype key_option = Required | Optional | Star

datatype pattern_item = Lit char | Key bool string key_option

definition word_char :: "char \<Rightarrow> bool" where
  "word_char c = (let n = of_char c :: nat in
     48 \<le> n \<and> n \<le> 57 \<or> 65 \<le> n \<and> n \<le> 90 \<or> 97 \<le> n \<and> n \<le> 122 \<or> c = CHR ''_'')"

definition regexp_operator :: "char \<Rightarrow> bool" where
  "regexp_operator c = (c \<in> set ''+?[]{}|^'' \<or> c = CHR 0x5C)"

text \<open>\<^verbatim>\<open>(\/)?:\<close> at the start of a text: whether the slash is there, and what follows the colon.\<close>

definition key_start :: "string \<Rightarrow> (bool \<times> string) option" where
  "key_start s = (case s of [] \<Rightarrow> None | c # r \<Rightarrow>
     if c = CHR '':'' then Some (False, r)
     else if c = CHR ''/'' then (case r of d # t \<Rightarrow> if d = CHR '':'' then Some (True, t) else None | [] \<Rightarrow> None)
     else None)"

definition key_option :: "string \<Rightarrow> key_option \<times> string" where
  "key_option s = (case s of [] \<Rightarrow> (Required, []) | c # r \<Rightarrow>
     if c = CHR ''?'' then (Optional, r) else if c = CHR ''*'' then (Star, r) else (Required, s))"

text \<open>\<^verbatim>\<open>(\/)?:(\w+)([\?\*])?\<close>.\<close>

definition key_at :: "string \<Rightarrow> (pattern_item \<times> string) option" where
  "key_at s = (case key_start s of None \<Rightarrow> None | Some (slash, t) \<Rightarrow>
     (let name = takeWhile word_char t; (opt, r) = key_option (dropWhile word_char t)
      in if name = [] then None else Some (Key slash name opt, r)))"

lemma key_at_length: "key_at s = Some (i, r) \<Longrightarrow> length r < length s"
proof -
  assume a: "key_at s = Some (i, r)"
  then obtain slash t where t: "key_start s = Some (slash, t)" "r = snd (key_option (dropWhile word_char t))"
    by (auto simp: key_at_def Let_def split: option.splits if_splits prod.splits)
  have "length t < length s"
    using t(1) by (auto simp: key_start_def split: list.splits if_splits)
  moreover have "length (snd (key_option u)) \<le> length u" for u
    by (auto simp: key_option_def split: list.split)
  moreover have "length (dropWhile word_char t) \<le> length t" by (rule length_dropWhile_le)
  ultimately show ?thesis using t(2) by (metis le_trans order_le_less_trans)
qed

function pathRegExp :: "string \<Rightarrow> pattern_item list option" where
  "pathRegExp path = (case path of [] \<Rightarrow> Some [] | c # r \<Rightarrow>
     (case key_at path of
        Some (i, rest) \<Rightarrow> map_option ((#) i) (pathRegExp rest)
      | None \<Rightarrow> if regexp_operator c then None else map_option ((#) (Lit c)) (pathRegExp r)))"
  by pat_completeness auto
termination
  by (relation "measure length") (auto dest: key_at_length)

declare pathRegExp.simps [simp del]

fun pattern_keys :: "pattern_item list \<Rightarrow> string list" where
  "pattern_keys [] = []"
| "pattern_keys (Lit c # is) = pattern_keys is"
| "pattern_keys (Key slash name opt # is) = name # pattern_keys is"

text \<open>
  \<^verbatim>\<open>regexp.exec\<close>: the groups of the first match in the order in which an engine tries them. \<^verbatim>\<open>[^/]+\<close> takes
  as much as it can, \<^verbatim>\<open>.+?\<close> as little (and no line terminator), an optional group is tried before it is
  left out. A group that took no part is \<open>None\<close>.
\<close>

fun first_some :: "('a \<Rightarrow> 'b option) \<Rightarrow> 'a list \<Rightarrow> 'b option" where
  "first_some f [] = None"
| "first_some f (x # xs) = (case f x of None \<Rightarrow> first_some f xs | Some y \<Rightarrow> Some y)"

definition strip_slash :: "bool \<Rightarrow> string \<Rightarrow> string option" where
  "strip_slash slash s = (if \<not> slash then Some s
     else case s of [] \<Rightarrow> None | c # r \<Rightarrow> if c = CHR ''/'' then Some r else None)"

definition segment_lengths :: "string \<Rightarrow> nat list" where
  "segment_lengths s = rev [1..<Suc (length (takeWhile (\<lambda>c. c \<noteq> CHR ''/'') s))]"

definition star_lengths :: "string \<Rightarrow> nat list" where
  "star_lengths s = [1..<Suc (length (takeWhile (\<lambda>c. c \<noteq> CHR 0x0A \<and> c \<noteq> CHR 0x0D) s))]"

definition char_matches :: "bool \<Rightarrow> char \<Rightarrow> char \<Rightarrow> bool" where
  "char_matches insensitive c d = (c = d \<or> insensitive \<and> to_lower c = to_lower d)"

fun exec :: "bool \<Rightarrow> pattern_item list \<Rightarrow> string \<Rightarrow> string option list option" where
  "exec ci [] s = (if s = [] then Some [] else None)"
| "exec ci (Lit c # is) s = (case s of [] \<Rightarrow> None
     | d # r \<Rightarrow> if char_matches ci c d then exec ci is r else None)"
| "exec ci (Key slash name Required # is) s = (case strip_slash slash s of None \<Rightarrow> None
     | Some t \<Rightarrow> first_some (\<lambda>n. map_option ((#) (Some (take n t))) (exec ci is (drop n t))) (segment_lengths t))"
| "exec ci (Key slash name Star # is) s = (case strip_slash slash s of None \<Rightarrow> None
     | Some t \<Rightarrow> first_some (\<lambda>n. map_option ((#) (Some (take n t))) (exec ci is (drop n t))) (star_lengths t))"
| "exec ci (Key slash name Optional # is) s =
     (case (case strip_slash slash s of None \<Rightarrow> None
            | Some t \<Rightarrow> first_some (\<lambda>n. map_option ((#) (if n = 0 then None else Some (take n t))) (exec ci is (drop n t)))
                         (segment_lengths t @ [0]))
      of Some m \<Rightarrow> Some m | None \<Rightarrow> map_option ((#) None) (exec ci is s))"

section \<open>The table of routes\<close>

datatype redirect = RedirectTo string | RedirectBy "string obj \<Rightarrow> string \<Rightarrow> js obj \<Rightarrow> string"

record route =
  rt_templateUrl :: "string option"
  rt_controller :: "string option"
  rt_redirectTo :: "redirect option"
  rt_reloadOnSearch :: "bool option"
  rt_caseInsensitive :: "bool option"
  rt_originalPath :: "string option"
  rt_regexp :: "pattern_item list option"

record routeProvider =
  rp_caseInsensitive :: bool
  rp_routes :: "route obj"

definition no_route :: route where
  "no_route = \<lparr>rt_templateUrl = None, rt_controller = None, rt_redirectTo = None, rt_reloadOnSearch = None,
     rt_caseInsensitive = None, rt_originalPath = None, rt_regexp = None\<rparr>"

text \<open>The trailing slash is added or taken away.\<close>

definition redirectPath :: "string \<Rightarrow> string" where
  "redirectPath path = (if last path = CHR ''/'' then butlast path else path @ ''/'')"

definition route_defaults :: "routeProvider \<Rightarrow> route \<Rightarrow> route" where
  "route_defaults rp route = route\<lparr>
     rt_reloadOnSearch := (case rt_reloadOnSearch route of None \<Rightarrow> Some True | x \<Rightarrow> x),
     rt_caseInsensitive := (case rt_caseInsensitive route of None \<Rightarrow> Some (rp_caseInsensitive rp) | x \<Rightarrow> x)\<rparr>"

text \<open>
  \<^verbatim>\<open>when(path, route)\<close>; the path \<^verbatim>\<open>null\<close> of \<^verbatim>\<open>otherwise\<close> is \<open>None\<close>, its key the text \<^verbatim>\<open>null\<close>. The redirection is
  a route without options of its own except that it shares the case sensitivity of the pattern.
\<close>

definition route_when :: "string option \<Rightarrow> route \<Rightarrow> routeProvider \<Rightarrow> routeProvider option" where
  "route_when path route rp =
     (let routeCopy = route_defaults rp route in
      case path of
        None \<Rightarrow> Some (rp\<lparr>rp_routes := oset (rp_routes rp) ''null'' routeCopy\<rparr>)
      | Some p \<Rightarrow>
          if p = [] then Some (rp\<lparr>rp_routes := oset (rp_routes rp) [] routeCopy\<rparr>)
          else (case (pathRegExp p, pathRegExp (redirectPath p)) of
            (Some is, Some js) \<Rightarrow>
              let r1 = oset (rp_routes rp) p (routeCopy\<lparr>rt_originalPath := Some p, rt_regexp := Some is\<rparr>);
                  r2 = oset r1 (redirectPath p) (no_route\<lparr>rt_redirectTo := Some (RedirectTo p),
                         rt_originalPath := Some (redirectPath p), rt_regexp := Some js,
                         rt_caseInsensitive := rt_caseInsensitive routeCopy\<rparr>)
              in Some (rp\<lparr>rp_routes := r2\<rparr>)
          | _ \<Rightarrow> None))"

definition otherwise :: "route \<Rightarrow> routeProvider \<Rightarrow> routeProvider option" where
  "otherwise params rp = route_when None params rp"

definition otherwise_to :: "string \<Rightarrow> routeProvider \<Rightarrow> routeProvider option" where
  "otherwise_to path rp = otherwise (no_route\<lparr>rt_redirectTo := Some (RedirectTo path)\<rparr>) rp"

section \<open>Finding the route of a location\<close>

definition switchRouteMatcher :: "string \<Rightarrow> route \<Rightarrow> string obj option" where
  "switchRouteMatcher on r = (case rt_regexp r of None \<Rightarrow> None | Some is \<Rightarrow>
     (case exec (rt_caseInsensitive r = Some True) is on of None \<Rightarrow> None
      | Some m \<Rightarrow> Some (fold (\<lambda>(key, val) params. case val of None \<Rightarrow> params
            | Some v \<Rightarrow> if v = [] then params else oset params key v) (zip (pattern_keys is) m) [])))"

text \<open>An object of \<^verbatim>\<open>parseRoute\<close>: the route it inherits from (with its key as \<^verbatim>\<open>$$route\<close>) and the parameters.\<close>

record matched =
  m_id :: nat
  m_route :: route
  m_key :: "string option"
  m_params :: "js obj"
  m_pathParams :: "string obj"

definition js_params :: "string obj \<Rightarrow> js obj" where
  "js_params m = map (\<lambda>(k, v). (k, JStr v)) m"

definition obj_extend :: "'v obj \<Rightarrow> 'v obj \<Rightarrow> 'v obj" where
  "obj_extend m n = fold (\<lambda>(k, v) acc. oset acc k v) n m"

fun parse_entries :: "string \<Rightarrow> route obj \<Rightarrow> (string \<times> route \<times> string obj) option" where
  "parse_entries path [] = None"
| "parse_entries path ((key, r) # rs) = (case switchRouteMatcher path r of
     Some params \<Rightarrow> Some (key, r, params) | None \<Rightarrow> parse_entries path rs)"

definition parseRoute :: "nat \<Rightarrow> route obj \<Rightarrow> location \<Rightarrow> matched option" where
  "parseRoute i routes l = (case parse_entries (l_path l) routes of
       Some (key, r, params) \<Rightarrow> Some \<lparr>m_id = i, m_route = r, m_key = Some key,
         m_params = obj_extend (l_search l) (js_params params), m_pathParams = params\<rparr>
     | None \<Rightarrow> (case oget routes ''null'' of None \<Rightarrow> None
         | Some r \<Rightarrow> Some \<lparr>m_id = i, m_route = r, m_key = None, m_params = [], m_pathParams = []\<rparr>))"

text \<open>
  \<^verbatim>\<open>interpolate\<close>: after every colon the first word is a name, its value is put there and the name leaves the
  parameters. The expression is not anchored: what comes before the word is lost. Without a word the
  match is \<^verbatim>\<open>null\<close>.
\<close>

definition join_text :: "js \<Rightarrow> string" where
  "join_text v = (if v = JUndef \<or> v = JNull then [] else js_String v)"

definition interpolate_segment :: "string \<Rightarrow> js obj \<Rightarrow> (string \<times> js obj) result" where
  "interpolate_segment segment params =
     (let t = dropWhile (\<lambda>c. \<not> word_char c) segment; key = takeWhile word_char t;
          rest = takeWhile (\<lambda>c. c \<noteq> CHR 0x0A \<and> c \<noteq> CHR 0x0D) (snd (key_option (dropWhile word_char t)))
      in if key = [] then Inl TypeErr
         else Inr ((case oget params key of None \<Rightarrow> [] | Some v \<Rightarrow> join_text v) @ rest, odel params key))"

fun interpolate_rest :: "string list \<Rightarrow> js obj \<Rightarrow> (string \<times> js obj) result" where
  "interpolate_rest [] params = Inr ([], params)"
| "interpolate_rest (seg # segs) params = rbind (interpolate_segment seg params) (\<lambda>(t, params1).
     rbind (interpolate_rest segs params1) (\<lambda>(u, params2). Inr (t @ u, params2)))"

definition interpolate :: "string \<Rightarrow> js obj \<Rightarrow> (string \<times> js obj) result" where
  "interpolate s params = (case js_split (CHR '':'') s of [] \<Rightarrow> Inr ([], params)
     | seg # segs \<Rightarrow> rbind (interpolate_rest segs params) (\<lambda>(u, params'). Inr (seg @ u, params')))"

section \<open>The machine\<close>

datatype route_event =
    RouteChangeStart "nat option" "nat option"
  | RouteUpdate nat
  | RouteChangeSuccess "nat option" "nat option"
  | RouteChangeError "nat option" "nat option"
  | TemplateRequest string
  | PreventDefault

record route_state =
  rs_routes :: "route obj"
  rs_location :: location
  rs_current :: "matched option"
  rs_prepared :: "matched option"
  rs_updateOnly :: bool
  rs_forceReload :: bool
  rs_routeParams :: "js obj"
  rs_queued :: "(matched option \<times> nat option) list"
  rs_pending :: "(nat option \<times> nat option) list"
  rs_next :: nat
  rs_events :: "route_event list"

definition same_params :: "string obj \<Rightarrow> string obj \<Rightarrow> bool" where
  "same_params m n = (set (okeys m) = set (okeys n) \<and> list_all (\<lambda>k. oget m k = oget n k) (okeys m))"

definition emit :: "route_event list \<Rightarrow> route_state \<Rightarrow> route_state" where
  "emit es s = s\<lparr>rs_events := rs_events s @ es\<rparr>"

text \<open>
  \<^verbatim>\<open>prepareRoute\<close>. Whether a listener of \<^verbatim>\<open>$routeChangeStart\<close> prevents the change is the argument \<open>prevented\<close>;
  \<open>event\<close> tells whether there is a location event whose default can be prevented. The result says if it was.
\<close>

definition prepareRoute :: "bool \<Rightarrow> bool \<Rightarrow> route_state \<Rightarrow> route_state \<times> bool" where
  "prepareRoute event prevented s =
     (let lastRoute = rs_current s;
          prepared = parseRoute (rs_next s) (rs_routes s) (rs_location s);
          updateOnly = (case (prepared, lastRoute) of
            (Some p, Some l) \<Rightarrow> m_key p = m_key l \<and> same_params (m_pathParams p) (m_pathParams l) \<and>
              rt_reloadOnSearch (m_route p) \<noteq> Some True \<and> \<not> rs_forceReload s
          | _ \<Rightarrow> False);
          s1 = s\<lparr>rs_prepared := prepared, rs_updateOnly := updateOnly, rs_next := rs_next s + 1\<rparr>
      in if \<not> updateOnly \<and> (lastRoute \<noteq> None \<or> prepared \<noteq> None)
         then (let s2 = emit [RouteChangeStart (map_option m_id prepared) (map_option m_id lastRoute)] s1
               in if prevented \<and> event then (emit [PreventDefault] s2, True) else (s2, False))
         else (s1, False))"

text \<open>The redirection of a route; \<^verbatim>\<open>interpolate\<close> takes the parameters it used out of \<^verbatim>\<open>nextRoute.params\<close>
  (when it throws, the model leaves them as they were).\<close>

definition redirect_route :: "matched \<Rightarrow> location \<Rightarrow> (location \<times> matched) result" where
  "redirect_route next l = (case rt_redirectTo (m_route next) of
       None \<Rightarrow> Inr (l, next)
     | Some (RedirectTo t) \<Rightarrow>
         if t = [] then Inr (l, next)
         else rbind (interpolate t (m_params next)) (\<lambda>(path, params).
           Inr (loc_replace (set_search params (loc_path path l)), next\<lparr>m_params := params\<rparr>))
     | Some (RedirectBy f) \<Rightarrow>
         rbind (set_url (f (m_pathParams next) (l_path l) (l_search l)) l) (\<lambda>l'. Inr (loc_replace l', next)))"

definition commitRoute :: "route_state \<Rightarrow> route_state \<times> js_error option" where
  "commitRoute s =
     (let lastRoute = rs_current s; nextRoute = rs_prepared s in
      if rs_updateOnly s
      then (case (lastRoute, nextRoute) of
        (Some l, Some n) \<Rightarrow> (emit [RouteUpdate (m_id l)]
           (s\<lparr>rs_current := Some (l\<lparr>m_params := m_params n\<rparr>), rs_routeParams := m_params n\<rparr>), None)
      | _ \<Rightarrow> (s, Some TypeErr))
      else if nextRoute \<noteq> None \<or> lastRoute \<noteq> None
      then (let s1 = s\<lparr>rs_forceReload := False, rs_current := nextRoute\<rparr>;
                load = (\<lambda>n s. s\<lparr>rs_queued := rs_queued s @ [(n, map_option m_id lastRoute)]\<rparr>)
            in case nextRoute of
                 None \<Rightarrow> (load None s1, None)
               | Some n \<Rightarrow> (case redirect_route n (rs_location s1) of
                   Inl e \<Rightarrow> (s1, Some e)
                 | Inr (l, n') \<Rightarrow> (load (Some n') (s1\<lparr>rs_location := l, rs_current := Some n', rs_prepared := Some n'\<rparr>), None)))
      else (s, None))"

text \<open>
  The first function of the promise chain runs on a later turn, in the order of the commits: it asks for
  the template when the route has a URL.
\<close>

definition start_load :: "route_state \<Rightarrow> route_state" where
  "start_load s = (case rs_queued s of [] \<Rightarrow> s
     | (next, prev) # q \<Rightarrow>
         emit (case next of None \<Rightarrow> [] | Some n \<Rightarrow>
             (case rt_templateUrl (m_route n) of None \<Rightarrow> [] | Some u \<Rightarrow> [TemplateRequest u]))
           (s\<lparr>rs_queued := q, rs_pending := rs_pending s @ [(map_option m_id next, prev)]\<rparr>))"

text \<open>The second one, when the \<open>i\<close>-th load that is under way has ended.\<close>

definition finish_load :: "nat \<Rightarrow> bool \<Rightarrow> route_state \<Rightarrow> route_state" where
  "finish_load i ok s =
     (if i < length (rs_pending s)
      then (let (next, prev) = rs_pending s ! i;
                s1 = s\<lparr>rs_pending := take i (rs_pending s) @ drop (Suc i) (rs_pending s)\<rparr>
            in if next = map_option m_id (rs_current s)
               then (if ok
                     then emit [RouteChangeSuccess next prev]
                       (case rs_current s of None \<Rightarrow> s1 | Some c \<Rightarrow> s1\<lparr>rs_routeParams := m_params c\<rparr>)
                     else emit [RouteChangeError next prev] s1)
               else s1)
      else s)"

text \<open>
  \<^verbatim>\<open>$locationChangeStart\<close> followed by \<^verbatim>\<open>$locationChangeSuccess\<close> unless the change was prevented, in which
  case the browser's location is restored; \<^verbatim>\<open>reload\<close>; \<^verbatim>\<open>updateParams\<close>.
\<close>

definition location_change :: "bool \<Rightarrow> location \<Rightarrow> route_state \<Rightarrow> route_state \<times> js_error option" where
  "location_change prevented l s =
     (let (s1, stopped) = prepareRoute True prevented (s\<lparr>rs_location := l\<rparr>)
      in if stopped then (s1\<lparr>rs_location := rs_location s\<rparr>, None) else commitRoute s1)"

definition reload :: "bool \<Rightarrow> route_state \<Rightarrow> route_state \<times> js_error option" where
  "reload prevented s = commitRoute (fst (prepareRoute False prevented (s\<lparr>rs_forceReload := True\<rparr>)))"

definition updateParams :: "js obj \<Rightarrow> route_state \<Rightarrow> location result" where
  "updateParams newParams s = (case rs_current s of
       None \<Rightarrow> Inl (Thrown ''ngRoute:norout'')
     | Some c \<Rightarrow> (case m_key c of
         None \<Rightarrow> Inl (Thrown ''ngRoute:norout'')
       | Some k \<Rightarrow> rbind (interpolate (case rt_originalPath (m_route c) of None \<Rightarrow> [] | Some p \<Rightarrow> p)
            (obj_extend (m_params c) newParams))
           (\<lambda>(path, params). Inr (set_search params (loc_path path (rs_location s))))))"

text \<open>
  \<^verbatim>\<open>$locationWatch\<close>, which every iteration of \<^verbatim>\<open>$digest\<close> runs: when the location is not the URL of the
  browser, both events are broadcast and the browser follows. A listener that throws is reported and does
  not stop the digest. After ten iterations the digest gives up.
\<close>

definition trimEmptyHash :: "string \<Rightarrow> string" where
  "trimEmptyHash url = (if url \<noteq> [] \<and> last url = CHR ''#'' \<and> CHR ''#'' \<notin> set (butlast url) then butlast url else url)"

definition locationWatch :: "string \<Rightarrow> route_state \<Rightarrow> (string \<times> route_state) option" where
  "locationWatch browserUrl s =
     (let l = rs_location s; newUrl = l_absUrl l in
      if trimEmptyHash browserUrl = trimEmptyHash newUrl then None
      else Some (newUrl, fst (location_change False (l\<lparr>l_replace := False\<rparr>) s)))"

fun digest :: "nat \<Rightarrow> string \<Rightarrow> route_state \<Rightarrow> (string \<times> route_state) result" where
  "digest 0 url s = Inl (Thrown ''$rootScope:infdig'')"
| "digest (Suc ttl) url s = (case locationWatch url s of None \<Rightarrow> Inr (url, s) | Some (url', s') \<Rightarrow> digest ttl url' s')"

section \<open>The routes of the application\<close>

definition app_provider :: "routeProvider option" where
  "app_provider = Option.bind
     (fold (\<lambda>(path, template, controller) rp. Option.bind rp
        (route_when (Some path) (no_route\<lparr>rt_templateUrl := Some template, rt_controller := Some controller\<rparr>)))
       app_routes (Some \<lparr>rp_caseInsensitive = False, rp_routes = []\<rparr>))
     (otherwise (no_route\<lparr>rt_redirectTo := Some (RedirectTo ''/'')\<rparr>))"

definition app_table :: "route obj" where
  "app_table = (case app_provider of None \<Rightarrow> [] | Some rp \<Rightarrow> rp_routes rp)"

definition controller_route :: "string \<Rightarrow> string \<Rightarrow> string \<Rightarrow> pattern_item list \<Rightarrow> route" where
  "controller_route path template controller is = no_route\<lparr>rt_templateUrl := Some template, rt_controller := Some controller,
     rt_reloadOnSearch := Some True, rt_caseInsensitive := Some False, rt_originalPath := Some path, rt_regexp := Some is\<rparr>"

definition slash_route :: "string \<Rightarrow> string \<Rightarrow> pattern_item list \<Rightarrow> route" where
  "slash_route path target is = no_route\<lparr>rt_redirectTo := Some (RedirectTo target), rt_originalPath := Some path,
     rt_regexp := Some is, rt_caseInsensitive := Some False\<rparr>"

definition other_route :: route where
  "other_route = no_route\<lparr>rt_redirectTo := Some (RedirectTo ''/''), rt_reloadOnSearch := Some True,
     rt_caseInsensitive := Some False\<rparr>"

lemma app_route_simps [simp]:
  "rt_redirectTo (controller_route a b c d) = None" "rt_controller (controller_route a b c d) = Some c"
  "rt_reloadOnSearch (controller_route a b c d) = Some True"
  "rt_redirectTo (slash_route a t d) = Some (RedirectTo t)" "rt_reloadOnSearch (slash_route a t d) = None"
  "rt_redirectTo other_route = Some (RedirectTo ''/'')" "rt_reloadOnSearch other_route = Some True"
  by (simp_all add: controller_route_def slash_route_def other_route_def no_route_def)

lemmas app_route_defs = controller_route_def slash_route_def other_route_def no_route_def

lemma app_patterns:
  "pathRegExp ''/'' = Some (map Lit ''/'')" "pathRegExp '''' = Some (map Lit '''')"
  "pathRegExp ''/producer/:name'' = Some (map Lit ''/producer'' @ [Key True ''name'' Required])"
  "pathRegExp ''/producer/:name/'' = Some (map Lit ''/producer'' @ [Key True ''name'' Required, Lit (CHR ''/'')])"
  "pathRegExp ''/ordinazioni'' = Some (map Lit ''/ordinazioni'')"
  "pathRegExp ''/ordinazioni/'' = Some (map Lit ''/ordinazioni/'')"
  by code_simp+

lemma app_table_eq: "app_table =
  [(''/'', controller_route ''/'' ''dashboard.html'' ''DashboardController'' (map Lit ''/'')),
   ('''', slash_route '''' ''/'' (map Lit '''')),
   (''/producer/:name'', controller_route ''/producer/:name'' ''producer.html'' ''ProducerController''
      (map Lit ''/producer'' @ [Key True ''name'' Required])),
   (''/producer/:name/'', slash_route ''/producer/:name/'' ''/producer/:name''
      (map Lit ''/producer'' @ [Key True ''name'' Required, Lit (CHR ''/'')])),
   (''/ordinazioni'', controller_route ''/ordinazioni'' ''ordinazioni.html'' ''OrdinazioniController'' (map Lit ''/ordinazioni'')),
   (''/ordinazioni/'', slash_route ''/ordinazioni/'' ''/ordinazioni'' (map Lit ''/ordinazioni/'')),
   (''null'', other_route)]"
  using app_patterns
  by (simp add: app_table_def app_provider_def app_routes_def route_when_def otherwise_def redirectPath_def
      route_defaults_def app_route_defs Let_def)

section \<open>How patterns match\<close>

fun after_prefix :: "string \<Rightarrow> string \<Rightarrow> string option" where
  "after_prefix [] s = Some s"
| "after_prefix (c # w) [] = None"
| "after_prefix (c # w) (d # s) = (if c = d then after_prefix w s else None)"

lemma after_prefix_snoc: "after_prefix (w @ [c]) s = (case after_prefix w s of None \<Rightarrow> None | Some t \<Rightarrow>
    (case t of [] \<Rightarrow> None | d # r \<Rightarrow> if c = d then Some r else None))"
  by (induction w s rule: after_prefix.induct) (auto split: list.split)

lemma after_prefix_iff: "after_prefix w s = Some t \<longleftrightarrow> s = w @ t"
  by (induction w s rule: after_prefix.induct) auto

lemma exec_lits:
  "exec False (map Lit w @ is) s = (case after_prefix w s of None \<Rightarrow> None | Some t \<Rightarrow> exec False is t)"
  by (induction w s rule: after_prefix.induct) (auto simp: char_matches_def)

lemma exec_lits_only: "exec False (map Lit w) s = (if s = w then Some [] else None)"
  by (induction w arbitrary: s) (auto simp: char_matches_def split: list.split)

text \<open>When what follows a parameter can only match at one place, that place decides.\<close>

lemma first_some_unique:
  "(\<And>n. n \<in> set ns \<Longrightarrow> n \<noteq> k \<Longrightarrow> f n = None) \<Longrightarrow> first_some f ns = (if k \<in> set ns then f k else None)"
proof (induction ns)
  case (Cons n ns)
  then show ?case by (cases "n = k") (auto split: option.split)
qed simp

lemma takeWhile_reach: "k \<le> length (takeWhile P t) \<longleftrightarrow> k \<le> length t \<and> (\<forall>x\<in>set (take k t). P x)"
proof (induction t arbitrary: k)
  case (Cons x t)
  then show ?case by (cases k) auto
qed simp

lemma segment_lengths_set: "set (segment_lengths t) = {1..length (takeWhile (\<lambda>c. c \<noteq> CHR ''/'') t)}"
  by (auto simp: segment_lengths_def)

lemma exec_key:
  assumes "\<And>n. n \<le> length t \<Longrightarrow> n \<noteq> k \<Longrightarrow> exec ci is (drop n t) = None"
  shows "exec ci (Key True name Required # is) (CHR ''/'' # t)
    = (if 1 \<le> k \<and> k \<le> length (takeWhile (\<lambda>c. c \<noteq> CHR ''/'') t)
       then map_option ((#) (Some (take k t))) (exec ci is (drop k t)) else None)"
proof -
  have "first_some (\<lambda>n. map_option ((#) (Some (take n t))) (exec ci is (drop n t))) (segment_lengths t)
      = (if k \<in> set (segment_lengths t) then map_option ((#) (Some (take k t))) (exec ci is (drop k t)) else None)"
    by (rule first_some_unique)
      (use assms le_trans [OF _ length_takeWhile_le] in \<open>force simp: segment_lengths_set\<close>)
  then show ?thesis by (simp add: strip_slash_def segment_lengths_set)
qed

definition plain_segment :: "string \<Rightarrow> bool" where
  "plain_segment m = (m \<noteq> [] \<and> CHR ''/'' \<notin> set m)"

lemma exec_key_end:
  "exec ci [Key True name Required] s
    = (case s of [] \<Rightarrow> None | c # m \<Rightarrow> if c = CHR ''/'' \<and> plain_segment m then Some [Some m] else None)"
proof (cases s)
  case (Cons c m)
  have "exec ci [Key True name Required] (CHR ''/'' # m) = (if plain_segment m then Some [Some m] else None)"
    by (subst exec_key [where k = "length m"])
      (auto simp: plain_segment_def Suc_le_eq takeWhile_reach)
  with Cons show ?thesis by (auto simp: strip_slash_def)
qed (simp add: strip_slash_def)

lemma exec_key_slash:
  "exec False [Key True name Required, Lit (CHR ''/'')] s
    = (case s of [] \<Rightarrow> None | c # t \<Rightarrow>
        if c = CHR ''/'' \<and> t \<noteq> [] \<and> last t = CHR ''/'' \<and> plain_segment (butlast t) then Some [Some (butlast t)] else None)"
proof (cases s)
  case (Cons c t)
  have one: "exec False [Lit (CHR ''/'')] r = (if r = ''/'' then Some [] else None)" for r
    using exec_lits_only [of "''/''" r] by simp
  have "exec False [Lit (CHR ''/'')] (drop n t) = None" if "n \<noteq> length t - 1" for n
  proof -
    have "length (drop n t) \<noteq> 1" using that by auto
    then show ?thesis unfolding one by (metis One_nat_def length_Cons list.size(3))
  qed
  then have n: "n \<le> length t \<Longrightarrow> n \<noteq> length t - 1 \<Longrightarrow> exec False [Lit (CHR ''/'')] (drop n t) = None" for n by blast
  have e: "exec False [Key True name Required, Lit (CHR ''/'')] (CHR ''/'' # t)
      = (if 1 \<le> length t - 1 \<and> (\<forall>x\<in>set (take (length t - 1) t). x \<noteq> CHR ''/'')
         then map_option ((#) (Some (take (length t - 1) t))) (exec False [Lit (CHR ''/'')] (drop (length t - 1) t)) else None)"
    by (simp only: exec_key [OF n] takeWhile_reach diff_le_self simp_thms)
  have "drop (length t - 1) t = [last t]" if "t \<noteq> []"
    using that by (metis append_butlast_last_id append_eq_conv_conj length_butlast)
  then have "exec False [Key True name Required, Lit (CHR ''/'')] (CHR ''/'' # t)
      = (if t \<noteq> [] \<and> last t = CHR ''/'' \<and> plain_segment (butlast t) then Some [Some (butlast t)] else None)"
    unfolding e one by (cases t rule: rev_cases) (simp, simp add: plain_segment_def Suc_le_eq, blast)
  with Cons show ?thesis by (auto simp: strip_slash_def)
qed (simp add: strip_slash_def)

section \<open>Where every path of the application leads\<close>

text \<open>The name in \<^verbatim>\<open>/producer/name\<close> and \<^verbatim>\<open>/producer/name/\<close>.\<close>

definition producer_name :: "string \<Rightarrow> string option" where
  "producer_name p = (case after_prefix ''/producer/'' p of None \<Rightarrow> None | Some n \<Rightarrow>
     (let m = (if n \<noteq> [] \<and> last n = CHR ''/'' then butlast n else n) in if plain_segment m then Some m else None))"

definition app_landing :: "string \<Rightarrow> string \<times> string" where
  "app_landing p = (case producer_name p of Some m \<Rightarrow> (''ProducerController'', ''/producer/'' @ m)
     | None \<Rightarrow> if p \<in> {''/ordinazioni'', ''/ordinazioni/''} then (''OrdinazioniController'', ''/ordinazioni'')
               else (''DashboardController'', ''/''))"

lemma exec_producer:
  "exec False (map Lit ''/producer'' @ [Key True ''name'' Required]) p =
     (case after_prefix ''/producer/'' p of Some n \<Rightarrow> if plain_segment n then Some [Some n] else None | None \<Rightarrow> None)"
  using after_prefix_snoc [of "''/producer''" "CHR ''/''" p] unfolding exec_lits exec_key_end
  by (auto split: option.split list.split simp del: after_prefix.simps)

lemma exec_producer_slash:
  "exec False (map Lit ''/producer'' @ [Key True ''name'' Required, Lit (CHR ''/'')]) p =
     (case after_prefix ''/producer/'' p of
        Some n \<Rightarrow> if n \<noteq> [] \<and> last n = CHR ''/'' \<and> plain_segment (butlast n) then Some [Some (butlast n)] else None
      | None \<Rightarrow> None)"
  using after_prefix_snoc [of "''/producer''" "CHR ''/''" p] unfolding exec_lits exec_key_slash
  by (auto split: option.split list.split simp del: after_prefix.simps)

lemma pattern_keys_lits: "pattern_keys (map Lit w @ is) = pattern_keys is"
  by (induction w) simp_all

abbreviation "dashboard_route \<equiv> controller_route ''/'' ''dashboard.html'' ''DashboardController'' (map Lit ''/'')"
abbreviation "root_route \<equiv> slash_route '''' ''/'' (map Lit '''')"
abbreviation "producer_route \<equiv> controller_route ''/producer/:name'' ''producer.html'' ''ProducerController''
  (map Lit ''/producer'' @ [Key True ''name'' Required])"
abbreviation "producer_slash \<equiv> slash_route ''/producer/:name/'' ''/producer/:name''
  (map Lit ''/producer'' @ [Key True ''name'' Required, Lit (CHR ''/'')])"
abbreviation "ordinazioni_route \<equiv> controller_route ''/ordinazioni'' ''ordinazioni.html'' ''OrdinazioniController''
  (map Lit ''/ordinazioni'')"
abbreviation "ordinazioni_slash \<equiv> slash_route ''/ordinazioni/'' ''/ordinazioni'' (map Lit ''/ordinazioni/'')"

lemma match_lits:
  "switchRouteMatcher p (controller_route a b c (map Lit w)) = (if p = w then Some [] else None)"
  "switchRouteMatcher p (slash_route a d (map Lit w)) = (if p = w then Some [] else None)"
  by (simp_all add: switchRouteMatcher_def exec_lits_only app_route_defs)

lemma match_producer:
  "switchRouteMatcher p producer_route = (case after_prefix ''/producer/'' p of None \<Rightarrow> None
       | Some n \<Rightarrow> if plain_segment n then Some [(''name'', n)] else None)"
  unfolding switchRouteMatcher_def controller_route_def no_route_def
  by (auto simp: exec_producer pattern_keys_lits plain_segment_def split: option.split
      simp del: after_prefix.simps list.map exec.simps)

lemma match_producer_slash:
  "switchRouteMatcher p producer_slash = (case after_prefix ''/producer/'' p of None \<Rightarrow> None
       | Some n \<Rightarrow> if n \<noteq> [] \<and> last n = CHR ''/'' \<and> plain_segment (butlast n) then Some [(''name'', butlast n)] else None)"
  unfolding switchRouteMatcher_def slash_route_def no_route_def
  by (auto simp: exec_producer_slash pattern_keys_lits plain_segment_def split: option.split
      simp del: after_prefix.simps list.map exec.simps)

lemma match_other: "switchRouteMatcher p other_route = None"
  by (simp add: switchRouteMatcher_def app_route_defs)

text \<open>The table read off as one case distinction on the path.\<close>

lemma parse_app:
  "parse_entries p app_table =
    (if p = ''/'' then Some (''/'', dashboard_route, [])
     else if p = [] then Some ([], root_route, [])
     else case after_prefix ''/producer/'' p of
       Some n \<Rightarrow> if plain_segment n then Some (''/producer/:name'', producer_route, [(''name'', n)])
         else if n \<noteq> [] \<and> last n = CHR ''/'' \<and> plain_segment (butlast n)
           then Some (''/producer/:name/'', producer_slash, [(''name'', butlast n)])
         else None
     | None \<Rightarrow> if p = ''/ordinazioni'' then Some (''/ordinazioni'', ordinazioni_route, [])
         else if p = ''/ordinazioni/'' then Some (''/ordinazioni/'', ordinazioni_slash, [])
         else None)"
proof -
  have u: "parse_entries p app_table =
    (case if p = ''/'' then Some [] else None of Some ps \<Rightarrow> Some (''/'', dashboard_route, ps) | None \<Rightarrow>
     case if p = [] then Some [] else None of Some ps \<Rightarrow> Some ([], root_route, ps) | None \<Rightarrow>
     case switchRouteMatcher p producer_route of Some ps \<Rightarrow> Some (''/producer/:name'', producer_route, ps) | None \<Rightarrow>
     case switchRouteMatcher p producer_slash of Some ps \<Rightarrow> Some (''/producer/:name/'', producer_slash, ps) | None \<Rightarrow>
     case if p = ''/ordinazioni'' then Some [] else None of Some ps \<Rightarrow> Some (''/ordinazioni'', ordinazioni_route, ps) | None \<Rightarrow>
     case if p = ''/ordinazioni/'' then Some [] else None of Some ps \<Rightarrow> Some (''/ordinazioni/'', ordinazioni_slash, ps) | None \<Rightarrow>
     None)"
    unfolding app_table_eq parse_entries.simps match_lits match_other by (simp only: option.case cong: option.case_cong)
  show ?thesis
  proof (cases "after_prefix ''/producer/'' p")
    case None
    show ?thesis unfolding u match_producer match_producer_slash None by (simp del: list.map after_prefix.simps)
  next
    case (Some n)
    then have "p = ''/producer/'' @ n" by (simp only: after_prefix_iff)
    then have "p \<noteq> ''/ordinazioni''" "p \<noteq> ''/ordinazioni/''" by auto
    then show ?thesis
      unfolding u match_producer match_producer_slash Some
      by (simp only: option.case if_False split: if_split option.split) (simp del: list.map after_prefix.simps)
  qed
qed

lemma producer_name_plain: "plain_segment m \<Longrightarrow> producer_name (''/producer/'' @ m) = Some m"
proof -
  assume m: "plain_segment m"
  then have "last m \<noteq> CHR ''/''" using last_in_set [of m] unfolding plain_segment_def by metis
  with m show ?thesis by (simp add: producer_name_def Let_def)
qed

lemma producer_name_cases:
  assumes "producer_name p = Some m"
  shows "plain_segment m" and "p = ''/producer/'' @ m \<or> p = ''/producer/'' @ m @ ''/''"
proof -
  from assms obtain n where n: "after_prefix ''/producer/'' p = Some n"
    and m: "m = (if n \<noteq> [] \<and> last n = CHR ''/'' then butlast n else n)" "plain_segment m"
    by (auto simp: producer_name_def Let_def split: option.splits if_splits simp del: after_prefix.simps)
  show "plain_segment m" by (rule m(2))
  have "p = ''/producer/'' @ n" using n by (simp only: after_prefix_iff)
  moreover have "n = m \<or> n = m @ ''/''" using m(1) by (metis append_butlast_last_id)
  ultimately show "p = ''/producer/'' @ m \<or> p = ''/producer/'' @ m @ ''/''" by auto
qed

definition app_redirect :: "string \<Rightarrow> bool" where
  "app_redirect p \<longleftrightarrow> snd (app_landing p) \<noteq> p"

lemma app_landing_again: "app_landing (snd (app_landing p)) = app_landing p"
proof (cases "producer_name p")
  case (Some m)
  from producer_name_plain [OF producer_name_cases(1) [OF Some]] Some show ?thesis
    by (simp add: app_landing_def del: append_Cons)
next
  case None
  have "producer_name ''/ordinazioni'' = None" "producer_name ''/'' = None" by code_simp+
  with None show ?thesis by (simp add: app_landing_def)
qed

lemma app_gets:
  "oget app_table ''/'' = Some dashboard_route" "oget app_table ''/producer/:name'' = Some producer_route"
  "oget app_table ''/ordinazioni'' = Some ordinazioni_route" "oget app_table [] = Some root_route"
  "oget app_table ''/producer/:name/'' = Some producer_slash" "oget app_table ''/ordinazioni/'' = Some ordinazioni_slash"
  "oget app_table ''null'' = Some other_route"
  unfolding app_table_eq by (simp_all del: list.map map_append)

text \<open>The routes that show a page, and what each of them passes on.\<close>

lemma parse_direct:
  assumes "\<not> app_redirect p"
  shows "\<exists>key r. parse_entries p app_table = Some (key, r, case producer_name p of None \<Rightarrow> [] | Some m \<Rightarrow> [(''name'', m)])
    \<and> oget app_table key = Some r \<and> rt_redirectTo r = None \<and> rt_controller r = Some (fst (app_landing p))
    \<and> rt_reloadOnSearch r = Some True"
proof (cases "producer_name p")
  case (Some m)
  with assms have p: "p = ''/producer/'' @ m" by (simp add: app_redirect_def app_landing_def del: append_Cons)
  have a: "after_prefix ''/producer/'' p = Some m" by (simp only: after_prefix_iff p)
  moreover have "plain_segment m" by (rule producer_name_cases(1) [OF Some])
  moreover have "p \<noteq> ''/''" "p \<noteq> []" using p by auto
  ultimately have "parse_entries p app_table = Some (''/producer/:name'', producer_route, [(''name'', m)])"
    by (simp only: parse_app if_False if_True option.case)
  moreover have "oget app_table ''/producer/:name'' = Some producer_route" by (rule app_gets)
  moreover have "fst (app_landing p) = ''ProducerController''" using Some by (simp add: app_landing_def)
  ultimately show ?thesis unfolding Some option.case by (metis app_route_simps(1-3))
next
  case None
  with assms have "p = ''/ordinazioni'' \<and> fst (app_landing p) = ''OrdinazioniController''
      \<or> p = ''/'' \<and> fst (app_landing p) = ''DashboardController''"
    by (auto simp: app_redirect_def app_landing_def split: if_splits)
  moreover have "after_prefix ''/producer/'' ''/ordinazioni'' = None" by code_simp
  then have "parse_entries ''/ordinazioni'' app_table = Some (''/ordinazioni'', ordinazioni_route, [])"
    by (simp add: parse_app del: list.map after_prefix.simps)
  moreover have "parse_entries ''/'' app_table = Some (''/'', dashboard_route, [])" by (simp only: parse_app simp_thms if_True)
  ultimately show ?thesis unfolding None option.case by (metis app_route_simps(1-3) app_gets)
qed

text \<open>The others, and where they send the location.\<close>

lemma parse_redirect:
  assumes "app_redirect p"
  obtains (root) "parse_entries p app_table = Some ([], root_route, [])" "snd (app_landing p) = ''/''"
    | (producer) m where "parse_entries p app_table = Some (''/producer/:name/'', producer_slash, [(''name'', m)])"
        "snd (app_landing p) = ''/producer/'' @ m"
    | (ordinazioni) "parse_entries p app_table = Some (''/ordinazioni/'', ordinazioni_slash, [])"
        "snd (app_landing p) = ''/ordinazioni''"
    | (other) "parse_entries p app_table = None" "snd (app_landing p) = ''/''"
proof (cases "producer_name p")
  case (Some m)
  then have "snd (app_landing p) = ''/producer/'' @ m" by (simp add: app_landing_def)
  moreover from this producer_name_cases [OF Some] assms
  have p: "p = ''/producer/'' @ m @ ''/''" and m: "plain_segment m" by (simp_all add: app_redirect_def del: append_Cons)
  have "after_prefix ''/producer/'' p = Some (m @ ''/'')" by (simp only: after_prefix_iff p)
  moreover have "p \<noteq> ''/''" "p \<noteq> []" "\<not> plain_segment (m @ ''/'')" using p by (auto simp: plain_segment_def)
  ultimately show ?thesis using m producer unfolding parse_app by (simp del: list.map after_prefix.simps)
next
  case None
  have landing: "snd (app_landing p) = (if p \<in> {''/ordinazioni'', ''/ordinazioni/''} then ''/ordinazioni'' else ''/'')"
    using None by (simp add: app_landing_def)
  with assms have p: "p \<noteq> ''/''" "p \<noteq> ''/ordinazioni''" by (auto simp: app_redirect_def)
  have "\<not> plain_segment n" "\<not> (n \<noteq> [] \<and> last n = CHR ''/'' \<and> plain_segment (butlast n))"
    if "after_prefix ''/producer/'' p = Some n" for n
    using None that last_in_set [of n] by (auto simp: producer_name_def Let_def plain_segment_def
        simp del: after_prefix.simps last_in_set split: if_splits dest: in_set_butlastD)
  then have "parse_entries p app_table = (if p = [] then Some ([], root_route, [])
      else if after_prefix ''/producer/'' p = None \<and> p = ''/ordinazioni/'' then Some (''/ordinazioni/'', ordinazioni_slash, []) else None)"
    using p unfolding parse_app by (cases "after_prefix ''/producer/'' p") (auto simp del: list.map after_prefix.simps)
  moreover have "after_prefix ''/producer/'' ''/ordinazioni/'' = None" by code_simp
  moreover have "snd (app_landing p) = (if p = ''/ordinazioni/'' then ''/ordinazioni'' else ''/'')"
    using landing p by simp
  ultimately show ?thesis using root ordinazioni other
    by (cases "p = []"; cases "p = ''/ordinazioni/''") (simp_all del: list.map after_prefix.simps)
qed

lemma obj_extend_single: "oget (obj_extend m [(k, v)]) j = (if j = k then Some v else oget m j)"
  by (simp add: obj_extend_def oget_oset)

lemma js_params_name: "js_params [(''name'', m)] = [(''name'', JStr m)]"
  by (simp add: js_params_def)

lemma interpolate_plain: "CHR '':'' \<notin> set t \<Longrightarrow> interpolate t params = Inr (t, params)"
  by (simp add: interpolate_def js_split_nosep)

lemma interpolate_name:
  "oget params ''name'' = Some (JStr m) \<Longrightarrow>
     interpolate ''/producer/:name'' params = Inr (''/producer/'' @ m, odel params ''name'')"
proof -
  assume m: "oget params ''name'' = Some (JStr m)"
  have s: "js_split (CHR '':'') ''/producer/:name'' = [''/producer/'', ''name'']" by code_simp
  have t: "dropWhile (\<lambda>c. \<not> word_char c) ''name'' = ''name''" "takeWhile word_char ''name'' = ''name''"
    "dropWhile word_char ''name'' = []" by code_simp+
  have "interpolate_segment ''name'' params = Inr (m, odel params ''name'')"
    unfolding interpolate_segment_def Let_def t by (simp add: m key_option_def join_text_def)
  then show ?thesis unfolding interpolate_def s by simp
qed

definition app_settled :: "route_state \<Rightarrow> bool" where
  "app_settled s \<longleftrightarrow> rs_routes s = app_table \<and>
     (case rs_current s of None \<Rightarrow> True | Some c \<Rightarrow> rt_redirectTo (m_route c) = None \<and>
        (\<exists>k. m_key c = Some k \<and> oget app_table k = Some (m_route c)))"

lemma parseRoute_direct:
  assumes "\<not> app_redirect (l_path l)"
  shows "\<exists>n k. parseRoute i app_table l = Some n \<and> m_key n = Some k \<and> oget app_table k = Some (m_route n)
    \<and> rt_redirectTo (m_route n) = None \<and> rt_controller (m_route n) = Some (fst (app_landing (l_path l)))
    \<and> rt_reloadOnSearch (m_route n) = Some True
    \<and> (\<forall>m. producer_name (l_path l) = Some m \<longrightarrow> oget (m_params n) ''name'' = Some (JStr m))"
proof -
  obtain key r where "parse_entries (l_path l) app_table
      = Some (key, r, case producer_name (l_path l) of None \<Rightarrow> [] | Some m \<Rightarrow> [(''name'', m)])"
    "oget app_table key = Some r" "rt_redirectTo r = None" "rt_controller r = Some (fst (app_landing (l_path l)))"
    "rt_reloadOnSearch r = Some True"
    using parse_direct [OF assms] by blast
  then show ?thesis by (auto simp: parseRoute_def js_params_name obj_extend_single)
qed

lemma parseRoute_redirect:
  assumes "app_redirect (l_path l)"
  shows "\<exists>n t params. parseRoute i app_table l = Some n \<and> rt_redirectTo (m_route n) = Some (RedirectTo t) \<and> t \<noteq> []
    \<and> (m_key n = None \<and> rt_reloadOnSearch (m_route n) = Some True
       \<or> (\<exists>k. m_key n = Some k \<and> oget app_table k = Some (m_route n)))
    \<and> interpolate t (m_params n) = Inr (snd (app_landing (l_path l)), params)"
proof (rule parse_redirect [OF assms])
  fix m assume p: "parse_entries (l_path l) app_table = Some (''/producer/:name/'', producer_slash, [(''name'', m)])"
    "snd (app_landing (l_path l)) = ''/producer/'' @ m"
  then show ?thesis
    by (simp add: parseRoute_def app_gets js_params_name interpolate_name obj_extend_single del: list.map append_Cons)
qed (simp_all add: parseRoute_def app_gets interpolate_plain del: list.map append_Cons)

lemma location_change_direct:
  assumes "app_settled s \<or> rs_routes s = app_table" "\<not> app_redirect (l_path l)"
  shows "\<exists>c. rs_current (fst (location_change False l s)) = Some c
    \<and> app_settled (fst (location_change False l s)) \<and> rs_location (fst (location_change False l s)) = l
    \<and> rt_controller (m_route c) = Some (fst (app_landing (l_path l)))
    \<and> (\<forall>m. producer_name (l_path l) = Some m \<longrightarrow> oget (m_params c) ''name'' = Some (JStr m))"
proof -
  have r: "rs_routes s = app_table" using assms(1) by (auto simp: app_settled_def)
  obtain n k where n: "parseRoute (rs_next s) app_table l = Some n" "m_key n = Some k" "oget app_table k = Some (m_route n)"
    "rt_redirectTo (m_route n) = None" "rt_controller (m_route n) = Some (fst (app_landing (l_path l)))"
    "rt_reloadOnSearch (m_route n) = Some True"
    "\<forall>m. producer_name (l_path l) = Some m \<longrightarrow> oget (m_params n) ''name'' = Some (JStr m)"
    using parseRoute_direct [OF assms(2)] by blast
  then show ?thesis
    by (simp add: location_change_def prepareRoute_def commitRoute_def redirect_route_def emit_def app_settled_def r Let_def
        split: option.split)
qed

lemma location_change_redirect:
  assumes "app_settled s" "app_redirect (l_path l)"
  shows "\<exists>params. rs_location (fst (location_change False l s))
      = loc_replace (set_search params (loc_path (snd (app_landing (l_path l))) l))
    \<and> rs_routes (fst (location_change False l s)) = app_table"
proof -
  have r: "rs_routes s = app_table" using assms(1) by (simp add: app_settled_def)
  obtain n t params where n: "parseRoute (rs_next s) app_table l = Some n" "rt_redirectTo (m_route n) = Some (RedirectTo t)" "t \<noteq> []"
    "m_key n = None \<and> rt_reloadOnSearch (m_route n) = Some True \<or> (\<exists>k. m_key n = Some k \<and> oget app_table k = Some (m_route n))"
    "interpolate t (m_params n) = Inr (snd (app_landing (l_path l)), params)"
    using parseRoute_redirect [OF assms(2)] by blast
  have "m_key n \<noteq> m_key c" if "rs_current s = Some c" for c
    using assms(1) n(2,4) that by (auto simp: app_settled_def)
  then show ?thesis
    using n(1-3,5)
    by (auto simp: location_change_def prepareRoute_def commitRoute_def redirect_route_def emit_def r Let_def
        split: option.split)
qed

lemma compose_absUrl: "l_absUrl (compose l) = l_appBase l @ (if l_url (compose l) = [] then [] else l_hashPrefix l @ l_url (compose l))"
  by (simp add: compose_def Let_def)

lemma url_path: "takeWhile (\<lambda>c. c \<noteq> CHR ''?'' \<and> c \<noteq> CHR ''#'') (l_url (compose l)) = encodePath (l_path l)"
  unfolding compose_url using path_chars [of _ "l_path l"] by (intro takeWhile_stop) auto

lemma absUrl_path:
  assumes "l_absUrl (compose l) = l_absUrl (compose l')"
    and "l_appBase l = l_appBase l'" "l_hashPrefix l = ''#''" "l_hashPrefix l' = ''#''"
  shows "l_path l = l_path l'"
proof -
  have "l_url (compose l) = l_url (compose l')"
    using assms by (auto simp: compose_absUrl split: if_splits)
  then have "encodePath (l_path l) = encodePath (l_path l')" using url_path by metis
  then show ?thesis using decode_path by (metis option.inject)
qed

lemma absUrl_trim_path:
  assumes "trimEmptyHash (l_absUrl (compose l)) = trimEmptyHash (l_absUrl (compose l'))"
    and "l_appBase l = l_appBase l'" "l_hashPrefix l = ''#''" "l_hashPrefix l' = ''#''" "l_path l' = CHR ''/'' # p"
  shows "l_path l = l_path l'"
proof -
  have ne: "l_url (compose l') \<noteq> []" using assms(5) by (simp add: compose_url encodePath_enc)
  then have h: "CHR ''#'' \<in> set (butlast (l_absUrl (compose l')))"
    using assms(4) by (simp add: compose_absUrl butlast_append)
  then have "trimEmptyHash (l_absUrl (compose l')) = l_absUrl (compose l')" by (simp add: trimEmptyHash_def)
  moreover from h have "CHR ''#'' \<in> set (l_absUrl (compose l'))" by (rule in_set_butlastD)
  ultimately have "l_absUrl (compose l) = l_absUrl (compose l')"
    using assms(1) by (auto simp: trimEmptyHash_def split: if_splits)
  then show ?thesis using assms by (intro absUrl_path)
qed

lemma app_landing_slash: "\<exists>q. snd (app_landing p) = CHR ''/'' # q"
  by (simp add: app_landing_def split: option.split)

lemma compose_path: "l_path (compose l) = l_path l" "l_appBase (compose l) = l_appBase l" "l_hashPrefix (compose l) = l_hashPrefix l"
  by (simp_all add: compose_def Let_def)

lemma producer_name_landing: "producer_name (snd (app_landing p)) = producer_name p"
proof (cases "producer_name p")
  case (Some m)
  from producer_name_plain [OF producer_name_cases(1) [OF Some]] Some show ?thesis
    by (simp add: app_landing_def del: append_Cons)
next
  case None
  have "producer_name ''/ordinazioni'' = None" "producer_name ''/'' = None" by code_simp+
  with None show ?thesis by (simp add: app_landing_def)
qed

text \<open>A redirection moves the location to another URL, that of the page it leads to.\<close>

lemma redirect_moves:
  assumes "app_settled s" "l_hashPrefix l = ''#''" "app_redirect (l_path l)"
  defines "s1 \<equiv> fst (location_change False ((compose l)\<lparr>l_replace := False\<rparr>) s)"
  shows "\<exists>k. rs_location s1 = loc_replace (compose k) \<and> l_path k = snd (app_landing (l_path l)) \<and> rs_routes s1 = app_table
    \<and> trimEmptyHash (l_absUrl (compose l)) \<noteq> trimEmptyHash (l_absUrl (compose k))"
proof -
  let ?l = "(compose l)\<lparr>l_replace := False\<rparr>"
  have "app_redirect (l_path ?l)" using assms(3) by (simp add: compose_path)
  from location_change_redirect [OF assms(1) this] obtain params where
    loc: "rs_location s1 = loc_replace (set_search params (loc_path (snd (app_landing (l_path l))) ?l))"
    and r: "rs_routes s1 = app_table" by (auto simp: compose_path s1_def)
  obtain q where q: "snd (app_landing (l_path l)) = CHR ''/'' # q" using app_landing_slash by blast
  define k where "k = (loc_path (snd (app_landing (l_path l))) ?l)\<lparr>l_search := filter (\<lambda>(k, v). v \<noteq> JNull \<and> v \<noteq> JUndef) params\<rparr>"
  have k: "rs_location s1 = loc_replace (compose k)" by (simp add: loc k_def set_search_def)
  have kp: "l_path k = snd (app_landing (l_path l))" "l_appBase k = l_appBase l" "l_hashPrefix k = ''#''"
    using assms(2) q by (simp_all add: k_def loc_path_def compose_path)
  have "trimEmptyHash (l_absUrl (compose l)) \<noteq> trimEmptyHash (l_absUrl (compose k))"
    using absUrl_trim_path [of l k q] kp q assms(2,3) by (auto simp: app_redirect_def)
  with k kp r show ?thesis by blast
qed


definition ex_route_state :: route_state where
  "ex_route_state = \<lparr>rs_routes = app_table,
     rs_location = compose \<lparr>l_appBase = ''http://h/'', l_hashPrefix = ''#'', l_path = ''/producer/bob/'', l_search = [],
       l_hash = [], l_url = [], l_absUrl = [], l_replace = False\<rparr>,
     rs_current = None, rs_prepared = None, rs_updateOnly = False, rs_forceReload = False, rs_routeParams = [],
     rs_queued = [], rs_pending = [], rs_next = 0, rs_events = []\<rparr>"


section \<open>Loads in any order\<close>

datatype route_step = Change bool location | Reload bool | StartLoad | FinishLoad nat bool

fun do_step :: "route_step \<Rightarrow> route_state \<Rightarrow> route_state \<times> js_error option" where
  "do_step (Change prevented l) s = location_change prevented l s"
| "do_step (Reload prevented) s = reload prevented s"
| "do_step StartLoad s = (start_load s, None)"
| "do_step (FinishLoad i ok) s = (finish_load i ok s, None)"

text \<open>The states reached when no redirection throws and every load that ends, ends well.\<close>

inductive reaches :: "route_state \<Rightarrow> route_state \<Rightarrow> bool" where
  refl: "reaches s s"
| step: "reaches s t \<Longrightarrow> do_step e t = (u, None) \<Longrightarrow> (\<And>i. e \<noteq> FinishLoad i False) \<Longrightarrow> reaches s u"

definition loading :: "route_state \<Rightarrow> nat option \<Rightarrow> bool" where
  "loading s i \<longleftrightarrow> i \<in> (\<lambda>(n, _). map_option m_id n) ` set (rs_queued s) \<or> i \<in> fst ` set (rs_pending s)"

definition params_current :: "route_state \<Rightarrow> bool" where
  "params_current s \<longleftrightarrow>
     (case rs_current s of None \<Rightarrow> True | Some c \<Rightarrow> loading s (Some (m_id c)) \<or> rs_routeParams s = m_params c)"

lemma commit_params:
  assumes "commitRoute s = (u, None)" "params_current s"
  shows "params_current u"
proof (cases "rs_updateOnly s")
  case True
  with assms show ?thesis by (auto simp: commitRoute_def params_current_def emit_def split: option.splits)
next
  case False
  show ?thesis
  proof (cases "rs_prepared s")
    case None
    with False assms show ?thesis by (auto simp: commitRoute_def params_current_def Let_def split: if_splits)
  next
    case (Some n)
    with False assms(1) obtain l n' where "redirect_route n (rs_location s) = Inr (l, n')"
      "u = s\<lparr>rs_forceReload := False, rs_location := l, rs_current := Some n', rs_prepared := Some n',
        rs_queued := rs_queued s @ [(Some n', map_option m_id (rs_current s))]\<rparr>"
      by (auto simp: commitRoute_def Let_def split: sum.splits prod.splits)
    then show ?thesis by (simp add: params_current_def loading_def)
  qed
qed

lemma params_current_cong:
  "rs_current t = rs_current s \<Longrightarrow> rs_queued t = rs_queued s \<Longrightarrow> rs_pending t = rs_pending s \<Longrightarrow>
   rs_routeParams t = rs_routeParams s \<Longrightarrow> params_current t \<longleftrightarrow> params_current s"
  by (cases "rs_current s") (simp_all add: params_current_def loading_def)

lemma prepare_params: "params_current (fst (prepareRoute e p s)) \<longleftrightarrow> params_current s"
  by (rule params_current_cong) (simp_all add: prepareRoute_def emit_def Let_def)

lemma load_params:
  "params_current s \<Longrightarrow> params_current (start_load s)"
  "params_current s \<Longrightarrow> params_current (finish_load i True s)"
proof -
  show "params_current (start_load s)" if "params_current s"
  proof (cases "rs_queued s")
    case (Cons q qs)
    with that show ?thesis
      by (cases "rs_current s"; cases q) (auto simp: params_current_def loading_def start_load_def emit_def)
  qed (use that in \<open>simp add: start_load_def\<close>)
  assume p: "params_current s"
  show "params_current (finish_load i True s)"
  proof (cases "i < length (rs_pending s)")
    case True
    let ?r = "take i (rs_pending s) @ drop (Suc i) (rs_pending s)"
    obtain n b where nb: "rs_pending s ! i = (n, b)" by (cases "rs_pending s ! i")
    have "set (rs_pending s) = insert (n, b) (set ?r)"
      using id_take_nth_drop [OF True] by (metis nb list.set(2) set_append Un_insert_right)
    then have "fst ` set (rs_pending s) = insert n (fst ` set ?r)" by simp
    with True nb p show ?thesis
      by (cases "rs_current s"; cases "n = map_option m_id (rs_current s)")
        (auto simp: params_current_def loading_def finish_load_def emit_def simp del: set_append)
  qed (use p in \<open>simp add: finish_load_def\<close>)
qed

lemma step_params:
  assumes "do_step e s = (u, None)" "\<And>i. e \<noteq> FinishLoad i False" "params_current s"
  shows "params_current u"
proof (cases e)
  case (Change prevented l)
  have k: "params_current (t\<lparr>rs_location := k\<rparr>) = params_current t" for t k
    by (rule params_current_cong) simp_all
  have "params_current (fst (prepareRoute True prevented (s\<lparr>rs_location := l\<rparr>)))"
    using assms(3) by (simp add: prepare_params k)
  then show ?thesis
    using assms(1) Change commit_params
    by (cases "prepareRoute True prevented (s\<lparr>rs_location := l\<rparr>)") (auto simp: location_change_def k split: if_splits)
next
  case (Reload prevented)
  have "params_current (s\<lparr>rs_forceReload := True\<rparr>) \<longleftrightarrow> params_current s" by (rule params_current_cong) simp_all
  then show ?thesis using assms Reload commit_params [of "fst (prepareRoute False prevented (s\<lparr>rs_forceReload := True\<rparr>))" u]
    by (simp add: reload_def prepare_params)
next
  case StartLoad
  then show ?thesis using assms load_params(1) [of s] by auto
next
  case (FinishLoad i ok)
  then show ?thesis using assms load_params(2) [of s i] by (cases ok) auto
qed


fun run_steps :: "route_step list \<Rightarrow> route_state \<Rightarrow> route_state option" where
  "run_steps [] s = Some s"
| "run_steps (e # es) s = (case (e, do_step e s) of
     (FinishLoad i False, _) \<Rightarrow> None | (_, u, None) \<Rightarrow> run_steps es u | _ \<Rightarrow> None)"

lemma run_reaches: "run_steps es t = Some u \<Longrightarrow> reaches s t \<Longrightarrow> reaches s u"
proof (induction es arbitrary: t)
  case (Cons e es)
  obtain v where v: "do_step e t = (v, None)" "run_steps es v = Some u"
    using Cons.prems(1) by (cases e; cases "do_step e t") (auto split: option.splits bool.splits)
  moreover have "e \<noteq> FinishLoad i False" for i using Cons.prems(1) by (cases "do_step e t") auto
  ultimately show ?case using Cons.IH [OF v(2)] Cons.prems(2) by (meson reaches.step)
qed simp

text \<open>Two navigations whose loads end in the opposite order.\<close>

definition ex_steps :: "route_step list" where
  "ex_steps = (let l = rs_location ex_route_state in
     [Change False (loc_path ''/producer/ann'' l), StartLoad, Change False (loc_path ''/producer/bob'' l), StartLoad,
      FinishLoad 1 True, FinishLoad 0 True])"


end
