(* ===== verification/Route_Params.thy ===== *)
theory Route_Params
  imports Angular_Route
begin

text \<open>
  Writing parameters into a path and reading them back: \<^verbatim>\<open>updateParams\<close> of \<^verbatim>\<open>angular-route.js\<close> fills the path of
  the current route with \<^verbatim>\<open>interpolate\<close>, and the location it sets has to match that route again. The two
  sides read the path in different ways, one as a pattern from left to right, the other by splitting it at
  the colons; the theory shows that they agree on paths made of plain segments and parameters.
\<close>

section \<open>Paths of plain segments and parameters\<close>

datatype path_segment = Plain string | Param string

fun seg_ok :: "path_segment \<Rightarrow> bool" where
  "seg_ok (Plain w) = list_all (\<lambda>c. c \<noteq> CHR ''/'' \<and> c \<noteq> CHR '':'' \<and> c \<noteq> CHR 0x0A \<and> c \<noteq> CHR 0x0D \<and> \<not> regexp_operator c) w"
| "seg_ok (Param k) = (k \<noteq> [] \<and> list_all word_char k)"

fun seg_text :: "path_segment \<Rightarrow> string" where
  "seg_text (Plain w) = CHR ''/'' # w"
| "seg_text (Param k) = CHR ''/'' # CHR '':'' # k"

abbreviation path_text :: "path_segment list \<Rightarrow> string" where
  "path_text segs \<equiv> concat (map seg_text segs)"

fun seg_items :: "path_segment \<Rightarrow> pattern_item list" where
  "seg_items (Plain w) = Lit (CHR ''/'') # map Lit w"
| "seg_items (Param k) = [Key True k Required]"

abbreviation path_items :: "path_segment list \<Rightarrow> pattern_item list" where
  "path_items segs \<equiv> concat (map seg_items segs)"

fun seg_keys :: "path_segment list \<Rightarrow> string list" where
  "seg_keys [] = []"
| "seg_keys (Plain w # segs) = seg_keys segs"
| "seg_keys (Param k # segs) = k # seg_keys segs"

fun fill :: "(string \<Rightarrow> string) \<Rightarrow> path_segment list \<Rightarrow> string" where
  "fill f [] = []"
| "fill f (Plain w # segs) = CHR ''/'' # w @ fill f segs"
| "fill f (Param k # segs) = CHR ''/'' # f k @ fill f segs"

section \<open>The path as a pattern\<close>

lemma word_char_facts: "\<not> word_char (CHR ''/'')" "\<not> word_char (CHR '':'')" "\<not> regexp_operator (CHR ''/'')"
  by (simp_all add: word_char_def regexp_operator_def Let_def)

lemma path_text_hd: "path_text segs = [] \<or> (\<exists>r. path_text segs = CHR ''/'' # r)"
proof (cases segs)
  case (Cons s t)
  then show ?thesis by (cases s) simp_all
qed simp

lemma word_run:
  assumes "list_all word_char k" "s = [] \<or> (\<exists>r. s = CHR ''/'' # r)"
  shows "takeWhile word_char (k @ s) = k" and "dropWhile word_char (k @ s) = s"
  using assms by (auto simp: list_all_iff word_char_facts takeWhile_append2 dropWhile_append2 takeWhile_eq_all_conv)

lemma key_option_none: "s = [] \<or> (\<exists>r. s = CHR ''/'' # r) \<Longrightarrow> key_option s = (Required, s)"
  by (auto simp: key_option_def)

lemma pathRegExp_lit:
  "c \<noteq> CHR '':'' \<Longrightarrow> \<not> regexp_operator c \<Longrightarrow> c = CHR ''/'' \<longrightarrow> (s = [] \<or> hd s \<noteq> CHR '':'') \<Longrightarrow>
     pathRegExp (c # s) = map_option ((#) (Lit c)) (pathRegExp s)"
  by (subst pathRegExp.simps) (auto simp: key_at_def key_start_def split: list.split)

lemma pathRegExp_lits:
  assumes "list_all (\<lambda>c. c \<noteq> CHR ''/'' \<and> c \<noteq> CHR '':'' \<and> \<not> regexp_operator c) w"
  shows "pathRegExp (w @ s) = map_option ((@) (map Lit w)) (pathRegExp s)"
  using assms
proof (induction w)
  case Nil
  show ?case by (cases "pathRegExp s") simp_all
next
  case (Cons c w)
  then show ?case by (cases "pathRegExp s") (simp_all add: pathRegExp_lit)
qed

lemma pathRegExp_key:
  assumes "k \<noteq> []" "list_all word_char k" "s = [] \<or> (\<exists>r. s = CHR ''/'' # r)"
  shows "pathRegExp (CHR ''/'' # CHR '':'' # k @ s) = map_option ((#) (Key True k Required)) (pathRegExp s)"
proof -
  have "key_at (CHR ''/'' # CHR '':'' # k @ s) = Some (Key True k Required, s)"
    using assms(1) word_run [OF assms(2,3)] key_option_none [OF assms(3)] by (simp add: key_at_def key_start_def)
  then show ?thesis by (subst pathRegExp.simps) simp
qed

lemma pathRegExp_segments: "list_all seg_ok segs \<Longrightarrow> pathRegExp (path_text segs) = Some (path_items segs)"
proof (induction segs)
  case Nil
  show ?case by (simp add: pathRegExp.simps)
next
  case (Cons s segs)
  show ?case
  proof (cases s)
    case (Plain w)
    with Cons have w: "list_all (\<lambda>c. c \<noteq> CHR ''/'' \<and> c \<noteq> CHR '':'' \<and> \<not> regexp_operator c) w" by (auto simp: list_all_iff)
    have "w @ path_text segs = [] \<or> hd (w @ path_text segs) \<noteq> CHR '':''"
      using w path_text_hd [of segs] by (cases w) auto
    with Cons Plain pathRegExp_lits [OF w] show ?thesis by (simp add: pathRegExp_lit word_char_facts)
  next
    case (Param k)
    with Cons path_text_hd [of segs] show ?thesis by (simp add: pathRegExp_key)
  qed
qed

section \<open>Matching a filled path\<close>

lemma fill_hd: "fill f segs = [] \<or> (\<exists>r. fill f segs = CHR ''/'' # r)"
  by (cases "(f, segs)" rule: fill.cases) auto

lemma segment_lengths_whole:
  assumes "plain_segment v" "s = [] \<or> (\<exists>r. s = CHR ''/'' # r)"
  shows "\<exists>ns. segment_lengths (v @ s) = length v # ns"
proof -
  have "takeWhile (\<lambda>c. c \<noteq> CHR ''/'') (v @ s) = v"
    using assms by (intro takeWhile_stop) (auto simp: plain_segment_def)
  moreover have "1 \<le> length v" using assms(1) by (cases v) (simp_all add: plain_segment_def)
  ultimately show ?thesis by (simp add: segment_lengths_def)
qed

lemma after_prefix_append: "after_prefix w (w @ s) = Some s"
  by (simp add: after_prefix_iff)

lemma exec_fill:
  "(\<And>k. k \<in> set (seg_keys segs) \<Longrightarrow> plain_segment (f k)) \<Longrightarrow>
     exec False (path_items segs) (fill f segs) = Some (map (\<lambda>k. Some (f k)) (seg_keys segs))"
proof (induction segs)
  case (Cons s segs)
  show ?case
  proof (cases s)
    case (Plain w)
    have "exec False (map Lit (CHR ''/'' # w) @ path_items segs) ((CHR ''/'' # w) @ fill f segs)
        = exec False (path_items segs) (fill f segs)"
      unfolding exec_lits after_prefix_append by simp
    with Cons Plain show ?thesis by simp
  next
    case (Param k)
    with Cons.prems have v: "plain_segment (f k)" by simp
    from segment_lengths_whole [OF v fill_hd] obtain ns where "segment_lengths (f k @ fill f segs) = length (f k) # ns" by blast
    with Cons Param show ?thesis by (simp add: strip_slash_def)
  qed
qed simp

lemma fold_params:
  "distinct ks \<Longrightarrow> set ks \<inter> set (okeys m) = {} \<Longrightarrow> (\<And>k. k \<in> set ks \<Longrightarrow> f k \<noteq> []) \<Longrightarrow>
     fold (\<lambda>(key, val) params. case val of None \<Rightarrow> params | Some v \<Rightarrow> if v = [] then params else oset params key v)
       (zip ks (map (\<lambda>k. Some (f k)) ks)) m = m @ map (\<lambda>k. (k, f k)) ks"
proof (induction ks arbitrary: m)
  case (Cons k ks)
  then have "oset m k (f k) = m @ [(k, f k)]" by (intro oset_new) auto
  with Cons show ?case by simp
qed simp

lemma pattern_keys_items: "pattern_keys (path_items segs) = seg_keys segs"
proof (induction segs)
  case (Cons s segs)
  then show ?case by (cases s) (simp_all add: pattern_keys_lits)
qed simp

lemma match_fill:
  assumes "list_all seg_ok segs" "distinct (seg_keys segs)" "\<And>k. k \<in> set (seg_keys segs) \<Longrightarrow> plain_segment (f k)"
    and "rt_regexp r = pathRegExp (path_text segs)" "rt_caseInsensitive r = Some False"
  shows "switchRouteMatcher (fill f segs) r = Some (map (\<lambda>k. (k, f k)) (seg_keys segs))"
proof -
  have "fold (\<lambda>(key, val) params. case val of None \<Rightarrow> params | Some v \<Rightarrow> if v = [] then params else oset params key v)
      (zip (seg_keys segs) (map (\<lambda>k. Some (f k)) (seg_keys segs))) [] = map (\<lambda>k. (k, f k)) (seg_keys segs)"
    using fold_params [OF assms(2), of "[]" f] assms(3) by (simp add: plain_segment_def)
  then show ?thesis
    using assms(4,5) pathRegExp_segments [OF assms(1)] exec_fill [OF assms(3)]
    by (simp add: switchRouteMatcher_def pattern_keys_items)
qed

section \<open>Filling a path\<close>

text \<open>What stands before the first colon, and the pieces after the colons.\<close>

fun lead :: "path_segment list \<Rightarrow> string" where
  "lead [] = []"
| "lead (Plain w # segs) = CHR ''/'' # w @ lead segs"
| "lead (Param k # segs) = ''/''"

fun pieces :: "path_segment list \<Rightarrow> string list" where
  "pieces [] = []"
| "pieces (Plain w # segs) = pieces segs"
| "pieces (Param k # segs) = (k @ lead segs) # pieces segs"

lemma js_split_prefix:
  "c \<notin> set p \<Longrightarrow> js_split c s = q # qs \<Longrightarrow> js_split c (p @ s) = (p @ q) # qs"
  by (induction p) auto

lemma split_segments: "list_all seg_ok segs \<Longrightarrow> js_split (CHR '':'') (path_text segs) = lead segs # pieces segs"
proof (induction segs)
  case (Cons s segs)
  show ?case
  proof (cases s)
    case (Plain w)
    with Cons have "CHR '':'' \<notin> set w" by (auto simp: list_all_iff)
    with Cons Plain js_split_prefix [of "CHR '':''" "CHR ''/'' # w"] show ?thesis by simp
  next
    case (Param k)
    with Cons have "CHR '':'' \<notin> set k" using word_char_facts(2) by (auto simp: list_all_iff)
    with Cons Param js_split_prefix [of "CHR '':''" k] show ?thesis by simp
  qed
qed simp

lemma lead_hd: "lead segs = [] \<or> (\<exists>r. lead segs = CHR ''/'' # r)"
  by (cases segs rule: lead.cases) auto

lemma lead_no_newline:
  "list_all seg_ok segs \<Longrightarrow> takeWhile (\<lambda>c. c \<noteq> CHR 0x0A \<and> c \<noteq> CHR 0x0D) (lead segs) = lead segs"
proof (induction segs rule: lead.induct)
  case (2 w segs)
  then show ?case by (auto simp: list_all_iff takeWhile_append2)
qed simp_all

lemma interpolate_piece:
  assumes "k \<noteq> []" "list_all word_char k" "list_all seg_ok segs" "oget params k = Some (JStr v)"
  shows "interpolate_segment (k @ lead segs) params = Inr (v @ lead segs, odel params k)"
proof -
  have "dropWhile (\<lambda>c. \<not> word_char c) (k @ lead segs) = k @ lead segs" using assms(1,2) by (cases k) simp_all
  then show ?thesis
    using assms word_run [OF assms(2) lead_hd] key_option_none [OF lead_hd] lead_no_newline [OF assms(3)]
    by (simp add: interpolate_segment_def Let_def join_text_def)
qed

lemma interpolate_pieces:
  assumes "list_all seg_ok segs" "distinct (seg_keys segs)"
    and "\<And>k. k \<in> set (seg_keys segs) \<Longrightarrow> oget params k = Some (JStr (f k))"
  shows "\<exists>u. interpolate_rest (pieces segs) params = Inr (u, fold (\<lambda>k m. odel m k) (seg_keys segs) params)
    \<and> lead segs @ u = fill f segs"
  using assms
proof (induction segs arbitrary: params)
  case (Cons s segs)
  show ?case
  proof (cases s)
    case (Plain w)
    with Cons show ?thesis by simp
  next
    case (Param k)
    have g: "oget (odel params k) j = Some (JStr (f j))" if "j \<in> set (seg_keys segs)" for j
      using Cons.prems that Param by (auto simp: oget_odel)
    have "list_all seg_ok segs" "distinct (seg_keys segs)" using Cons.prems Param by simp_all
    from Cons.IH [OF this g] obtain u where u: "interpolate_rest (pieces segs) (odel params k)
        = Inr (u, fold (\<lambda>k m. odel m k) (seg_keys segs) (odel params k))" "lead segs @ u = fill f segs"
      by blast
    have "interpolate_segment (k @ lead segs) params = Inr (f k @ lead segs, odel params k)"
      using Cons.prems Param by (intro interpolate_piece) simp_all
    with u Param show ?thesis by auto
  qed
qed simp

lemma interpolate_fill:
  assumes "list_all seg_ok segs" "distinct (seg_keys segs)"
    and "\<And>k. k \<in> set (seg_keys segs) \<Longrightarrow> oget params k = Some (JStr (f k))"
  shows "interpolate (path_text segs) params = Inr (fill f segs, fold (\<lambda>k m. odel m k) (seg_keys segs) params)"
  using interpolate_pieces [OF assms] by (auto simp: interpolate_def split_segments [OF assms(1)])

lemma oget_fold_odel: "oget (fold (\<lambda>k m. odel m k) ks m) j = (if j \<in> set ks then None else oget m j)"
  by (induction ks arbitrary: m) (auto simp: oget_odel)

text \<open>
  C33. Changing parameters keeps the route: when the path of the current route is made of plain
  segments and parameters with different names, and the parameters with the changes applied are strings
  that are not empty and have no slash, \<^verbatim>\<open>updateParams\<close> does not throw, the new path matches the pattern of
  that route, and the match gives back exactly these parameters; the others go to the query.
\<close>

theorem updateParams_matches:
  assumes "rs_current s = Some c" "m_key c \<noteq> None" "rt_originalPath (m_route c) = Some (path_text segs)"
    and "rt_regexp (m_route c) = pathRegExp (path_text segs)" "rt_caseInsensitive (m_route c) = Some False"
    and "segs \<noteq> []" "list_all seg_ok segs" "distinct (seg_keys segs)"
    and "\<And>k. k \<in> set (seg_keys segs) \<Longrightarrow> oget (obj_extend (m_params c) ps) k = Some (JStr (f k)) \<and> plain_segment (f k)"
  shows "\<exists>l. updateParams ps s = Inr l
    \<and> switchRouteMatcher (l_path l) (m_route c) = Some (map (\<lambda>k. (k, f k)) (seg_keys segs))
    \<and> (\<forall>k \<in> set (seg_keys segs). oget (l_search l) k = None)"
proof -
  let ?rest = "fold (\<lambda>k m. odel m k) (seg_keys segs) (obj_extend (m_params c) ps)"
  obtain key where key: "m_key c = Some key" using assms(2) by auto
  have i: "interpolate (path_text segs) (obj_extend (m_params c) ps) = Inr (fill f segs, ?rest)"
    using assms(7-9) by (intro interpolate_fill) auto
  have "\<exists>r. fill f segs = CHR ''/'' # r" using assms(6) by (cases "(f, segs)" rule: fill.cases) auto
  then have p: "l_path (loc_path (fill f segs) l) = fill f segs" for l by (auto simp: loc_path_def compose_path)
  have "oget (filter (\<lambda>(k, v). v \<noteq> JNull \<and> v \<noteq> JUndef) ?rest) k = None" if "k \<in> set (seg_keys segs)" for k
  proof -
    have "k \<notin> fst ` set ?rest" using that oget_fold_odel [of "seg_keys segs" _ k] by (metis map_of_eq_None_iff)
    then show ?thesis by (auto simp: map_of_eq_None_iff)
  qed
  moreover have "l_search (set_search m l) = filter (\<lambda>(k, v). v \<noteq> JNull \<and> v \<noteq> JUndef) m"
    "l_path (set_search m l) = l_path l" for m l by (simp_all add: set_search_def compose_def Let_def)
  moreover have "switchRouteMatcher (fill f segs) (m_route c) = Some (map (\<lambda>k. (k, f k)) (seg_keys segs))"
    using assms by (intro match_fill) auto
  ultimately show ?thesis
    using assms(1,3) key i p by (simp add: updateParams_def)
qed

definition ex_segs :: "path_segment list" where
  "ex_segs = [Plain ''shop'', Param ''name'', Plain ''item'', Param ''id'']"

definition ex_matched :: matched where
  "ex_matched = \<lparr>m_id = 0, m_route = no_route\<lparr>rt_originalPath := Some (path_text ex_segs),
       rt_regexp := pathRegExp (path_text ex_segs), rt_caseInsensitive := Some False\<rparr>,
     m_key = Some ''/shop/:name/item/:id'', m_params = [(''name'', JStr ''ann''), (''id'', JStr ''7''), (''q'', JStr ''x'')],
     m_pathParams = [(''name'', ''ann''), (''id'', ''7'')]\<rparr>"

theorem updateParams_matches_witness:
  "\<exists>l. updateParams [(''name'', JStr ''bob'')] (ex_route_state\<lparr>rs_current := Some ex_matched\<rparr>) = Inr l
    \<and> switchRouteMatcher (l_path l) (m_route ex_matched) = Some [(''name'', ''bob''), (''id'', ''7'')]
    \<and> oget (l_search l) ''name'' = None"
proof -
  let ?f = "\<lambda>k. if k = ''name'' then ''bob'' else ''7''" and ?s = "ex_route_state\<lparr>rs_current := Some ex_matched\<rparr>"
  have k: "seg_keys ex_segs = [''name'', ''id'']" by (simp add: ex_segs_def)
  have r: "rs_current ?s = Some ex_matched" "m_key ex_matched \<noteq> None"
    "rt_originalPath (m_route ex_matched) = Some (path_text ex_segs)"
    "rt_regexp (m_route ex_matched) = pathRegExp (path_text ex_segs)"
    "rt_caseInsensitive (m_route ex_matched) = Some False" "ex_segs \<noteq> []"
    by (simp_all add: ex_matched_def no_route_def) (simp add: ex_segs_def)
  have ok: "list_all seg_ok ex_segs" "distinct (seg_keys ex_segs)" by code_simp+
  have "oget (obj_extend (m_params ex_matched) [(''name'', JStr ''bob'')]) ''name'' = Some (JStr ''bob'')"
    "oget (obj_extend (m_params ex_matched) [(''name'', JStr ''bob'')]) ''id'' = Some (JStr ''7'')"
    "plain_segment ''bob''" "plain_segment ''7''" by code_simp+
  then have f: "oget (obj_extend (m_params ex_matched) [(''name'', JStr ''bob'')]) j = Some (JStr (?f j)) \<and> plain_segment (?f j)"
    if "j \<in> set (seg_keys ex_segs)" for j
    using that unfolding k by auto
  from updateParams_matches [OF r ok f] show ?thesis unfolding k by auto
qed

end
