(* ===== verification/Angular_Q.thy ===== *)
theory Angular_Q
  imports Main_App
begin

text \<open>
  \<^verbatim>\<open>$q\<close> of \<^verbatim>\<open>angular.js\<close> (\<^verbatim>\<open>qFactory\<close>), the promises that the service \<^verbatim>\<open>rpcQuery\<close> of \<^verbatim>\<open>main.js\<close> returns.

  A deferred and its promise are one object, an index into \<open>q_promises\<close>. A promise is resolved with a plain
  value or with another promise (\<open>qval\<close>); objects of other libraries that have a function \<^verbatim>\<open>then\<close> are not
  modelled, nor is a promise as the reason of a rejection or as a progress value. The array \<^verbatim>\<open>pending\<close> of a promise is kept by its
  callers too (\<^verbatim>\<open>notify\<close> closes over it), so the arrays live in a heap, \<open>q_arrays\<close>. \<^verbatim>\<open>nextTick\<close> appends to
  \<open>q_ticks\<close>. The functions \<^verbatim>\<open>callOnce\<close> makes share a flag, an index into \<open>q_flags\<close>; the functions of one call of
  \<^verbatim>\<open>all\<close> share its variables, an index into \<open>q_alls\<close>. The error of a promise resolved with itself is the name
  \<^verbatim>\<open>$q:qcycle\<close> its message starts with.

  What a caller's function does is the parameter \<open>behave\<close>: for the name of the function and the argument,
  the operations of \<^verbatim>\<open>$q\<close> it performs and what it returns or throws. The other handlers are the functions \<^verbatim>\<open>$q\<close>
  makes itself: those of \<^verbatim>\<open>finally\<close>, the two that \<^verbatim>\<open>handleCallback\<close> passes on, those of \<^verbatim>\<open>all\<close>, and those that \<^verbatim>\<open>$$resolve\<close> passes to
  the promise it follows.
\<close>

section \<open>State\<close>

datatype qval = QVal js | QPromise nat

datatype handler = HUser nat | HFinally bool "nat option" | HMake js bool | HMakeError
  | HAll nat string | HAllError nat string | HResolve nat nat | HReject nat nat | HNotify nat

record entry =
  e_result :: nat
  e_onFulfilled :: "handler option"
  e_onRejected :: "handler option"
  e_progressBack :: "handler option"

record promise =
  p_status :: int
  p_value :: js
  p_pending :: "nat option"
  p_scheduled :: bool

datatype tick = TProcess nat | TNotify nat js

datatype q_event = LThen nat nat | LRun nat | LCall nat js | LException js

record all_call =
  a_deferred :: nat
  a_counter :: int
  a_results :: "js obj"
  a_keys :: "string list"
  a_isArray :: bool

record q_state =
  q_promises :: "promise list"
  q_arrays :: "entry list list"
  q_flags :: "bool list"
  q_alls :: "all_call list"
  q_ticks :: "tick list"
  q_log :: "q_event list"

datatype q_op = ODefer | OThen nat "nat option" "nat option" "nat option"
  | OCatch nat nat | OFinally nat "nat option" "nat option"
  | OAll bool "(string \<times> qval) list" | OResolve nat qval | OReject nat js | ONotify nat js

section \<open>Operations\<close>

definition q_init :: q_state where
  "q_init = \<lparr>q_promises = [], q_arrays = [], q_flags = [], q_alls = [], q_ticks = [], q_log = []\<rparr>"

abbreviation prom :: "q_state \<Rightarrow> nat \<Rightarrow> promise" where
  "prom s d \<equiv> q_promises s ! d"

definition upd_promise :: "nat \<Rightarrow> (promise \<Rightarrow> promise) \<Rightarrow> q_state \<Rightarrow> q_state" where
  "upd_promise d f s = s\<lparr>q_promises := (q_promises s)[d := f (prom s d)]\<rparr>"

definition q_logged :: "q_event list \<Rightarrow> q_state \<Rightarrow> q_state" where
  "q_logged es s = s\<lparr>q_log := q_log s @ es\<rparr>"

definition q_defer :: "q_state \<Rightarrow> nat \<times> q_state" where
  "q_defer s = (length (q_promises s),
     s\<lparr>q_promises := q_promises s @ [\<lparr>p_status = 0, p_value = JUndef, p_pending = None, p_scheduled = False\<rparr>]\<rparr>)"

definition scheduleProcessQueue :: "nat \<Rightarrow> q_state \<Rightarrow> q_state" where
  "scheduleProcessQueue d s = (if p_scheduled (prom s d) \<or> p_pending (prom s d) = None then s
     else (upd_promise d (p_scheduled_update (\<lambda>_. True)) s)\<lparr>q_ticks := q_ticks s @ [TProcess d]\<rparr>)"

text \<open>\<^verbatim>\<open>pending = pending || []; pending.push(...)\<close>.\<close>

definition push_pending :: "nat \<Rightarrow> entry \<Rightarrow> q_state \<Rightarrow> q_state" where
  "push_pending d e s = (case p_pending (prom s d) of
       None \<Rightarrow> (upd_promise d (p_pending_update (\<lambda>_. Some (length (q_arrays s)))) s)\<lparr>q_arrays := q_arrays s @ [[e]]\<rparr>
     | Some a \<Rightarrow> s\<lparr>q_arrays := (q_arrays s)[a := q_arrays s ! a @ [e]]\<rparr>)"

definition q_then :: "nat \<Rightarrow> handler option \<Rightarrow> handler option \<Rightarrow> handler option \<Rightarrow> q_state \<Rightarrow> nat \<times> q_state" where
  "q_then d onFulfilled onRejected progressBack s =
     (if onFulfilled = None \<and> onRejected = None \<and> progressBack = None then (d, s)
      else let (r, s1) = q_defer s;
               s2 = q_logged [LThen d r] (push_pending d \<lparr>e_result = r, e_onFulfilled = onFulfilled,
                      e_onRejected = onRejected, e_progressBack = progressBack\<rparr> s1)
           in (r, if p_status (prom s2 d) > 0 then scheduleProcessQueue d s2 else s2))"

text \<open>\<open>settle\<close> is the end of \<^verbatim>\<open>$$resolve\<close> (status 1) and all of \<^verbatim>\<open>$$reject\<close> (status 2).\<close>

definition settle :: "nat \<Rightarrow> int \<Rightarrow> js \<Rightarrow> q_state \<Rightarrow> q_state" where
  "settle d status v s = scheduleProcessQueue d (upd_promise d (\<lambda>p. p\<lparr>p_value := v, p_status := status\<rparr>) s)"

definition d_reject_now :: "nat \<Rightarrow> js \<Rightarrow> q_state \<Rightarrow> q_state" where
  "d_reject_now d reason s = settle d 2 reason s"

definition d_resolve_now :: "nat \<Rightarrow> qval \<Rightarrow> q_state \<Rightarrow> q_state" where
  "d_resolve_now d v s =
     (let f = length (q_flags s); s1 = s\<lparr>q_flags := q_flags s @ [False]\<rparr>
      in case v of
           QVal x \<Rightarrow> settle d 1 x s1
         | QPromise p \<Rightarrow> snd (q_then p (Some (HResolve d f)) (Some (HReject d f)) (Some (HNotify d))
             (upd_promise d (p_status_update (\<lambda>_. - 1)) s1)))"

definition d_resolve :: "nat \<Rightarrow> qval \<Rightarrow> q_state \<Rightarrow> q_state" where
  "d_resolve d v s = (if p_status (prom s d) \<noteq> 0 then s
     else if v = QPromise d then d_reject_now d (JStr ''$q:qcycle'') s
     else d_resolve_now d v s)"

definition d_reject :: "nat \<Rightarrow> js \<Rightarrow> q_state \<Rightarrow> q_state" where
  "d_reject d reason s = (if p_status (prom s d) \<noteq> 0 then s else d_reject_now d reason s)"

definition d_notify :: "nat \<Rightarrow> js \<Rightarrow> q_state \<Rightarrow> q_state" where
  "d_notify d progress s = (case p_pending (prom s d) of
       None \<Rightarrow> s
     | Some a \<Rightarrow> if p_status (prom s d) \<le> 0 \<and> q_arrays s ! a \<noteq> []
                  then s\<lparr>q_ticks := q_ticks s @ [TNotify a progress]\<rparr> else s)"

text \<open>\<open>q_reject\<close> and \<open>q_when\<close> are \<^verbatim>\<open>$q.reject\<close> and \<^verbatim>\<open>$q.when\<close>.\<close>

definition q_reject :: "js \<Rightarrow> q_state \<Rightarrow> nat \<times> q_state" where
  "q_reject reason s = (let (r, s1) = q_defer s in (r, d_reject r reason s1))"

definition q_when :: "qval \<Rightarrow> handler option \<Rightarrow> handler option \<Rightarrow> handler option \<Rightarrow> q_state \<Rightarrow> nat \<times> q_state" where
  "q_when v callback errback progressBack s =
     (let (r, s1) = q_defer s in q_then r callback errback progressBack (d_resolve r v s1))"

text \<open>\<^verbatim>\<open>catch\<close> of a function and \<^verbatim>\<open>finally\<close>, whose callback need not be a function.\<close>

definition q_catch :: "nat \<Rightarrow> handler option \<Rightarrow> q_state \<Rightarrow> nat \<times> q_state" where
  "q_catch d callback s = q_then d None callback None s"

definition q_finally :: "nat \<Rightarrow> nat option \<Rightarrow> handler option \<Rightarrow> q_state \<Rightarrow> nat \<times> q_state" where
  "q_finally d callback progressBack s = q_then d (Some (HFinally True callback)) (Some (HFinally False callback)) progressBack s"

definition makePromise :: "js \<Rightarrow> bool \<Rightarrow> q_state \<Rightarrow> nat \<times> q_state" where
  "makePromise v resolved s =
     (let (r, s1) = q_defer s in (r, if resolved then d_resolve r (QVal v) s1 else d_reject r v s1))"

definition exists_promise :: "q_state \<Rightarrow> nat \<Rightarrow> bool" where
  "exists_promise s d \<longleftrightarrow> d < length (q_promises s)"

text \<open>
  \<^verbatim>\<open>all\<close>: its argument is what \<^verbatim>\<open>forEach\<close> enumerates, keys with promises or values. The results are kept in the
  order of their arrival, that of the keys of an object; an array lists them by index.
\<close>

definition results_js :: "all_call \<Rightarrow> js" where
  "results_js c = (if a_isArray c
     then JArr (map (\<lambda>k. case oget (a_results c) k of Some v \<Rightarrow> v | None \<Rightarrow> JUndef) (a_keys c)) else JObj (a_results c))"

definition all_each :: "nat \<Rightarrow> string \<times> qval \<Rightarrow> q_state \<Rightarrow> q_state" where
  "all_each c kv s =
     (let s1 = s\<lparr>q_alls := (q_alls s)[c := (q_alls s ! c)\<lparr>a_counter := a_counter (q_alls s ! c) + 1\<rparr>]\<rparr>;
          (r, s2) = q_when (snd kv) None None None s1
      in snd (q_then r (Some (HAll c (fst kv))) (Some (HAllError c (fst kv))) None s2))"

definition q_all :: "bool \<Rightarrow> (string \<times> qval) list \<Rightarrow> q_state \<Rightarrow> nat \<times> q_state" where
  "q_all isArr promises s =
     (let (d, s1) = q_defer s; c = length (q_alls s1);
          s2 = fold (all_each c) promises (s1\<lparr>q_alls := q_alls s1 @
            [\<lparr>a_deferred = d, a_counter = 0, a_results = [], a_keys = map fst promises, a_isArray = isArr\<rparr>]\<rparr>)
      in (d, if a_counter (q_alls s2 ! c) = 0 then d_resolve d (QVal (results_js (q_alls s2 ! c))) s2 else s2))"

text \<open>
  A value that arrives: whether it is the last one, and the variables after it. Then the functions that \<^verbatim>\<open>all\<close>
  gives to \<^verbatim>\<open>then\<close>; the promise they settle is the one \<open>q_all\<close> has made.
\<close>

definition all_deliver :: "string \<Rightarrow> js \<Rightarrow> all_call \<Rightarrow> bool \<times> all_call" where
  "all_deliver key v c = (if ohas (a_results c) key then (False, c)
     else let c1 = c\<lparr>a_results := oset (a_results c) key v, a_counter := a_counter c - 1\<rparr> in (a_counter c1 = 0, c1))"

definition all_value :: "nat \<Rightarrow> string \<Rightarrow> js \<Rightarrow> q_state \<Rightarrow> q_state" where
  "all_value c key v s = (let (done_now, c1) = all_deliver key v (q_alls s ! c); s1 = s\<lparr>q_alls := (q_alls s)[c := c1]\<rparr>
     in if done_now \<and> exists_promise s1 (a_deferred c1) then d_resolve (a_deferred c1) (QVal (results_js c1)) s1 else s1)"

definition all_error :: "nat \<Rightarrow> string \<Rightarrow> js \<Rightarrow> q_state \<Rightarrow> q_state" where
  "all_error c key reason s = (if ohas (a_results (q_alls s ! c)) key \<or> \<not> exists_promise s (a_deferred (q_alls s ! c)) then s
     else d_reject (a_deferred (q_alls s ! c)) reason s)"

text \<open>What a caller does with \<^verbatim>\<open>$q\<close>. It can only name promises that exist.\<close>

fun exec_op :: "q_op \<Rightarrow> q_state \<Rightarrow> q_state" where
  "exec_op ODefer s = snd (q_defer s)"
| "exec_op (OThen d f r p) s = (if exists_promise s d
     then snd (q_then d (map_option HUser f) (map_option HUser r) (map_option HUser p) s) else s)"
| "exec_op (OCatch d callback) s = (if exists_promise s d then snd (q_catch d (Some (HUser callback)) s) else s)"
| "exec_op (OFinally d callback p) s = (if exists_promise s d then snd (q_finally d callback (map_option HUser p) s) else s)"
| "exec_op (OAll isArr promises) s =
     (if list_all (\<lambda>(k, v). case v of QVal _ \<Rightarrow> True | QPromise p \<Rightarrow> exists_promise s p) promises
      then snd (q_all isArr promises s) else s)"
| "exec_op (OResolve d v) s = (if exists_promise s d \<and> (case v of QVal _ \<Rightarrow> True | QPromise p \<Rightarrow> exists_promise s p)
     then d_resolve d v s else s)"
| "exec_op (OReject d reason) s = (if exists_promise s d then d_reject d reason s else s)"
| "exec_op (ONotify d v) s = (if exists_promise s d then d_notify d v s else s)"

type_synonym behaviour = "nat \<Rightarrow> js \<Rightarrow> q_op list \<times> (js + qval)"

definition user_call :: "behaviour \<Rightarrow> nat \<Rightarrow> js \<Rightarrow> q_state \<Rightarrow> (js + qval) \<times> q_state" where
  "user_call behave i v s = (let (ops, out) = behave i v in (out, fold exec_op ops (q_logged [LCall i v] s)))"

definition handleCallback :: "behaviour \<Rightarrow> js \<Rightarrow> bool \<Rightarrow> nat option \<Rightarrow> q_state \<Rightarrow> nat \<times> q_state" where
  "handleCallback behave v isResolved callback s = (case callback of
       None \<Rightarrow> makePromise v isResolved s
     | Some i \<Rightarrow> (case user_call behave i JUndef s of
         (Inl e, s1) \<Rightarrow> makePromise e False s1
       | (Inr (QVal w), s1) \<Rightarrow> makePromise v isResolved s1
       | (Inr (QPromise p), s1) \<Rightarrow> if exists_promise s1 p
           then q_then p (Some (HMake v isResolved)) (Some HMakeError) None s1 else makePromise v isResolved s1))"

fun call_handler :: "behaviour \<Rightarrow> handler \<Rightarrow> js \<Rightarrow> q_state \<Rightarrow> (js + qval) \<times> q_state" where
  "call_handler behave (HUser i) v s = user_call behave i v s"
| "call_handler behave (HFinally isResolved callback) v s =
     (let (r, s1) = handleCallback behave v isResolved callback s in (Inr (QPromise r), s1))"
| "call_handler behave (HMake w isResolved) v s = (let (r, s1) = makePromise w isResolved s in (Inr (QPromise r), s1))"
| "call_handler behave HMakeError v s = (let (r, s1) = makePromise v False s in (Inr (QPromise r), s1))"
| "call_handler behave (HAll c key) v s = (Inr (QVal JUndef), all_value c key v s)"
| "call_handler behave (HAllError c key) v s = (Inr (QVal JUndef), all_error c key v s)"
| "call_handler behave (HResolve d f) v s = (Inr (QVal JUndef),
     if q_flags s ! f then s else d_resolve_now d (QVal v) (s\<lparr>q_flags := (q_flags s)[f := True]\<rparr>))"
| "call_handler behave (HReject d f) v s = (Inr (QVal JUndef),
     if q_flags s ! f then s else d_reject_now d v (s\<lparr>q_flags := (q_flags s)[f := True]\<rparr>))"
| "call_handler behave (HNotify d) v s = (Inr (QVal JUndef), d_notify d v s)"

definition process_entry :: "behaviour \<Rightarrow> nat \<Rightarrow> entry \<Rightarrow> q_state \<Rightarrow> q_state" where
  "process_entry behave d e s =
     (let s0 = q_logged [LRun (e_result e)] s; status = p_status (prom s d); v = p_value (prom s d) in
      case (if status = 1 then e_onFulfilled e else e_onRejected e) of
        None \<Rightarrow> if status = 1 then d_resolve (e_result e) (QVal v) s0 else d_reject (e_result e) v s0
      | Some h \<Rightarrow> (case call_handler behave h v s0 of
          (Inr w, s1) \<Rightarrow> if (case w of QVal _ \<Rightarrow> True | QPromise p \<Rightarrow> exists_promise s1 p)
                         then d_resolve (e_result e) w s1 else s1
        | (Inl x, s1) \<Rightarrow> q_logged [LException x] (d_reject (e_result e) x s1)))"

text \<open>
  \<^verbatim>\<open>processQueue\<close>. It is scheduled only for a promise with a pending array; without one \<^verbatim>\<open>pending.length\<close>
  would throw.
\<close>

definition processQueue :: "behaviour \<Rightarrow> nat \<Rightarrow> q_state \<Rightarrow> q_state result" where
  "processQueue behave d s =
     (let s1 = upd_promise d (\<lambda>p. p\<lparr>p_scheduled := False, p_pending := None\<rparr>) s in
      case p_pending (prom s d) of
        None \<Rightarrow> Inl TypeErr
      | Some a \<Rightarrow> Inr (fold (process_entry behave d) (q_arrays s ! a) s1))"

definition notify_entry :: "behaviour \<Rightarrow> js \<Rightarrow> entry \<Rightarrow> q_state \<Rightarrow> q_state" where
  "notify_entry behave progress e s = (case e_progressBack e of
       None \<Rightarrow> d_notify (e_result e) progress s
     | Some h \<Rightarrow> (case call_handler behave h progress s of
         (Inr (QVal w), s1) \<Rightarrow> d_notify (e_result e) w s1
       | (Inr (QPromise p), s1) \<Rightarrow> s1
       | (Inl x, s1) \<Rightarrow> q_logged [LException x] s1))"

definition run_tick :: "behaviour \<Rightarrow> q_state \<Rightarrow> q_state result" where
  "run_tick behave s = (case q_ticks s of
       [] \<Rightarrow> Inr s
     | TProcess d # ts \<Rightarrow> processQueue behave d (s\<lparr>q_ticks := ts\<rparr>)
     | TNotify a progress # ts \<Rightarrow> Inr (fold (notify_entry behave progress) (q_arrays s ! a) (s\<lparr>q_ticks := ts\<rparr>)))"

section \<open>Invariants\<close>

text \<open>
  \<open>live s a\<close>: the array \<open>a\<close> still belongs to a promise. \<open>runs s\<close>: the results whose entries have been processed, in
  order. The four parts of the invariant speak of the arrays, the ticks, the processed entries and the
  registered ones. \<open>ex\<close> is a promise that has been settled and not yet scheduled, \<open>es\<close> are the entries that
  \<^verbatim>\<open>processQueue\<close> has taken and not yet processed.
\<close>

definition live :: "q_state \<Rightarrow> nat \<Rightarrow> bool" where
  "live s a \<longleftrightarrow> (\<exists>d < length (q_promises s). p_pending (prom s d) = Some a)"

definition log_runs :: "q_event list \<Rightarrow> nat list" where
  "log_runs es = concat (map (\<lambda>e. case e of LRun r \<Rightarrow> [r] | _ \<Rightarrow> []) es)"

abbreviation runs :: "q_state \<Rightarrow> nat list" where
  "runs s \<equiv> log_runs (q_log s)"

fun is_process :: "tick \<Rightarrow> bool" where
  "is_process (TProcess d) = True"
| "is_process (TNotify a v) = False"

definition inv_arrays :: "q_state \<Rightarrow> bool" where
  "inv_arrays s \<longleftrightarrow>
     (\<forall>d < length (q_promises s). \<forall>a. p_pending (prom s d) = Some a \<longrightarrow> a < length (q_arrays s)) \<and>
     (\<forall>d < length (q_promises s). \<forall>d' < length (q_promises s). \<forall>a.
        p_pending (prom s d) = Some a \<longrightarrow> p_pending (prom s d') = Some a \<longrightarrow> d = d') \<and>
     distinct (map e_result (concat (q_arrays s))) \<and>
     (\<forall>e \<in> set (concat (q_arrays s)). e_result e < length (q_promises s))"

definition inv_ticks :: "nat option \<Rightarrow> q_state \<Rightarrow> bool" where
  "inv_ticks ex s \<longleftrightarrow>
     (\<forall>d < length (q_promises s). p_scheduled (prom s d) \<longrightarrow>
        TProcess d \<in> set (q_ticks s) \<and> p_pending (prom s d) \<noteq> None \<and> p_status (prom s d) > 0) \<and>
     (\<forall>d. TProcess d \<in> set (q_ticks s) \<longrightarrow> d < length (q_promises s) \<and> p_scheduled (prom s d)) \<and>
     (\<forall>a v. TNotify a v \<in> set (q_ticks s) \<longrightarrow> a < length (q_arrays s)) \<and>
     distinct (filter is_process (q_ticks s)) \<and>
     (\<forall>d < length (q_promises s). p_status (prom s d) > 0 \<longrightarrow> p_pending (prom s d) \<noteq> None \<longrightarrow>
        ex \<noteq> Some d \<longrightarrow> p_scheduled (prom s d))"

definition inv_runs :: "entry list \<Rightarrow> q_state \<Rightarrow> bool" where
  "inv_runs es s \<longleftrightarrow> distinct (runs s) \<and> (\<forall>r \<in> set (runs s) \<union> e_result ` set es. r < length (q_promises s)) \<and>
     (\<forall>a < length (q_arrays s). \<forall>e \<in> set (q_arrays s ! a).
        (e_result e \<in> set (runs s) \<longleftrightarrow> \<not> live s a \<and> e_result e \<notin> e_result ` set es) \<and>
        (live s a \<longrightarrow> e_result e \<notin> e_result ` set es))"

definition inv_then :: "q_state \<Rightarrow> bool" where
  "inv_then s \<longleftrightarrow> (\<forall>d r. LThen d r \<in> set (q_log s) \<longrightarrow> d < length (q_promises s) \<and>
     (\<exists>a < length (q_arrays s). r \<in> e_result ` set (q_arrays s ! a) \<and>
        (p_pending (prom s d) = Some a \<or> \<not> live s a \<and> p_status (prom s d) > 0)))"

definition q_inv :: "nat option \<Rightarrow> entry list \<Rightarrow> q_state \<Rightarrow> bool" where
  "q_inv ex es s \<longleftrightarrow> inv_arrays s \<and> inv_ticks ex s \<and> inv_runs es s \<and> inv_then s"

lemma q_inv_init: "q_inv None [] q_init"
  by (simp add: q_inv_def inv_arrays_def inv_ticks_def inv_runs_def inv_then_def q_init_def log_runs_def)

lemma log_runs_simps [simp]: "log_runs [] = []" "log_runs (es @ fs) = log_runs es @ log_runs fs"
  "log_runs [LRun r] = [r]" "log_runs [LThen d r] = []" "log_runs [LCall i v] = []" "log_runs [LException v] = []"
  by (simp_all add: log_runs_def)

subsection \<open>Updates that keep promises, arrays and runs\<close>

lemma upd_promise_simps [simp]:
  "length (q_promises (upd_promise d f s)) = length (q_promises s)" "q_arrays (upd_promise d f s) = q_arrays s"
  "q_flags (upd_promise d f s) = q_flags s" "q_ticks (upd_promise d f s) = q_ticks s" "q_log (upd_promise d f s) = q_log s"
  by (simp_all add: upd_promise_def)

lemma prom_upd: "d < length (q_promises s) \<Longrightarrow> prom (upd_promise d f s) j = (if j = d then f (prom s d) else prom s j)"
  by (simp add: upd_promise_def)

lemma live_cong: "q_promises s = q_promises t \<Longrightarrow> live s a = live t a"
  by (simp add: live_def)

text \<open>Each part depends on some of the fields only.\<close>

lemma inv_arrays_cong: "q_promises s = q_promises t \<Longrightarrow> q_arrays s = q_arrays t \<Longrightarrow> inv_arrays s = inv_arrays t"
  unfolding inv_arrays_def by simp

lemma inv_ticks_cong:
  "q_promises s = q_promises t \<Longrightarrow> q_arrays s = q_arrays t \<Longrightarrow> q_ticks s = q_ticks t \<Longrightarrow> inv_ticks ex s = inv_ticks ex t"
  unfolding inv_ticks_def by simp

lemma inv_runs_cong:
  "q_promises s = q_promises t \<Longrightarrow> q_arrays s = q_arrays t \<Longrightarrow> runs s = runs t \<Longrightarrow> inv_runs es s = inv_runs es t"
  unfolding inv_runs_def live_def by simp

lemma inv_then_cong:
  "q_promises s = q_promises t \<Longrightarrow> q_arrays s = q_arrays t \<Longrightarrow>
   (\<And>d r. LThen d r \<in> set (q_log s) \<longleftrightarrow> LThen d r \<in> set (q_log t)) \<Longrightarrow> inv_then s = inv_then t"
  unfolding inv_then_def live_def by simp

lemma q_inv_cong:
  assumes "q_promises s = q_promises t" "q_arrays s = q_arrays t" "q_ticks s = q_ticks t" "runs s = runs t"
    and "\<And>d r. LThen d r \<in> set (q_log s) \<longleftrightarrow> LThen d r \<in> set (q_log t)"
  shows "q_inv ex es s = q_inv ex es t"
  unfolding q_inv_def
  using inv_arrays_cong [OF assms(1,2)] inv_ticks_cong [OF assms(1-3)] inv_runs_cong [OF assms(1,2,4)]
    inv_then_cong [OF assms(1,2,5)] by simp

lemma q_inv_logged:
  "log_runs fs = [] \<Longrightarrow> (\<And>d r. LThen d r \<notin> set fs) \<Longrightarrow> q_inv ex es (q_logged fs s) = q_inv ex es s"
  by (rule q_inv_cong) (simp_all add: q_logged_def)

lemma q_inv_flags: "q_inv ex es (s\<lparr>q_flags := fl\<rparr>) = q_inv ex es s"
  by (rule q_inv_cong) simp_all

lemma q_inv_alls: "q_inv ex es (s\<lparr>q_alls := cs\<rparr>) = q_inv ex es s"
  by (rule q_inv_cong) simp_all

text \<open>The clauses one at a time.\<close>

lemma inv_ticksI:
  assumes "\<And>d. d < length (q_promises s) \<Longrightarrow> p_scheduled (prom s d) \<Longrightarrow>
      TProcess d \<in> set (q_ticks s) \<and> p_pending (prom s d) \<noteq> None \<and> p_status (prom s d) > 0"
    and "\<And>d. TProcess d \<in> set (q_ticks s) \<Longrightarrow> d < length (q_promises s) \<and> p_scheduled (prom s d)"
    and "\<And>a v. TNotify a v \<in> set (q_ticks s) \<Longrightarrow> a < length (q_arrays s)"
    and "distinct (filter is_process (q_ticks s))"
    and "\<And>d. d < length (q_promises s) \<Longrightarrow> p_status (prom s d) > 0 \<Longrightarrow> p_pending (prom s d) \<noteq> None \<Longrightarrow>
        ex \<noteq> Some d \<Longrightarrow> p_scheduled (prom s d)"
  shows "inv_ticks ex s"
  unfolding inv_ticks_def using assms by blast

lemma inv_ticksD:
  assumes "inv_ticks ex s"
  shows "d < length (q_promises s) \<Longrightarrow> p_scheduled (prom s d) \<Longrightarrow> TProcess d \<in> set (q_ticks s)"
    and "d < length (q_promises s) \<Longrightarrow> p_scheduled (prom s d) \<Longrightarrow> p_pending (prom s d) \<noteq> None"
    and "d < length (q_promises s) \<Longrightarrow> p_scheduled (prom s d) \<Longrightarrow> p_status (prom s d) > 0"
    and "TProcess d \<in> set (q_ticks s) \<Longrightarrow> d < length (q_promises s)"
    and "TProcess d \<in> set (q_ticks s) \<Longrightarrow> p_scheduled (prom s d)"
    and "TNotify a v \<in> set (q_ticks s) \<Longrightarrow> a < length (q_arrays s)"
    and "distinct (filter is_process (q_ticks s))"
    and "d < length (q_promises s) \<Longrightarrow> p_status (prom s d) > 0 \<Longrightarrow> p_pending (prom s d) \<noteq> None \<Longrightarrow> ex \<noteq> Some d \<Longrightarrow>
        p_scheduled (prom s d)"
  using assms unfolding inv_ticks_def by blast+

lemma inv_arraysI:
  assumes "\<And>d a. d < length (q_promises s) \<Longrightarrow> p_pending (prom s d) = Some a \<Longrightarrow> a < length (q_arrays s)"
    and "\<And>d d' a. d < length (q_promises s) \<Longrightarrow> d' < length (q_promises s) \<Longrightarrow> p_pending (prom s d) = Some a \<Longrightarrow>
        p_pending (prom s d') = Some a \<Longrightarrow> d = d'"
    and "distinct (map e_result (concat (q_arrays s)))"
    and "\<And>e. e \<in> set (concat (q_arrays s)) \<Longrightarrow> e_result e < length (q_promises s)"
  shows "inv_arrays s"
  unfolding inv_arrays_def using assms by blast

lemma inv_arraysD:
  assumes "inv_arrays s"
  shows "d < length (q_promises s) \<Longrightarrow> p_pending (prom s d) = Some a \<Longrightarrow> a < length (q_arrays s)"
    and "d < length (q_promises s) \<Longrightarrow> d' < length (q_promises s) \<Longrightarrow> p_pending (prom s d) = Some a \<Longrightarrow>
        p_pending (prom s d') = Some a \<Longrightarrow> d = d'"
    and "distinct (map e_result (concat (q_arrays s)))"
    and "e \<in> set (concat (q_arrays s)) \<Longrightarrow> e_result e < length (q_promises s)"
  using assms unfolding inv_arrays_def by blast+

lemma inv_runsI:
  assumes "distinct (runs s)" "\<And>r. r \<in> set (runs s) \<union> e_result ` set es \<Longrightarrow> r < length (q_promises s)" "\<And>a e. a < length (q_arrays s) \<Longrightarrow> e \<in> set (q_arrays s ! a) \<Longrightarrow>
      e_result e \<in> set (runs s) \<longleftrightarrow> \<not> live s a \<and> e_result e \<notin> e_result ` set es"
    and "\<And>a e. a < length (q_arrays s) \<Longrightarrow> e \<in> set (q_arrays s ! a) \<Longrightarrow> live s a \<Longrightarrow> e_result e \<notin> e_result ` set es"
  shows "inv_runs es s"
  unfolding inv_runs_def using assms by blast

lemma inv_runsD:
  assumes "inv_runs es s"
  shows "distinct (runs s)" and "r \<in> set (runs s) \<union> e_result ` set es \<Longrightarrow> r < length (q_promises s)" and "a < length (q_arrays s) \<Longrightarrow> e \<in> set (q_arrays s ! a) \<Longrightarrow>
      e_result e \<in> set (runs s) \<longleftrightarrow> \<not> live s a \<and> e_result e \<notin> e_result ` set es"
    and "a < length (q_arrays s) \<Longrightarrow> e \<in> set (q_arrays s ! a) \<Longrightarrow> live s a \<Longrightarrow> e_result e \<notin> e_result ` set es"
  using assms unfolding inv_runs_def by blast+

lemma inv_thenI:
  assumes "\<And>d r. LThen d r \<in> set (q_log s) \<Longrightarrow> d < length (q_promises s) \<and>
     (\<exists>a < length (q_arrays s). r \<in> e_result ` set (q_arrays s ! a) \<and>
        (p_pending (prom s d) = Some a \<or> \<not> live s a \<and> p_status (prom s d) > 0))"
  shows "inv_then s"
  unfolding inv_then_def using assms by blast

lemma inv_thenD:
  assumes "inv_then s" "LThen d r \<in> set (q_log s)"
  obtains a where "d < length (q_promises s)" "a < length (q_arrays s)" "r \<in> e_result ` set (q_arrays s ! a)"
    "p_pending (prom s d) = Some a \<or> \<not> live s a \<and> p_status (prom s d) > 0"
  using assms unfolding inv_then_def by blast

lemma q_invI: "inv_arrays s \<Longrightarrow> inv_ticks ex s \<Longrightarrow> inv_runs es s \<Longrightarrow> inv_then s \<Longrightarrow> q_inv ex es s"
  by (simp add: q_inv_def)

lemma q_invD:
  assumes "q_inv ex es s" shows "inv_arrays s" "inv_ticks ex s" "inv_runs es s" "inv_then s"
  using assms by (simp_all add: q_inv_def)

subsection \<open>Each primitive keeps the invariant\<close>

lemma q_inv_notify_tick:
  assumes "q_inv ex es s" "a < length (q_arrays s)"
  shows "q_inv ex es (s\<lparr>q_ticks := q_ticks s @ [TNotify a v]\<rparr>)" (is "q_inv ex es ?t")
proof (rule q_invI)
  show "inv_arrays ?t" using q_invD(1) [OF assms(1)] by (subst inv_arrays_cong [of _ s]) simp_all
  show "inv_runs es ?t" using q_invD(3) [OF assms(1)] by (subst inv_runs_cong [of _ s]) simp_all
  show "inv_then ?t" using q_invD(4) [OF assms(1)] by (subst inv_then_cong [of _ s]) simp_all
  note i = inv_ticksD [OF q_invD(2) [OF assms(1)]]
  show "inv_ticks ex ?t"
  proof (rule inv_ticksI, goal_cases)
    case (1 d)
    then show ?case using i(1-3) [of d] by simp
  next
    case (2 d)
    then show ?case using i(4,5) [of d] by simp
  next
    case (3 b w)
    then show ?case using i(6) [of b w] assms(2) by auto
  next
    case 4
    show ?case using i(7) by simp
  next
    case (5 d)
    then show ?case using i(8) [of d] by simp
  qed
qed

lemma defer_simps [simp]:
  "fst (q_defer s) = length (q_promises s)" "length (q_promises (snd (q_defer s))) = Suc (length (q_promises s))"
  "q_arrays (snd (q_defer s)) = q_arrays s" "q_ticks (snd (q_defer s)) = q_ticks s" "q_log (snd (q_defer s)) = q_log s"
  "q_flags (snd (q_defer s)) = q_flags s"
  by (simp_all add: q_defer_def)

lemma prom_defer_old [simp]: "j < length (q_promises s) \<Longrightarrow> prom (snd (q_defer s)) j = prom s j"
  by (simp add: q_defer_def nth_append)

lemma prom_defer_new [simp]:
  "prom (snd (q_defer s)) (length (q_promises s)) = \<lparr>p_status = 0, p_value = JUndef, p_pending = None, p_scheduled = False\<rparr>"
  by (simp add: q_defer_def)

lemma live_defer [simp]: "live (snd (q_defer s)) a = live s a"
  by (auto simp: live_def less_Suc_eq)

lemma q_inv_defer:
  assumes "q_inv ex es s" shows "q_inv ex es (snd (q_defer s))" (is "q_inv ex es ?t")
proof (rule q_invI)
  note a = inv_arraysD [OF q_invD(1) [OF assms]] and i = inv_ticksD [OF q_invD(2) [OF assms]]
    and r = inv_runsD [OF q_invD(3) [OF assms]]
  show "inv_arrays ?t"
  proof (rule inv_arraysI, goal_cases)
    case (1 d b)
    then show ?case using a(1) [of d b] by (cases "d = length (q_promises s)") simp_all
  next
    case (2 d d' b)
    then show ?case
      using a(2) [of d d' b] by (cases "d = length (q_promises s)"; cases "d' = length (q_promises s)") simp_all
  next
    case 3
    show ?case using a(3) by simp
  next
    case (4 e)
    then show ?case using a(4) [of e] by simp
  qed
  show "inv_ticks ex ?t"
  proof (rule inv_ticksI, goal_cases)
    case (1 d)
    then show ?case using i(1-3) [of d] by (cases "d = length (q_promises s)") simp_all
  next
    case (2 d)
    then show ?case using i(4,5) [of d] by simp
  next
    case (3 b w)
    then show ?case using i(6) [of b w] by simp
  next
    case 4
    show ?case using i(7) by simp
  next
    case (5 d)
    then show ?case using i(8) [of d] by (cases "d = length (q_promises s)") simp_all
  qed
  show "inv_runs es ?t"
  proof (rule inv_runsI)
    fix q assume "q \<in> set (runs ?t) \<union> e_result ` set es"
    then show "q < length (q_promises ?t)" using r(2) [of q] by simp
  qed (use r(1,3,4) in simp_all)
  show "inv_then ?t"
  proof (rule inv_thenI)
    fix d q assume "LThen d q \<in> set (q_log ?t)"
    then have "LThen d q \<in> set (q_log s)" by simp
    from inv_thenD [OF q_invD(4) [OF assms] this] show "d < length (q_promises ?t) \<and>
      (\<exists>a < length (q_arrays ?t). q \<in> e_result ` set (q_arrays ?t ! a) \<and>
        (p_pending (prom ?t d) = Some a \<or> \<not> live ?t a \<and> p_status (prom ?t d) > 0))"
      by (metis defer_simps(2,3) less_SucI live_defer prom_defer_old)
  qed
qed

text \<open>An update of one promise that keeps its array and does not take back that it is settled.\<close>

lemma inv_upd:
  assumes "d < length (q_promises s)" "p_pending (f (prom s d)) = p_pending (prom s d)"
  shows "inv_arrays (upd_promise d f s) = inv_arrays s" and "inv_runs es (upd_promise d f s) = inv_runs es s"
    and "(0 < p_status (prom s d) \<longrightarrow> 0 < p_status (f (prom s d))) \<Longrightarrow> inv_then s \<Longrightarrow> inv_then (upd_promise d f s)"
proof -
  have p: "p_pending (prom (upd_promise d f s) j) = p_pending (prom s j)" for j
    using assms by (simp add: prom_upd)
  have l: "live (upd_promise d f s) a = live s a" for a by (simp add: live_def p)
  show "inv_arrays (upd_promise d f s) = inv_arrays s" unfolding inv_arrays_def by (simp add: p)
  show "inv_runs es (upd_promise d f s) = inv_runs es s" unfolding inv_runs_def by (simp add: l)
  assume st: "0 < p_status (prom s d) \<longrightarrow> 0 < p_status (f (prom s d))" and t: "inv_then s"
  show "inv_then (upd_promise d f s)"
  proof (rule inv_thenI)
    fix j q assume "LThen j q \<in> set (q_log (upd_promise d f s))"
    then have "LThen j q \<in> set (q_log s)" by simp
    moreover have "0 < p_status (prom s j) \<longrightarrow> 0 < p_status (prom (upd_promise d f s) j)"
      using st assms(1) by (simp add: prom_upd)
    ultimately show "j < length (q_promises (upd_promise d f s)) \<and> (\<exists>a < length (q_arrays (upd_promise d f s)).
      q \<in> e_result ` set (q_arrays (upd_promise d f s) ! a) \<and> (p_pending (prom (upd_promise d f s) j) = Some a
        \<or> \<not> live (upd_promise d f s) a \<and> p_status (prom (upd_promise d f s) j) > 0))"
      unfolding l p upd_promise_simps by (metis inv_thenD [OF t])
  qed
qed

lemma q_inv_exempt:
  assumes "q_inv (Some d) es s" "\<not> p_status (prom s d) > 0 \<or> p_pending (prom s d) = None \<or> p_scheduled (prom s d)"
  shows "q_inv None es s"
proof -
  note i = inv_ticksD [OF q_invD(2) [OF assms(1)]]
  have "inv_ticks None s"
  proof (rule inv_ticksI, goal_cases)
    case (1 d)
    then show ?case using i(1-3) [of d] by simp
  next
    case (2 d)
    then show ?case using i(4,5) [of d] by simp
  next
    case (5 j)
    then show ?case using i(8) [of j] assms(2) by (cases "j = d") auto
  qed (use i(6,7) in blast)+
  then show ?thesis using q_invD [OF assms(1)] by (intro q_invI)
qed

lemma q_inv_schedule:
  assumes q: "q_inv (Some d) es s" and d: "d < length (q_promises s)" "p_status (prom s d) > 0"
  shows "q_inv None es (scheduleProcessQueue d s)"
proof (cases "p_scheduled (prom s d) \<or> p_pending (prom s d) = None")
  case True
  with q_inv_exempt [OF q] show ?thesis by (auto simp: scheduleProcessQueue_def)
next
  case False
  let ?u = "upd_promise d (p_scheduled_update (\<lambda>_. True)) s" and ?t = "scheduleProcessQueue d s"
  have t: "?t = ?u\<lparr>q_ticks := q_ticks s @ [TProcess d]\<rparr>" using False by (auto simp: scheduleProcessQueue_def)
  note i = inv_ticksD [OF q_invD(2) [OF q]]
  have new: "TProcess d \<notin> set (q_ticks s)" using i(5) False by blast
  have p: "prom ?t j = (if j = d then (prom s d)\<lparr>p_scheduled := True\<rparr> else prom s j)" for j
    by (simp add: t prom_upd [OF d(1)])
  show ?thesis
  proof (rule q_invI)
    show "inv_arrays ?t" using q_invD(1) [OF q] inv_upd(1) [OF d(1), of "p_scheduled_update (\<lambda>_. True)"]
      by (subst inv_arrays_cong [of _ ?u]) (simp_all add: t)
    show "inv_runs es ?t" using q_invD(3) [OF q] inv_upd(2) [OF d(1), of "p_scheduled_update (\<lambda>_. True)"]
      by (subst inv_runs_cong [of _ ?u]) (simp_all add: t)
    show "inv_then ?t" using q_invD(4) [OF q] inv_upd(3) [OF d(1), of "p_scheduled_update (\<lambda>_. True)"]
      by (subst inv_then_cong [of _ ?u]) (simp_all add: t)
    show "inv_ticks None ?t"
    proof (rule inv_ticksI, goal_cases)
      case (1 j)
      then show ?case using i(1-3) [of j] d False by (cases "j = d") (simp_all add: p, simp_all add: t)
    next
      case (2 j)
      then show ?case using i(4,5) [of j] d by (cases "j = d") (simp_all add: p, simp_all add: t)
    next
      case (3 b w)
      then show ?case using i(6) [of b w] by (simp add: t)
    next
      case 4
      show ?case using i(7) new by (simp add: t)
    next
      case (5 j)
      then show ?case using i(8) [of j] by (cases "j = d") (simp_all add: p, simp_all add: t)
    qed
  qed
qed

lemma inv_ticks_upd:
  assumes i: "inv_ticks None s" and d: "d < length (q_promises s)"
    and f: "p_pending (f (prom s d)) = p_pending (prom s d)" "p_scheduled (f (prom s d)) = p_scheduled (prom s d)"
    and "p_scheduled (prom s d) \<longrightarrow> p_status (f (prom s d)) > 0" "p_status (f (prom s d)) > 0 \<longrightarrow> ex = Some d"
  shows "inv_ticks ex (upd_promise d f s)"
proof (rule inv_ticksI, goal_cases)
  case (1 j)
  then show ?case using inv_ticksD(1-3) [OF i, of j] assms by (cases "j = d") (simp_all add: prom_upd)
next
  case (2 j)
  then show ?case using inv_ticksD(4,5) [OF i, of j] d f by (cases "j = d") (simp_all add: prom_upd)
next
  case (3 b w)
  then show ?case using inv_ticksD(6) [OF i, of b w] by simp
next
  case 4
  show ?case using inv_ticksD(7) [OF i] by simp
next
  case (5 j)
  then show ?case using inv_ticksD(8) [OF i, of j] assms by (cases "j = d") (simp_all add: prom_upd)
qed

lemma q_inv_settle:
  assumes "q_inv None es s" "d < length (q_promises s)" "st > 0"
  shows "q_inv None es (settle d st v s)"
proof -
  let ?f = "\<lambda>p. p\<lparr>p_value := v, p_status := st\<rparr>"
  have "q_inv (Some d) es (upd_promise d ?f s)"
  proof (rule q_invI)
    show "inv_arrays (upd_promise d ?f s)" using inv_upd(1) [OF assms(2), of ?f] q_invD(1) [OF assms(1)] by simp
    show "inv_runs es (upd_promise d ?f s)" using inv_upd(2) [OF assms(2), of ?f] q_invD(3) [OF assms(1)] by simp
    show "inv_then (upd_promise d ?f s)" using inv_upd(3) [OF assms(2), of ?f] q_invD(4) [OF assms(1)] assms(3) by simp
    show "inv_ticks (Some d) (upd_promise d ?f s)"
      using assms(3) by (intro inv_ticks_upd [OF q_invD(2) [OF assms(1)] assms(2)]) simp_all
  qed
  then show ?thesis unfolding settle_def
    using assms(2,3) by (intro q_inv_schedule) (simp_all add: prom_upd)
qed

lemma q_inv_adopt:
  assumes "q_inv None es s" "d < length (q_promises s)" "p_status (prom s d) \<le> 0"
  shows "q_inv None es (upd_promise d (p_status_update (\<lambda>_. - 1)) s)"
proof (rule q_invI)
  let ?f = "p_status_update (\<lambda>_. - 1 :: int)"
  show "inv_arrays (upd_promise d ?f s)" using inv_upd(1) [OF assms(2), of ?f] q_invD(1) [OF assms(1)] by simp
  show "inv_runs es (upd_promise d ?f s)" using inv_upd(2) [OF assms(2), of ?f] q_invD(3) [OF assms(1)] by simp
  show "inv_then (upd_promise d ?f s)" using inv_upd(3) [OF assms(2), of ?f] q_invD(4) [OF assms(1)] assms(3) by simp
  show "inv_ticks None (upd_promise d ?f s)"
    using assms(2,3) inv_ticksD(3) [OF q_invD(2) [OF assms(1)], of d]
    by (intro inv_ticks_upd [OF q_invD(2) [OF assms(1)]]) auto
qed

lemma concat_push:
  assumes "a < length xs"
  shows "set (concat (xs[a := xs ! a @ [e]])) = insert e (set (concat xs))"
    and "f e \<notin> f ` set (concat xs) \<Longrightarrow> distinct (map f (concat xs)) \<Longrightarrow> distinct (map f (concat (xs[a := xs ! a @ [e]])))"
proof -
  have c: "concat xs = concat (take a xs) @ xs ! a @ concat (drop (Suc a) xs)"
    by (subst id_take_nth_drop [OF assms]) simp
  have u: "concat (xs[a := xs ! a @ [e]]) = concat (take a xs) @ xs ! a @ e # concat (drop (Suc a) xs)"
    using assms by (simp add: upd_conv_take_nth_drop)
  show "set (concat (xs[a := xs ! a @ [e]])) = insert e (set (concat xs))" unfolding u by (subst c) auto
  assume n: "f e \<notin> f ` set (concat xs)" and d: "distinct (map f (concat xs))"
  show "distinct (map f (concat (xs[a := xs ! a @ [e]])))"
    using n d unfolding u by (subst (asm) c, subst (asm) c) auto
qed

lemma nth_push: "a < length xs \<Longrightarrow> b < length xs \<Longrightarrow>
    set (xs[a := xs ! a @ [e]] ! b) = (if b = a then insert e (set (xs ! a)) else set (xs ! b))"
  by auto

lemma q_inv_push_old:
  assumes Some: "p_pending (prom s d) = Some a"
    and q: "q_inv None es s" and d: "d < length (q_promises s)" and r: "e_result e < length (q_promises s)"
    and new: "e_result e \<notin> e_result ` set (concat (q_arrays s))" "e_result e \<notin> set (runs s)" "e_result e \<notin> e_result ` set es"
  shows "q_inv (Some d) es (q_logged [LThen d (e_result e)] (push_pending d e s))" (is "q_inv _ _ ?t")
proof -
  note ia = inv_arraysD [OF q_invD(1) [OF q]] and ir = inv_runsD [OF q_invD(3) [OF q]] and i = inv_ticksD [OF q_invD(2) [OF q]]
  have a: "a < length (q_arrays s)" using ia(1) [OF d Some] .
  have t: "q_promises ?t = q_promises s" "q_arrays ?t = (q_arrays s)[a := q_arrays s ! a @ [e]]" "q_ticks ?t = q_ticks s"
    "q_log ?t = q_log s @ [LThen d (e_result e)]" "runs ?t = runs s"
    by (simp_all add: push_pending_def q_logged_def Some)
  have l: "live ?t b = live s b" for b by (rule live_cong) (rule t(1))
  have la: "live s a" using d Some by (auto simp: live_def)
  show ?thesis
  proof (rule q_invI)
    show "inv_arrays ?t"
    proof (rule inv_arraysI, goal_cases)
      case (1 j b)
      then show ?case using ia(1) [of j b] by (simp add: t)
    next
      case (2 j j' b)
      then show ?case using ia(2) [of j j' b] by (simp add: t)
    next
      case 3
      show ?case unfolding t(2) by (rule concat_push(2) [OF a new(1) ia(3)])
    next
      case (4 f)
      then show ?case using ia(4) [of f] r unfolding t(1,2) concat_push(1) [OF a] by blast
    qed
    show "inv_ticks (Some d) ?t"
    proof (rule inv_ticksI, goal_cases)
      case (1 j)
      then show ?case using i(1-3) [of j] by (simp add: t)
    next
      case (2 j)
      then show ?case using i(4,5) [of j] by (simp add: t)
    next
      case (3 b w)
      then show ?case using i(6) [of b w] by (simp add: t)
    next
      case 4
      show ?case using i(7) by (simp add: t)
    next
      case (5 j)
      then show ?case using i(8) [of j] by (simp add: t)
    qed
    show "inv_runs es ?t"
    proof (rule inv_runsI)
      fix b f assume fb: "b < length (q_arrays ?t)" "f \<in> set (q_arrays ?t ! b)"
      then show "e_result f \<in> set (runs ?t) \<longleftrightarrow> \<not> live ?t b \<and> e_result f \<notin> e_result ` set es"
        using ir(3) [of b f] new(2) la nth_push [OF a, of b e] unfolding t l by (auto split: if_splits)
      assume "live ?t b"
      then show "e_result f \<notin> e_result ` set es" using ir(4) [of b f] fb new(3) nth_push [OF a, of b e] unfolding t l
        by (auto split: if_splits)
    qed (use ir(1,2) t in auto)
    show "inv_then ?t"
    proof (rule inv_thenI)
      fix j p assume "LThen j p \<in> set (q_log ?t)"
      then consider (old) "LThen j p \<in> set (q_log s)" | (new) "j = d" "p = e_result e" unfolding t by auto
      then show "j < length (q_promises ?t) \<and> (\<exists>b < length (q_arrays ?t). p \<in> e_result ` set (q_arrays ?t ! b) \<and>
        (p_pending (prom ?t j) = Some b \<or> \<not> live ?t b \<and> p_status (prom ?t j) > 0))"
      proof cases
        case old
        from inv_thenD [OF q_invD(4) [OF q] old] obtain b where b: "j < length (q_promises s)" "b < length (q_arrays s)"
          "p \<in> e_result ` set (q_arrays s ! b)" "p_pending (prom s j) = Some b \<or> \<not> live s b \<and> p_status (prom s j) > 0" .
        moreover have "p \<in> e_result ` set (q_arrays ?t ! b)" using b(2,3) nth_push [OF a b(2)] unfolding t by auto
        ultimately show ?thesis unfolding l using t by auto
      next
        case new
        have "e_result e \<in> e_result ` set (q_arrays ?t ! a)" using nth_push [OF a a] unfolding t by simp
        then show ?thesis using new d a Some t by auto
      qed
    qed
  qed
qed

lemma q_inv_push_new:
  assumes None: "p_pending (prom s d) = None"
    and q: "q_inv None es s" and d: "d < length (q_promises s)" and r: "e_result e < length (q_promises s)"
    and new: "e_result e \<notin> e_result ` set (concat (q_arrays s))" "e_result e \<notin> set (runs s)" "e_result e \<notin> e_result ` set es"
  shows "q_inv (Some d) es (q_logged [LThen d (e_result e)] (push_pending d e s))" (is "q_inv _ _ ?t")
proof -
  note ia = inv_arraysD [OF q_invD(1) [OF q]] and ir = inv_runsD [OF q_invD(3) [OF q]] and i = inv_ticksD [OF q_invD(2) [OF q]]
  let ?L = "length (q_arrays s)"
  have t: "length (q_promises ?t) = length (q_promises s)" "q_arrays ?t = q_arrays s @ [[e]]" "q_ticks ?t = q_ticks s"
    "q_log ?t = q_log s @ [LThen d (e_result e)]" "runs ?t = runs s"
    by (simp_all add: push_pending_def q_logged_def None)
  have p: "prom ?t j = (if j = d then (prom s d)\<lparr>p_pending := Some ?L\<rparr> else prom s j)" for j
    using d by (simp add: push_pending_def q_logged_def None prom_upd)
  have l: "live ?t b = (b = ?L \<or> live s b)" for b
  proof
    assume "live ?t b"
    then show "b = ?L \<or> live s b" by (auto simp: live_def t p split: if_splits)
  next
    assume "b = ?L \<or> live s b"
    then obtain j where "j < length (q_promises s)" "j = d \<and> b = ?L \<or> j \<noteq> d \<and> p_pending (prom s j) = Some b"
      using d None unfolding live_def by (metis option.distinct(1))
    then show "live ?t b" unfolding live_def t(1) p by auto
  qed
  have ns: "\<not> p_scheduled (prom s d)" using i(2) [OF d] None by blast
  have nl: "\<not> live s ?L" using ia(1) by (auto simp: live_def)
  show ?thesis
  proof (rule q_invI)
    show "inv_arrays ?t"
    proof (rule inv_arraysI, goal_cases)
      case (1 j b)
      then show ?case using ia(1) [of j b] by (cases "j = d") (simp_all add: t p less_SucI)
    next
      case (2 j j' b)
      then show ?case using ia(2) [of j j' b] ia(1) [of j b] ia(1) [of j' b]
        by (cases "j = d"; cases "j' = d") (auto simp: t p)
    next
      case 3
      show ?case using ia(3) new(1) by (auto simp: t)
    next
      case (4 f)
      then show ?case using ia(4) [of f] r by (auto simp: t)
    qed
    show "inv_ticks (Some d) ?t"
    proof (rule inv_ticksI, goal_cases)
      case (1 j)
      then show ?case using i(1-3) [of j] ns by (cases "j = d") (simp_all add: t p)
    next
      case (2 j)
      then show ?case using i(4,5) [of j] by (cases "j = d") (simp_all add: t p)
    next
      case (3 b w)
      then show ?case using i(6) [of b w] by (simp add: t less_SucI)
    next
      case 4
      show ?case using i(7) by (simp add: t)
    next
      case (5 j)
      then show ?case using i(8) [of j] by (cases "j = d") (simp_all add: t p)
    qed
    show "inv_runs es ?t"
    proof (rule inv_runsI)
      fix b f assume fb: "b < length (q_arrays ?t)" "f \<in> set (q_arrays ?t ! b)"
      then show "e_result f \<in> set (runs ?t) \<longleftrightarrow> \<not> live ?t b \<and> e_result f \<notin> e_result ` set es"
        using ir(3) [of b f] new(2) nl unfolding t l by (cases "b = ?L") (auto simp: nth_append)
      assume "live ?t b"
      then show "e_result f \<notin> e_result ` set es" using ir(4) [of b f] fb new(3) nl unfolding t l
        by (cases "b = ?L") (auto simp: nth_append)
    qed (use ir(1,2) t in auto)
    show "inv_then ?t"
    proof (rule inv_thenI)
      fix j q assume "LThen j q \<in> set (q_log ?t)"
      then consider (old) "LThen j q \<in> set (q_log s)" | (new) "j = d" "q = e_result e" unfolding t by auto
      then show "j < length (q_promises ?t) \<and> (\<exists>b < length (q_arrays ?t). q \<in> e_result ` set (q_arrays ?t ! b) \<and>
        (p_pending (prom ?t j) = Some b \<or> \<not> live ?t b \<and> p_status (prom ?t j) > 0))"
      proof cases
        case old
        from inv_thenD [OF q_invD(4) [OF assms(2)] old] obtain b where b: "j < length (q_promises s)"
          "b < ?L" "q \<in> e_result ` set (q_arrays s ! b)"
          "p_pending (prom s j) = Some b \<or> \<not> live s b \<and> p_status (prom s j) > 0" .
        then show ?thesis using None by (intro conjI exI [of _ b]) (auto simp: t p l nth_append)
      next
        case new
        then show ?thesis using d by (intro conjI exI [of _ ?L]) (auto simp: t p)
      qed
    qed
  qed
qed

lemma q_inv_push:
  assumes "q_inv None es s" "d < length (q_promises s)" "e_result e < length (q_promises s)"
    and "e_result e \<notin> e_result ` set (concat (q_arrays s))" "e_result e \<notin> set (runs s)" "e_result e \<notin> e_result ` set es"
  shows "q_inv (Some d) es (q_logged [LThen d (e_result e)] (push_pending d e s))"
  using q_inv_push_old [OF _ assms] q_inv_push_new [OF _ assms] by (cases "p_pending (prom s d)") simp_all

lemma push_simps [simp]:
  "d < length (q_promises s) \<Longrightarrow> p_status (prom (push_pending d e s) j) = p_status (prom s j)"
  "length (q_promises (push_pending d e s)) = length (q_promises s)"
  by (simp_all add: push_pending_def prom_upd split: option.split)

lemma logged_simps [simp]: "q_promises (q_logged fs s) = q_promises s" "q_arrays (q_logged fs s) = q_arrays s"
  "q_flags (q_logged fs s) = q_flags s" "q_ticks (q_logged fs s) = q_ticks s" "q_log (q_logged fs s) = q_log s @ fs"
  by (simp_all add: q_logged_def)

lemma q_inv_then:
  assumes q: "q_inv None es s" and d: "d < length (q_promises s)"
  shows "q_inv None es (snd (q_then d f r p s))"
proof (cases "f = None \<and> r = None \<and> p = None")
  case True
  with q show ?thesis by (simp add: q_then_def)
next
  case False
  let ?n = "length (q_promises s)" and ?s1 = "snd (q_defer s)"
  let ?e = "\<lparr>e_result = ?n, e_onFulfilled = f, e_onRejected = r, e_progressBack = p\<rparr>"
  let ?s2 = "q_logged [LThen d ?n] (push_pending d ?e ?s1)"
  note ia = inv_arraysD(4) [OF q_invD(1) [OF q]] and ir = inv_runsD(2) [OF q_invD(3) [OF q]]
  have "q_inv (Some d) es (q_logged [LThen d (e_result ?e)] (push_pending d ?e ?s1))"
  proof (rule q_inv_push [OF q_inv_defer [OF q]])
    show "e_result ?e \<notin> e_result ` set (concat (q_arrays ?s1))" using ia by fastforce
    show "e_result ?e \<notin> set (runs ?s1)" "e_result ?e \<notin> e_result ` set es" using ir by fastforce+
  qed (use d in simp_all)
  then have i: "q_inv (Some d) es ?s2" by simp
  have "q_inv None es (if p_status (prom ?s2 d) > 0 then scheduleProcessQueue d ?s2 else ?s2)"
    using q_inv_schedule [OF i] q_inv_exempt [OF i] d by simp
  moreover have "snd (q_then d f r p s) = (if p_status (prom ?s2 d) > 0 then scheduleProcessQueue d ?s2 else ?s2)"
    unfolding q_then_def if_not_P [OF False] by (simp add: Let_def split_beta)
  ultimately show ?thesis by simp
qed

lemma q_inv_resolve_now:
  assumes "q_inv None es s" "d < length (q_promises s)"
    and "case v of QVal _ \<Rightarrow> True | QPromise p \<Rightarrow> p < length (q_promises s) \<and> p_status (prom s d) \<le> 0"
  shows "q_inv None es (d_resolve_now d v s)"
proof (cases v)
  case (QVal x)
  with assms show ?thesis by (simp add: d_resolve_now_def q_inv_settle q_inv_flags)
next
  case (QPromise p)
  let ?s1 = "s\<lparr>q_flags := q_flags s @ [False]\<rparr>"
  have "q_inv None es (upd_promise d (p_status_update (\<lambda>_. - 1)) ?s1)"
    using assms QPromise by (intro q_inv_adopt) (simp_all add: q_inv_flags)
  with QPromise assms show ?thesis by (simp add: d_resolve_now_def q_inv_then Let_def)
qed

lemma q_inv_notify: "q_inv None es s \<Longrightarrow> d < length (q_promises s) \<Longrightarrow> q_inv None es (d_notify d v s)"
  using inv_arraysD(1) [OF q_invD(1)] by (auto simp: d_notify_def intro!: q_inv_notify_tick split: option.split)

section \<open>Adoption\<close>

text \<open>
  A promise resolved with another one has status -1 until a function of \<^verbatim>\<open>callOnce\<close> settles it. These
  functions do not look at the status; the flag they share is what keeps them from settling it twice.
\<close>

definition handlers :: "entry \<Rightarrow> handler set" where
  "handlers e = {h. e_onFulfilled e = Some h \<or> e_onRejected e = Some h \<or> e_progressBack e = Some h}"

definition adoptions :: "entry set \<Rightarrow> (nat \<times> nat) set" where
  "adoptions E = {(d, f). \<exists>e \<in> E. HResolve d f \<in> handlers e \<or> HReject d f \<in> handlers e}"

definition all_entries :: "q_state \<Rightarrow> entry set" where
  "all_entries s = set (concat (q_arrays s))"

definition adopt_ok :: "q_state \<Rightarrow> entry set \<Rightarrow> bool" where
  "adopt_ok s E \<longleftrightarrow>
     (\<forall>(d, f) \<in> adoptions E. d < length (q_promises s) \<and> f < length (q_flags s) \<and>
        (\<not> q_flags s ! f \<longrightarrow> p_status (prom s d) = - 1)) \<and>
     (\<forall>e \<in> E. \<forall>d. HNotify d \<in> handlers e \<longrightarrow> d < length (q_promises s)) \<and>
     (\<forall>d f f'. (d, f) \<in> adoptions E \<longrightarrow> (d, f') \<in> adoptions E \<longrightarrow> \<not> q_flags s ! f \<longrightarrow> \<not> q_flags s ! f' \<longrightarrow> f = f')"

abbreviation inv_adopt :: "q_state \<Rightarrow> bool" where
  "inv_adopt s \<equiv> adopt_ok s (all_entries s)"

lemma adopt_okI:
  assumes "\<And>d f. (d, f) \<in> adoptions E \<Longrightarrow> d < length (q_promises s) \<and> f < length (q_flags s)"
    and "\<And>d f. (d, f) \<in> adoptions E \<Longrightarrow> \<not> q_flags s ! f \<Longrightarrow> p_status (prom s d) = - 1"
    and "\<And>e d. e \<in> E \<Longrightarrow> HNotify d \<in> handlers e \<Longrightarrow> d < length (q_promises s)"
    and "\<And>d f f'. (d, f) \<in> adoptions E \<Longrightarrow> (d, f') \<in> adoptions E \<Longrightarrow> \<not> q_flags s ! f \<Longrightarrow> \<not> q_flags s ! f' \<Longrightarrow> f = f'"
  shows "adopt_ok s E"
  unfolding adopt_ok_def using assms by blast

lemma adopt_okD:
  assumes "adopt_ok s E"
  shows "(d, f) \<in> adoptions E \<Longrightarrow> d < length (q_promises s)" and "(d, f) \<in> adoptions E \<Longrightarrow> f < length (q_flags s)"
    and "(d, f) \<in> adoptions E \<Longrightarrow> \<not> q_flags s ! f \<Longrightarrow> p_status (prom s d) = - 1"
    and "e \<in> E \<Longrightarrow> HNotify d \<in> handlers e \<Longrightarrow> d < length (q_promises s)"
    and "(d, f) \<in> adoptions E \<Longrightarrow> (d, f') \<in> adoptions E \<Longrightarrow> \<not> q_flags s ! f \<Longrightarrow> \<not> q_flags s ! f' \<Longrightarrow> f = f'"
  using assms unfolding adopt_ok_def by blast+

lemma adopt_mono:
  assumes "adopt_ok s E" "length (q_promises s) \<le> length (q_promises t)" "length (q_flags s) \<le> length (q_flags t)"
    and "\<And>d f. (d, f) \<in> adoptions E \<Longrightarrow> q_flags s ! f \<Longrightarrow> q_flags t ! f"
    and "\<And>d f. (d, f) \<in> adoptions E \<Longrightarrow> \<not> q_flags t ! f \<Longrightarrow> p_status (prom t d) = p_status (prom s d)"
  shows "adopt_ok t E"
proof (rule adopt_okI)
  fix d f assume a: "(d, f) \<in> adoptions E"
  show "d < length (q_promises t) \<and> f < length (q_flags t)" using adopt_okD(1,2) [OF assms(1) a] assms(2,3) by simp
  assume "\<not> q_flags t ! f"
  then show "p_status (prom t d) = - 1" using adopt_okD(3) [OF assms(1) a] assms(4,5) [OF a] by auto
next
  fix e d assume "e \<in> E" "HNotify d \<in> handlers e"
  then show "d < length (q_promises t)" using adopt_okD(4) [OF assms(1)] assms(2) by force
next
  fix d f f' assume "(d, f) \<in> adoptions E" "(d, f') \<in> adoptions E" "\<not> q_flags t ! f" "\<not> q_flags t ! f'"
  then show "f = f'" using adopt_okD(5) [OF assms(1)] assms(4) by blast
qed

lemma adoptions_insert: "adoptions (insert e E) = adoptions {e} \<union> adoptions E"
  by (auto simp: adoptions_def)

text \<open>What an operation leaves alone: settled promises and the entries there are.\<close>

definition keeps :: "q_state \<Rightarrow> q_state \<Rightarrow> bool" where
  "keeps s t \<longleftrightarrow> length (q_promises s) \<le> length (q_promises t) \<and>
     (\<forall>d < length (q_promises s). p_status (prom s d) > 0 \<longrightarrow>
        p_status (prom t d) = p_status (prom s d) \<and> p_value (prom t d) = p_value (prom s d)) \<and>
     all_entries s \<subseteq> all_entries t"

lemma keeps_refl [simp]: "keeps s s"
  by (simp add: keeps_def)

lemma keeps_trans: "keeps s t \<Longrightarrow> keeps t u \<Longrightarrow> keeps s u"
  unfolding keeps_def by (metis le_trans order_less_le_trans subset_trans)

lemma keepsI:
  "length (q_promises s) \<le> length (q_promises t) \<Longrightarrow>
   (\<And>d. d < length (q_promises s) \<Longrightarrow> p_status (prom s d) > 0 \<Longrightarrow>
      p_status (prom t d) = p_status (prom s d) \<and> p_value (prom t d) = p_value (prom s d)) \<Longrightarrow>
   all_entries s \<subseteq> all_entries t \<Longrightarrow> keeps s t"
  by (simp add: keeps_def)

lemma schedule_simps [simp]:
  "length (q_promises (scheduleProcessQueue d s)) = length (q_promises s)" "q_arrays (scheduleProcessQueue d s) = q_arrays s"
  "q_flags (scheduleProcessQueue d s) = q_flags s" "q_log (scheduleProcessQueue d s) = q_log s"
  "d < length (q_promises s) \<Longrightarrow> p_status (prom (scheduleProcessQueue d s) j) = p_status (prom s j)"
  "d < length (q_promises s) \<Longrightarrow> p_value (prom (scheduleProcessQueue d s) j) = p_value (prom s j)"
  by (auto simp: scheduleProcessQueue_def prom_upd)

lemma push_more [simp]:
  "q_flags (push_pending d e s) = q_flags s" "q_log (push_pending d e s) = q_log s"
  "d < length (q_promises s) \<Longrightarrow> p_value (prom (push_pending d e s) j) = p_value (prom s j)"
  by (simp_all add: push_pending_def prom_upd split: option.split)

lemma all_entries_simps [simp]:
  "all_entries (scheduleProcessQueue d s) = all_entries s" "all_entries (q_logged fs s) = all_entries s"
  "all_entries (upd_promise d f s) = all_entries s" "all_entries (snd (q_defer s)) = all_entries s"
  "all_entries (s\<lparr>q_flags := fl\<rparr>) = all_entries s" "all_entries (s\<lparr>q_ticks := ts\<rparr>) = all_entries s"
  by (simp_all add: all_entries_def)

lemma all_entries_push:
  "inv_arrays s \<Longrightarrow> d < length (q_promises s) \<Longrightarrow> all_entries (push_pending d e s) = insert e (all_entries s)"
  using inv_arraysD(1) [of s d] unfolding all_entries_def push_pending_def
  by (cases "p_pending (prom s d)") (auto simp: concat_push(1) simp del: set_concat)

text \<open>What \<^verbatim>\<open>then\<close> does to the parts that adoption speaks of.\<close>

lemma then_facts:
  assumes "inv_arrays s" "d < length (q_promises s)" "\<not> (f = None \<and> r = None \<and> p = None)"
  defines "t \<equiv> snd (q_then d f r p s)"
  shows "length (q_promises t) = Suc (length (q_promises s))" "q_flags t = q_flags s"
    and "j < length (q_promises s) \<Longrightarrow> p_status (prom t j) = p_status (prom s j)"
    and "j < length (q_promises s) \<Longrightarrow> p_value (prom t j) = p_value (prom s j)"
    and "all_entries t = insert \<lparr>e_result = length (q_promises s), e_onFulfilled = f, e_onRejected = r, e_progressBack = p\<rparr> (all_entries s)"
proof -
  let ?n = "length (q_promises s)" and ?s1 = "snd (q_defer s)"
  let ?e = "\<lparr>e_result = ?n, e_onFulfilled = f, e_onRejected = r, e_progressBack = p\<rparr>"
  let ?s2 = "q_logged [LThen d ?n] (push_pending d ?e ?s1)"
  have t: "t = (if p_status (prom ?s2 d) > 0 then scheduleProcessQueue d ?s2 else ?s2)"
    unfolding t_def q_then_def if_not_P [OF assms(3)] by (simp add: Let_def split_beta)
  have "inv_arrays ?s1" using assms(1) unfolding inv_arrays_def by (auto simp: less_Suc_eq)
  then have e: "all_entries ?s2 = insert ?e (all_entries s)" using assms(2) by (simp add: all_entries_push)
  show "length (q_promises t) = Suc ?n" "q_flags t = q_flags s" "all_entries t = insert ?e (all_entries s)"
    using e by (simp_all add: t)
  show "j < ?n \<Longrightarrow> p_status (prom t j) = p_status (prom s j)" "j < ?n \<Longrightarrow> p_value (prom t j) = p_value (prom s j)"
    using assms(2) by (simp_all add: t)
qed

subsection \<open>The adoption invariant is kept\<close>

lemma settle_facts:
  assumes "d < length (q_promises s)"
  shows "length (q_promises (settle d st v s)) = length (q_promises s)" "q_flags (settle d st v s) = q_flags s"
    and "all_entries (settle d st v s) = all_entries s"
    and "p_status (prom (settle d st v s) j) = (if j = d then st else p_status (prom s j))"
    and "j \<noteq> d \<Longrightarrow> p_value (prom (settle d st v s) j) = p_value (prom s j)"
  using assms by (simp_all add: settle_def prom_upd)

lemma adopt_settle:
  assumes "inv_adopt s" "d < length (q_promises s)" "\<And>f. (d, f) \<in> adoptions (all_entries s) \<Longrightarrow> q_flags s ! f"
  shows "inv_adopt (settle d st v s)"
proof -
  note f = settle_facts [OF assms(2)]
  have "adopt_ok (settle d st v s) (all_entries s)"
  proof (rule adopt_mono [OF assms(1)])
    fix j g assume "(j, g) \<in> adoptions (all_entries s)" "\<not> q_flags (settle d st v s) ! g"
    then show "p_status (prom (settle d st v s) j) = p_status (prom s j)" using assms(3) [of g] by (auto simp: f)
  qed (simp_all add: f)
  then show ?thesis by (simp add: f)
qed

lemma keeps_settle:
  "d < length (q_promises s) \<Longrightarrow> p_status (prom s d) \<le> 0 \<Longrightarrow> keeps s (settle d st v s)"
  by (rule keepsI) (auto simp: settle_facts)

lemma adopt_unset:
  "inv_adopt s \<Longrightarrow> p_status (prom s d) = 0 \<Longrightarrow> (d, f) \<in> adoptions (all_entries s) \<Longrightarrow> q_flags s ! f"
  using adopt_okD(3) [of s "all_entries s" d f] by auto

fun plain :: "handler \<Rightarrow> bool" where
  "plain (HResolve d f) = False"
| "plain (HReject d f) = False"
| "plain (HNotify d) = False"
| "plain _ = True"

lemma plain_user [simp]: "pred_option plain (map_option HUser f)"
  by (cases f) simp_all

lemma adopt_then_plain:
  assumes "inv_adopt s" "inv_arrays s" "d < length (q_promises s)" "pred_option plain f" "pred_option plain r" "pred_option plain p"
  shows "inv_adopt (snd (q_then d f r p s))" (is "inv_adopt ?t")
proof (cases "f = None \<and> r = None \<and> p = None")
  case True
  with assms show ?thesis by (simp add: q_then_def)
next
  case False
  let ?e = "\<lparr>e_result = length (q_promises s), e_onFulfilled = f, e_onRejected = r, e_progressBack = p\<rparr>"
  note t = then_facts [OF assms(2,3) False]
  have pl: "h \<in> handlers ?e \<Longrightarrow> plain h" for h using assms(4-6) by (auto simp: handlers_def)
  have h: "adoptions {?e} = {}" "HNotify j \<notin> handlers ?e" for j
    using pl [of "HResolve _ _"] pl [of "HReject _ _"] pl [of "HNotify _"] by (auto simp: adoptions_def)
  have "adopt_ok ?t (all_entries s)"
    using adopt_okD(1) [OF assms(1)] by (intro adopt_mono [OF assms(1)]) (simp_all add: t)
  moreover have "adoptions (insert ?e (all_entries s)) = adoptions (all_entries s)" by (subst adoptions_insert) (simp add: h)
  ultimately have "adopt_ok ?t (insert ?e (all_entries s))" unfolding adopt_ok_def using h(2) by simp
  then show ?thesis by (simp add: t)
qed

lemma keeps_then: "inv_arrays s \<Longrightarrow> d < length (q_promises s) \<Longrightarrow> keeps s (snd (q_then d f r p s))"
proof (cases "f = None \<and> r = None \<and> p = None")
  case False
  assume "inv_arrays s" "d < length (q_promises s)"
  then show ?thesis using then_facts [OF _ _ False] by (intro keepsI) auto
qed (simp add: q_then_def)

text \<open>Resolving with a promise: the promise takes status -1 and the new entry carries a flag nobody else has.\<close>

lemma adopt_flag_grow:
  assumes "inv_adopt s" shows "inv_adopt (s\<lparr>q_flags := q_flags s @ [False]\<rparr>)"
  unfolding all_entries_simps
  by (rule adopt_mono [OF assms]) (use adopt_okD(2) [OF assms] in \<open>simp_all add: nth_append\<close>)

lemma inv_arrays_follow:
  assumes "inv_arrays s" "d < length (q_promises s)"
  shows "inv_arrays (upd_promise d (p_status_update (\<lambda>_. - 1)) (s\<lparr>q_flags := fl\<rparr>))"
proof -
  have "inv_arrays (s\<lparr>q_flags := fl\<rparr>)" using assms(1) by (rule inv_arrays_cong [THEN iffD1, rotated -1]) simp_all
  then show ?thesis by (subst inv_upd(1)) (simp_all add: assms(2))
qed

lemma adopt_follow:
  assumes "inv_adopt s" "inv_arrays s" "d < length (q_promises s)" "q < length (q_promises s)" "p_status (prom s d) = 0"
  shows "inv_adopt (d_resolve_now d (QPromise q) s)" (is "inv_adopt ?t")
proof -
  let ?f = "length (q_flags s)" and ?n = "length (q_promises s)"
  let ?u = "upd_promise d (p_status_update (\<lambda>_. - 1)) (s\<lparr>q_flags := q_flags s @ [False]\<rparr>)"
  let ?e = "\<lparr>e_result = ?n, e_onFulfilled = Some (HResolve d ?f), e_onRejected = Some (HReject d ?f),
    e_progressBack = Some (HNotify d)\<rparr>"
  have q: "q < length (q_promises ?u)" "\<not> (Some (HResolve d ?f) = None \<and> Some (HReject d ?f) = None \<and> Some (HNotify d) = None)"
    using assms(4) by simp_all
  note t = then_facts [OF inv_arrays_follow [OF assms(2,3)] q]
  have t': "?t = snd (q_then q (Some (HResolve d ?f)) (Some (HReject d ?f)) (Some (HNotify d)) ?u)"
    by (simp add: d_resolve_now_def Let_def)
  have fl: "q_flags ?t = q_flags s @ [False]" and len: "length (q_promises ?t) = Suc ?n"
    and ent: "all_entries ?t = insert ?e (all_entries s)"
    unfolding t' t by simp_all
  have st: "j < ?n \<Longrightarrow> p_status (prom ?t j) = (if j = d then - 1 else p_status (prom s j))" for j
    using t(3) [of j] assms(3) unfolding t' by (simp add: prom_upd)
  have h: "adoptions {?e} = {(d, ?f)}" by (auto simp: adoptions_def handlers_def)
  have ad: "adoptions (all_entries ?t) = insert (d, ?f) (adoptions (all_entries s))"
    unfolding ent by (subst adoptions_insert) (simp add: h)
  note o = adopt_okD [OF assms(1)] and z = adopt_unset [OF assms(1,5)]
  have fn: "(j, g) \<in> adoptions (all_entries s) \<Longrightarrow> q_flags ?t ! g = q_flags s ! g" for j g
    using o(2) [of j g] unfolding fl by (simp add: nth_append)
  show ?thesis
  proof (rule adopt_okI, goal_cases)
    case (1 j g)
    then consider "j = d" "g = ?f" | "(j, g) \<in> adoptions (all_entries s)" unfolding ad by blast
    then show ?case using o(1,2) [of j g] assms(3) unfolding fl len by cases auto
  next
    case (2 j g)
    then consider "j = d" | "j \<noteq> d" "(j, g) \<in> adoptions (all_entries s)" unfolding ad by blast
    then show ?case using o(1,3) [of j g] fn [of j g] 2(2) st [of j] assms(3) by cases simp_all
  next
    case (3 e j)
    then consider "e = ?e" | "e \<in> all_entries s" unfolding ent by blast
    then show ?case using o(4) [of e j] 3(2) assms(3) unfolding len by cases (simp_all add: handlers_def)
  next
    case (4 j g g')
    then have "g = ?f \<and> j = d \<or> (j, g) \<in> adoptions (all_entries s)" "g' = ?f \<and> j = d \<or> (j, g') \<in> adoptions (all_entries s)"
      unfolding ad by blast+
    then show ?case using o(5) [of j g g'] z fn [of j g] fn [of j g'] 4(3,4) by metis
  qed
qed

lemma keeps_follow:
  assumes "inv_arrays s" "d < length (q_promises s)" "q < length (q_promises s)" "p_status (prom s d) \<le> 0"
  shows "keeps s (d_resolve_now d (QPromise q) s)"
proof -
  let ?s1 = "s\<lparr>q_flags := q_flags s @ [False]\<rparr>"
  let ?u = "upd_promise d (p_status_update (\<lambda>_. - 1)) ?s1"
  have "inv_arrays ?u" by (rule inv_arrays_follow [OF assms(1,2)])
  then have "keeps ?u (d_resolve_now d (QPromise q) s)"
    using keeps_then [of ?u q] assms(3) by (simp add: d_resolve_now_def Let_def)
  moreover have "keeps s ?u" using assms(2,4) by (intro keepsI) (auto simp: prom_upd)
  ultimately show ?thesis by (rule keeps_trans [rotated])
qed

section \<open>Every operation\<close>

text \<open>
  \<open>good es s t\<close>: both invariants hold of \<open>t\<close>, and \<open>t\<close> keeps what \<open>s\<close> has settled.
\<close>

definition good :: "entry list \<Rightarrow> q_state \<Rightarrow> q_state \<Rightarrow> bool" where
  "good es s t \<longleftrightarrow> q_inv None es t \<and> inv_adopt t \<and> keeps s t"

abbreviation sound :: "entry list \<Rightarrow> q_state \<Rightarrow> bool" where
  "sound es s \<equiv> good es s s"

lemma goodI: "q_inv None es t \<Longrightarrow> inv_adopt t \<Longrightarrow> keeps s t \<Longrightarrow> good es s t"
  by (simp add: good_def)

lemma good_trans: "good es s t \<Longrightarrow> good es' t u \<Longrightarrow> good es' s u"
  unfolding good_def using keeps_trans by blast

lemma good_sound: "good es s t \<Longrightarrow> sound es t"
  by (simp add: good_def)

lemma good_grows: "good es s t \<Longrightarrow> length (q_promises s) \<le> length (q_promises t)"
  "good es s t \<Longrightarrow> e \<in> all_entries s \<Longrightarrow> e \<in> all_entries t"
  by (auto simp: good_def keeps_def)

lemma soundD:
  assumes "sound es s" shows "q_inv None es s" "inv_adopt s" "inv_arrays s"
  using assms by (simp_all add: good_def q_inv_def)

lemma adopt_same:
  assumes "inv_adopt s" "q_promises t = q_promises s" "q_flags t = q_flags s" "q_arrays t = q_arrays s"
  shows "inv_adopt t"
proof -
  have "all_entries t = all_entries s" using assms(4) by (simp add: all_entries_def)
  then show ?thesis using assms(1-3) unfolding adopt_ok_def by simp
qed

lemma keeps_same: "q_promises t = q_promises s \<Longrightarrow> q_arrays t = q_arrays s \<Longrightarrow> keeps s t"
  by (simp add: keeps_def all_entries_def)

lemma good_settle:
  assumes "sound es s" "d < length (q_promises s)" "st > 0" "p_status (prom s d) \<le> 0"
    and "\<And>f. (d, f) \<in> adoptions (all_entries s) \<Longrightarrow> q_flags s ! f"
  shows "good es s (settle d st v s)"
  using soundD [OF assms(1)] assms(2-5) by (intro goodI q_inv_settle adopt_settle keeps_settle)

lemma good_flag_grow: "sound es s \<Longrightarrow> good es s (s\<lparr>q_flags := q_flags s @ [False]\<rparr>)"
  using soundD(1) soundD(2) [THEN adopt_flag_grow] by (intro goodI) (simp_all add: q_inv_flags keeps_same)

lemma good_resolve_now:
  assumes "sound es s" "d < length (q_promises s)" "p_status (prom s d) \<le> 0"
    and "\<And>f. (d, f) \<in> adoptions (all_entries s) \<Longrightarrow> q_flags s ! f"
  shows "good es s (d_resolve_now d (QVal v) s)"
proof -
  let ?t = "s\<lparr>q_flags := q_flags s @ [False]\<rparr>"
  have "good es ?t (settle d 1 v ?t)"
  proof (rule good_settle [OF good_sound [OF good_flag_grow [OF assms(1)]]])
    fix f assume "(d, f) \<in> adoptions (all_entries ?t)"
    then have a: "(d, f) \<in> adoptions (all_entries s)" by simp
    then show "q_flags ?t ! f" using assms(4) [OF a] adopt_okD(2) [OF soundD(2) [OF assms(1)] a] by (simp add: nth_append)
  qed (use assms in simp_all)
  then show ?thesis using good_trans [OF good_flag_grow [OF assms(1)]] by (simp add: d_resolve_now_def Let_def)
qed

abbreviation qval_ok :: "q_state \<Rightarrow> qval \<Rightarrow> bool" where
  "qval_ok s v \<equiv> (case v of QVal _ \<Rightarrow> True | QPromise p \<Rightarrow> exists_promise s p)"

lemma good_resolve:
  assumes "sound es s" "d < length (q_promises s)" "qval_ok s v"
  shows "good es s (d_resolve d v s)"
proof (cases "p_status (prom s d) = 0")
  case z: True
  note u = adopt_unset [OF soundD(2) [OF assms(1)] z] and so = soundD [OF assms(1)]
  show ?thesis
  proof (cases "v = QPromise d")
    case True
    then show ?thesis using z u good_settle [OF assms(1,2), of 2] by (simp add: d_resolve_def d_reject_now_def)
  next
    case ne: False
    show ?thesis
    proof (cases v)
      case (QVal x)
      then show ?thesis using z u good_resolve_now [OF assms(1,2), of x] by (simp add: d_resolve_def)
    next
      case (QPromise q)
      then have q: "q < length (q_promises s)" using assms(3) by (simp add: exists_promise_def)
      have "good es s (d_resolve_now d (QPromise q) s)"
        using so assms(2) q z by (intro goodI q_inv_resolve_now adopt_follow keeps_follow) simp_all
      then show ?thesis using z ne QPromise by (simp add: d_resolve_def)
    qed
  qed
qed (simp add: d_resolve_def assms(1))

lemma good_reject: "sound es s \<Longrightarrow> d < length (q_promises s) \<Longrightarrow> good es s (d_reject d v s)"
  using adopt_unset [OF soundD(2)] by (auto simp: d_reject_def d_reject_now_def intro!: good_settle)

lemma notify_same: "q_promises (d_notify d v s) = q_promises s" "q_flags (d_notify d v s) = q_flags s"
  "q_arrays (d_notify d v s) = q_arrays s"
  by (simp_all add: d_notify_def split: option.split)

lemma good_same:
  "sound es s \<Longrightarrow> q_inv None es t \<Longrightarrow> q_promises t = q_promises s \<Longrightarrow> q_flags t = q_flags s \<Longrightarrow> q_arrays t = q_arrays s \<Longrightarrow> good es s t"
  by (rule goodI, assumption, rule adopt_same [OF soundD(2)], assumption+, rule keeps_same)

lemma good_notify: "sound es s \<Longrightarrow> d < length (q_promises s) \<Longrightarrow> good es s (d_notify d v s)"
  by (rule good_same) (auto simp: notify_same intro: q_inv_notify soundD(1))

lemma good_logged:
  "sound es s \<Longrightarrow> log_runs fs = [] \<Longrightarrow> (\<And>d r. LThen d r \<notin> set fs) \<Longrightarrow> good es s (q_logged fs s)"
  by (rule good_same) (simp_all add: q_inv_logged soundD(1))

lemma good_defer:
  assumes "sound es s" shows "good es s (snd (q_defer s))"
proof (rule goodI)
  show "q_inv None es (snd (q_defer s))" by (rule q_inv_defer [OF soundD(1) [OF assms]])
  show "inv_adopt (snd (q_defer s))" unfolding all_entries_simps
    by (rule adopt_mono [OF soundD(2) [OF assms]]) (use adopt_okD(1) [OF soundD(2) [OF assms]] in simp_all)
qed (rule keepsI; simp)

lemma good_then:
  "sound es s \<Longrightarrow> d < length (q_promises s) \<Longrightarrow> pred_option plain f \<Longrightarrow> pred_option plain r \<Longrightarrow> pred_option plain p \<Longrightarrow>
     good es s (snd (q_then d f r p s))"
  using soundD [of es s] by (intro goodI q_inv_then adopt_then_plain keeps_then)

lemma good_make: "sound es s \<Longrightarrow> good es s (snd (makePromise v resolved s))"
proof -
  assume "sound es s"
  note g = good_defer [OF this]
  have n: "length (q_promises s) < length (q_promises (snd (q_defer s)))" by simp
  show ?thesis using good_trans [OF g good_resolve [OF good_sound [OF g] n]] good_trans [OF g good_reject [OF good_sound [OF g] n]]
    by (simp add: makePromise_def split_beta)
qed

lemma good_alls: "sound es s \<Longrightarrow> good es s (s\<lparr>q_alls := cs\<rparr>)"
  by (rule good_same) (simp_all add: q_inv_alls soundD(1))

lemma qval_ok_grows: "good es s t \<Longrightarrow> qval_ok s v \<Longrightarrow> qval_ok t v"
  using good_grows(1) [of es s t] by (auto simp: exists_promise_def split: qval.splits)

lemma good_when:
  assumes "sound es s" "qval_ok s v"
  shows "good es s (snd (q_when v None None None s))" "fst (q_when v None None None s) < length (q_promises (snd (q_when v None None None s)))"
proof -
  let ?n = "length (q_promises s)" and ?t = "snd (q_defer s)"
  note d = good_defer [OF assms(1)]
  have n: "?n < length (q_promises ?t)" by simp
  note g = good_resolve [OF good_sound [OF d] n qval_ok_grows [OF d assms(2)]]
  have w: "q_when v None None None s = (?n, d_resolve ?n v ?t)" by (simp add: q_when_def q_then_def split_beta)
  show "good es s (snd (q_when v None None None s))" using good_trans [OF d g] by (simp add: w)
  show "fst (q_when v None None None s) < length (q_promises (snd (q_when v None None None s)))"
    using n good_grows(1) [OF g] by (simp add: w)
qed

lemma good_all_each:
  assumes "sound es s" "qval_ok s (snd kv)" shows "good es s (all_each c kv s)"
proof -
  define s1 where "s1 = s\<lparr>q_alls := (q_alls s)[c := (q_alls s ! c)\<lparr>a_counter := a_counter (q_alls s ! c) + 1\<rparr>]\<rparr>"
  define s2 where "s2 = snd (q_when (snd kv) None None None s1)"
  have g1: "good es s s1" unfolding s1_def by (rule good_alls [OF assms(1)])
  note w = good_when [OF good_sound [OF g1] qval_ok_grows [OF g1 assms(2)], folded s2_def]
  have "good es s2 (all_each c kv s)"
    unfolding all_each_def Let_def split_beta s1_def [symmetric] s2_def [symmetric]
    by (rule good_then [OF good_sound [OF w(1)] w(2)]) simp_all
  then show ?thesis by (rule good_trans [OF good_trans [OF g1 w(1)]])
qed

lemma good_all_fold:
  "sound es s \<Longrightarrow> list_all (\<lambda>(k, v). qval_ok s v) ps \<Longrightarrow> good es s (fold (all_each c) ps s)"
proof (induction ps arbitrary: s)
  case (Cons kv ps)
  have g: "good es s (all_each c kv s)" using Cons.prems by (intro good_all_each) (auto simp: split_beta)
  have "list_all (\<lambda>(k, v). qval_ok (all_each c kv s) v) ps"
    using Cons.prems(2) qval_ok_grows [OF g] unfolding list_all_iff by auto
  then show ?case unfolding fold_simps by (intro good_trans [OF g] Cons.IH [OF good_sound [OF g]])
qed simp

lemma good_all:
  assumes "sound es s" "list_all (\<lambda>(k, v). qval_ok s v) ps" shows "good es s (snd (q_all isArr ps s))"
proof -
  let ?n = "length (q_promises s)"
  define s1 where "s1 = snd (q_defer s)"
  define c where "c = length (q_alls s1)"
  define s2 where "s2 = s1\<lparr>q_alls := q_alls s1 @
    [\<lparr>a_deferred = ?n, a_counter = 0, a_results = [], a_keys = map fst ps, a_isArray = isArr\<rparr>]\<rparr>"
  define s3 where "s3 = fold (all_each c) ps s2"
  have g1: "good es s s1" unfolding s1_def by (rule good_defer [OF assms(1)])
  have g2: "good es s s2" unfolding s2_def by (rule good_trans [OF g1 good_alls [OF good_sound [OF g1]]])
  have "list_all (\<lambda>(k, v). qval_ok s2 v) ps" using assms(2) qval_ok_grows [OF g2] unfolding list_all_iff by auto
  then have g3: "good es s2 s3" unfolding s3_def by (rule good_all_fold [OF good_sound [OF g2]])
  have "?n < length (q_promises s2)" by (simp add: s2_def s1_def)
  then have n: "?n < length (q_promises s3)" using good_grows(1) [OF g3] by linarith
  have "snd (q_all isArr ps s) = (if a_counter (q_alls s3 ! c) = 0 then d_resolve ?n (QVal (results_js (q_alls s3 ! c))) s3 else s3)"
    by (simp add: q_all_def split_beta Let_def s3_def s2_def s1_def c_def)
  then show ?thesis using good_trans [OF g2 g3] good_trans [OF good_trans [OF g2 g3] good_resolve [OF good_sound [OF g3] n]] by simp
qed

lemma good_op: "sound es s \<Longrightarrow> good es s (exec_op op s)"
proof (cases op)
  case (OThen d f r p)
  assume "sound es s"
  with OThen good_then show ?thesis by (simp add: exists_promise_def)
next
  case (OCatch d c)
  assume "sound es s"
  with OCatch good_then show ?thesis by (simp add: exists_promise_def q_catch_def)
next
  case (OFinally d c p)
  assume "sound es s"
  with OFinally good_then show ?thesis by (simp add: exists_promise_def q_finally_def)
qed (auto simp: exists_promise_def intro: good_defer good_all good_resolve good_reject good_notify)

lemma good_ops: "sound es s \<Longrightarrow> good es s (fold exec_op ops s)"
proof (induction ops arbitrary: s)
  case (Cons op ops)
  show ?case unfolding fold_simps
    by (rule good_trans [OF good_op [OF Cons.prems]]) (rule Cons.IH [OF good_sound [OF good_op [OF Cons.prems]]])
qed simp

text \<open>\<^verbatim>\<open>$q.reject\<close> and \<^verbatim>\<open>$q.when\<close> are sequences of these operations.\<close>

lemma q_reject_ops: "snd (q_reject v s) = fold exec_op [ODefer, OReject (length (q_promises s)) v] s"
  by (simp add: q_reject_def split_beta exists_promise_def)

lemma q_when_ops:
  assumes "sound es s" "qval_ok s v"
  shows "snd (q_when v (map_option HUser f) (map_option HUser r) (map_option HUser p) s) =
    fold exec_op [ODefer, OResolve (length (q_promises s)) v, OThen (length (q_promises s)) f r p] s"
proof -
  let ?n = "length (q_promises s)" and ?t = "snd (q_defer s)"
  note g = good_sound [OF good_defer [OF assms(1)]]
  have v: "qval_ok ?t v" using assms(2) by (auto simp: exists_promise_def split: qval.splits)
  have n: "?n < length (q_promises ?t)" by simp
  have "?n < length (q_promises (d_resolve ?n v ?t))" using n good_grows(1) [OF good_resolve [OF g n v]] by linarith
  then show ?thesis using v by (simp add: q_when_def split_beta exists_promise_def)
qed

section \<open>Handlers and entries\<close>

lemma set_flag_mono: "fl ! g \<Longrightarrow> fl[f := True] ! g"
  by (cases "g = f"; cases "f < length fl") (simp_all add: list_update_beyond)

lemma good_flag_set:
  assumes "sound es s"
  shows "good es s (s\<lparr>q_flags := (q_flags s)[f := True]\<rparr>)" (is "good es s ?t")
proof (rule goodI)
  show "q_inv None es ?t" using soundD(1) [OF assms] by (simp add: q_inv_flags)
  show "inv_adopt ?t" unfolding all_entries_simps
    by (rule adopt_mono [OF soundD(2) [OF assms]]) (simp_all add: set_flag_mono)
qed (simp add: keeps_same)

text \<open>
  A function of \<^verbatim>\<open>callOnce\<close> whose flag is not set finds its promise unsettled, and once it sets the flag no other
  function has that promise left to settle.
\<close>

lemma adoption_ready:
  assumes "sound es s" "(d, f) \<in> adoptions (all_entries s)" "\<not> q_flags s ! f"
  shows "d < length (q_promises s)" "p_status (prom s d) \<le> 0"
    and "(d, g) \<in> adoptions (all_entries s) \<Longrightarrow> (q_flags s)[f := True] ! g"
proof -
  note o = adopt_okD [OF soundD(2) [OF assms(1)]]
  show "d < length (q_promises s)" "p_status (prom s d) \<le> 0" using o(1,3) [OF assms(2)] assms(3) by simp_all
  assume g: "(d, g) \<in> adoptions (all_entries s)"
  show "(q_flags s)[f := True] ! g"
    using o(2) [OF assms(2)] o(5) [OF assms(2) g assms(3)] by (cases "g = f") auto
qed

lemma good_user_call:
  assumes "sound es s" shows "good es s (snd (user_call behave i v s))"
proof -
  have g: "good es s (q_logged [LCall i v] s)" by (rule good_logged [OF assms]) simp_all
  show ?thesis using good_trans [OF g good_ops [OF good_sound [OF g]]] by (simp add: user_call_def split_beta)
qed

lemma good_callback:
  assumes "sound es s" shows "good es s (snd (handleCallback behave v isResolved callback s))"
proof (cases callback)
  case None
  then show ?thesis using good_make [OF assms] by (simp add: handleCallback_def)
next
  case (Some i)
  obtain out u where c: "user_call behave i JUndef s = (out, u)" by (cases "user_call behave i JUndef s")
  have u: "good es s u" using good_user_call [OF assms, of behave i JUndef] c by simp
  have m: "good es s (snd (makePromise w b u))" for w b by (rule good_trans [OF u good_make [OF good_sound [OF u]]])
  have t: "q < length (q_promises u) \<Longrightarrow> good es s (snd (q_then q (Some (HMake v isResolved)) (Some HMakeError) None u))" for q
    using good_trans [OF u good_then [OF good_sound [OF u]]] by simp
  show ?thesis
  proof (cases out)
    case (Inl e)
    then show ?thesis using m Some c by (simp add: handleCallback_def)
  next
    case (Inr w)
    then show ?thesis using m t Some c by (cases w) (simp_all add: handleCallback_def exists_promise_def)
  qed
qed

lemma good_all_value:
  assumes "sound es s" shows "good es s (all_value c key v s)"
proof -
  note g = good_alls [OF assms]
  show ?thesis using g good_trans [OF g good_resolve [OF good_sound [OF g]]]
    by (simp add: all_value_def split_beta Let_def exists_promise_def)
qed

lemma good_handler:
  assumes s: "sound es s" and h: "e \<in> all_entries s" "h \<in> handlers e"
  shows "good es s (snd (call_handler behave h v s))"
proof (cases h)
  case (HUser i)
  then show ?thesis using good_user_call [OF s] by simp
next
  case (HFinally b c)
  then show ?thesis using good_callback [OF s] by (simp add: split_beta)
next
  case (HMake w b)
  then show ?thesis using good_make [OF s] by (simp add: split_beta)
next
  case HMakeError
  then show ?thesis using good_make [OF s] by (simp add: split_beta)
next
  case (HAll c key)
  then show ?thesis using good_all_value [OF s] by simp
next
  case (HAllError c key)
  then show ?thesis using good_reject [OF s] s by (simp add: all_error_def exists_promise_def)
next
  case (HResolve d f)
  then have a: "(d, f) \<in> adoptions (all_entries s)" using h by (auto simp: adoptions_def)
  let ?t = "s\<lparr>q_flags := (q_flags s)[f := True]\<rparr>"
  have "\<not> q_flags s ! f \<Longrightarrow> good es ?t (d_resolve_now d (QVal v) ?t)"
    using adoption_ready [OF s a] by (intro good_resolve_now [OF good_sound [OF good_flag_set [OF s]]]) simp_all
  then show ?thesis using HResolve s good_trans [OF good_flag_set [OF s, of f]] by auto
next
  case (HReject d f)
  then have a: "(d, f) \<in> adoptions (all_entries s)" using h by (auto simp: adoptions_def)
  let ?t = "s\<lparr>q_flags := (q_flags s)[f := True]\<rparr>"
  have "\<not> q_flags s ! f \<Longrightarrow> good es ?t (d_reject_now d v ?t)"
    unfolding d_reject_now_def
    using adoption_ready [OF s a] by (intro good_settle [OF good_sound [OF good_flag_set [OF s]]]) simp_all
  then show ?thesis using HReject s good_trans [OF good_flag_set [OF s, of f]] by auto
next
  case (HNotify d)
  then have "d < length (q_promises s)" using adopt_okD(4) [OF soundD(2) [OF s] h(1)] h(2) by blast
  then show ?thesis using HNotify good_notify [OF s] by simp
qed

lemma entry_result: "sound es s \<Longrightarrow> e \<in> all_entries s \<Longrightarrow> e_result e < length (q_promises s)"
  using inv_arraysD(4) [OF soundD(3)] unfolding all_entries_def by blast

lemma entry_array:
  assumes "e \<in> all_entries s" obtains a where "a < length (q_arrays s)" "e \<in> set (q_arrays s ! a)"
proof -
  from assms obtain xs where "xs \<in> set (q_arrays s)" "e \<in> set xs" unfolding all_entries_def by auto
  then show thesis using that by (metis in_set_conv_nth)
qed

lemma good_run:
  assumes s: "sound (e # es) s" and e: "e \<in> all_entries s" "e_result e \<notin> e_result ` set es"
  shows "good es s (q_logged [LRun (e_result e)] s)" (is "good es s ?t")
proof (rule goodI)
  note r = inv_runsD [OF q_invD(3) [OF soundD(1) [OF s]]] and q = q_invD [OF soundD(1) [OF s]]
  show "inv_adopt ?t" by (rule adopt_same [OF soundD(2) [OF s]]) simp_all
  show "keeps s ?t" by (simp add: keeps_same)
  have l: "live ?t b = live s b" for b by (rule live_cong) simp
  obtain a where a: "a < length (q_arrays s)" "e \<in> set (q_arrays s ! a)" using entry_array [OF e(1)] .
  show "q_inv None es ?t"
  proof (rule q_invI)
    show "inv_arrays ?t" using q(1) by (subst inv_arrays_cong [of _ s]) simp_all
    show "inv_ticks None ?t" using q(2) by (subst inv_ticks_cong [of _ s]) simp_all
    show "inv_then ?t" using q(4) by (subst inv_then_cong [of _ s]) simp_all
    show "inv_runs es ?t"
    proof (rule inv_runsI)
      show "distinct (runs ?t)" using r(1) r(3) [OF a] by simp
      fix p assume "p \<in> set (runs ?t) \<union> e_result ` set es"
      then show "p < length (q_promises ?t)" using r(2) [of p] by auto
    next
      fix b g assume b: "b < length (q_arrays ?t)" "g \<in> set (q_arrays ?t ! b)"
      then show "e_result g \<in> set (runs ?t) \<longleftrightarrow> \<not> live ?t b \<and> e_result g \<notin> e_result ` set es"
        using r(3,4) [of b g] e(2) unfolding l by (cases "e_result g = e_result e") auto
      assume "live ?t b"
      then show "e_result g \<notin> e_result ` set es" using r(4) [of b g] b unfolding l by simp
    qed
  qed
qed

lemma good_process_entry:
  assumes s: "sound (e # es) s" and e: "e \<in> all_entries s" "e_result e \<notin> e_result ` set es"
  shows "good es s (process_entry behave d e s)"
proof -
  let ?t = "q_logged [LRun (e_result e)] s" and ?v = "p_value (prom s d)" and ?r = "e_result e"
  note g = good_run [OF s e]
  have r: "?r < length (q_promises ?t)" "e \<in> all_entries ?t"
    using entry_result [OF good_sound [OF g]] good_grows(2) [OF g e(1)] by blast+
  show ?thesis
  proof (cases "if p_status (prom s d) = 1 then e_onFulfilled e else e_onRejected e")
    case None
    have "process_entry behave d e s = (if p_status (prom s d) = 1 then d_resolve ?r (QVal ?v) ?t else d_reject ?r ?v ?t)"
      unfolding process_entry_def Let_def None by simp
    moreover have "good es ?t (d_resolve ?r (QVal ?v) ?t)" "good es ?t (d_reject ?r ?v ?t)"
      using good_resolve [OF good_sound [OF g] r(1)] good_reject [OF good_sound [OF g] r(1)] by simp_all
    ultimately show ?thesis using good_trans [OF g] by simp
  next
    case (Some h)
    then have "h \<in> handlers e" by (auto simp: handlers_def split: if_splits)
    obtain out u where c: "call_handler behave h ?v ?t = (out, u)" by (cases "call_handler behave h ?v ?t")
    have u: "good es s u"
      using good_trans [OF g good_handler [OF good_sound [OF g] r(2) \<open>h \<in> handlers e\<close>, of behave ?v]] c by simp
    have ru: "?r < length (q_promises u)" using entry_result [OF good_sound [OF u]] good_grows(2) [OF u e(1)] .
    note rj = good_reject [OF good_sound [OF u] ru]
    have "process_entry behave d e s = (case out of Inr w \<Rightarrow> if qval_ok u w then d_resolve ?r w u else u
        | Inl x \<Rightarrow> q_logged [LException x] (d_reject ?r x u))"
      unfolding process_entry_def Let_def Some by (simp add: c split: sum.split)
    moreover have "qval_ok u w \<Longrightarrow> good es u (d_resolve ?r w u)" for w
      using good_resolve [OF good_sound [OF u] ru] .
    moreover have "good es u (q_logged [LException x] (d_reject ?r x u))" for x
      by (rule good_trans [OF rj good_logged [OF good_sound [OF rj]]]) simp_all
    ultimately show ?thesis using u good_trans [OF u] by (cases out) simp_all
  qed
qed

lemma good_process_entries:
  "sound es s \<Longrightarrow> set es \<subseteq> all_entries s \<Longrightarrow> distinct (map e_result es) \<Longrightarrow> good [] s (fold (process_entry behave d) es s)"
proof (induction es arbitrary: s)
  case (Cons e es)
  have g: "good es s (process_entry behave d e s)" using Cons.prems by (intro good_process_entry) simp_all
  have "set es \<subseteq> all_entries (process_entry behave d e s)" using Cons.prems(2) good_grows(2) [OF g] by auto
  then have "good [] (process_entry behave d e s) (fold (process_entry behave d) es (process_entry behave d e s))"
    using Cons.prems(3) by (intro Cons.IH [OF good_sound [OF g]]) simp_all
  then show ?case unfolding fold_simps by (rule good_trans [OF g])
qed simp

lemma good_notify_entry:
  assumes s: "sound es s" and e: "e \<in> all_entries s"
  shows "good es s (notify_entry behave v e s)"
proof (cases "e_progressBack e")
  case None
  then show ?thesis using good_notify [OF s entry_result [OF s e]] by (simp add: notify_entry_def)
next
  case (Some h)
  then have "h \<in> handlers e" by (simp add: handlers_def)
  obtain out u where c: "call_handler behave h v s = (out, u)" by (cases "call_handler behave h v s")
  have u: "good es s u" using good_handler [OF s e \<open>h \<in> handlers e\<close>, of behave v] c by simp
  have n: "good es u (d_notify (e_result e) w u)" for w
    using good_notify [OF good_sound [OF u] entry_result [OF good_sound [OF u] good_grows(2) [OF u e]]] .
  have "good es u (q_logged [LException x] u)" for x using good_logged [OF good_sound [OF u]] by simp
  then show ?thesis using Some c u good_trans [OF u n] good_trans [OF u]
    by (simp add: notify_entry_def split: sum.split qval.split)
qed

lemma good_notify_entries:
  "sound es s \<Longrightarrow> set fs \<subseteq> all_entries s \<Longrightarrow> good es s (fold (notify_entry behave v) fs s)"
proof (induction fs arbitrary: s)
  case (Cons e fs)
  have g: "good es s (notify_entry behave v e s)" using Cons.prems by (intro good_notify_entry) simp_all
  have "set fs \<subseteq> all_entries (notify_entry behave v e s)" using Cons.prems(2) good_grows(2) [OF g] by auto
  then show ?case unfolding fold_simps by (intro good_trans [OF g] Cons.IH [OF good_sound [OF g]])
qed simp

section \<open>The queue\<close>

lemma set_nth_concat: "a < length xss \<Longrightarrow> x \<in> set (xss ! a) \<Longrightarrow> x \<in> set (concat xss)"
  using nth_mem [of a xss] by auto

lemma arrays_disjoint:
  "distinct (map f (concat xss)) \<Longrightarrow> a < length xss \<Longrightarrow> b < length xss \<Longrightarrow> x \<in> set (xss ! a) \<Longrightarrow> y \<in> set (xss ! b) \<Longrightarrow>
     f x = f y \<Longrightarrow> a = b"
proof (induction xss arbitrary: a b)
  case (Cons zs zss)
  have "f ` set zs \<inter> f ` set (concat zss) = {}" using Cons.prems(1) by auto
  then have n: "u \<in> set zs \<Longrightarrow> i < length zss \<Longrightarrow> w \<in> set (zss ! i) \<Longrightarrow> f u \<noteq> f w" for u w i
    using set_nth_concat [of i zss w] by blast
  show ?case
    using Cons.prems Cons.IH [of "a - 1" "b - 1"] n [of x "b - 1" y] n [of y "a - 1" x] by (cases a; cases b) auto
qed simp

lemma distinct_nth_concat: "distinct (map f (concat xss)) \<Longrightarrow> a < length xss \<Longrightarrow> distinct (map f (xss ! a))"
proof (induction xss arbitrary: a)
  case (Cons zs zss)
  then show ?case by (cases a) auto
qed simp

text \<open>\<open>taken d ts s\<close>: \<^verbatim>\<open>processQueue\<close> has taken the array of \<open>d\<close> and not yet processed an entry.\<close>

definition taken :: "nat \<Rightarrow> tick list \<Rightarrow> q_state \<Rightarrow> q_state" where
  "taken d ts s = upd_promise d (\<lambda>p. p\<lparr>p_scheduled := False, p_pending := None\<rparr>) (s\<lparr>q_ticks := ts\<rparr>)"

lemma taken_simps [simp]:
  "length (q_promises (taken d ts s)) = length (q_promises s)" "q_arrays (taken d ts s) = q_arrays s"
  "q_ticks (taken d ts s) = ts" "q_log (taken d ts s) = q_log s" "q_flags (taken d ts s) = q_flags s"
  "all_entries (taken d ts s) = all_entries s"
  by (simp_all add: taken_def)

lemma prom_taken: "d < length (q_promises s) \<Longrightarrow>
    prom (taken d ts s) j = (if j = d then (prom s d)\<lparr>p_scheduled := False, p_pending := None\<rparr> else prom s j)"
  by (simp add: taken_def prom_upd)

lemma live_taken:
  assumes "inv_arrays s" "d < length (q_promises s)" "p_pending (prom s d) = Some a"
  shows "live (taken d ts s) b \<longleftrightarrow> live s b \<and> b \<noteq> a"
proof
  assume "live (taken d ts s) b"
  then obtain j where j: "j < length (q_promises s)" "p_pending (prom (taken d ts s) j) = Some b" by (auto simp: live_def)
  then have jd: "j \<noteq> d" "p_pending (prom s j) = Some b" using prom_taken [OF assms(2), of ts j] by (auto split: if_splits)
  then show "live s b \<and> b \<noteq> a" using j(1) inv_arraysD(2) [OF assms(1) j(1) assms(2), of b] assms(3) by (auto simp: live_def)
next
  assume l: "live s b \<and> b \<noteq> a"
  then obtain j where j: "j < length (q_promises s)" "p_pending (prom s j) = Some b" by (auto simp: live_def)
  then have "j \<noteq> d" using l assms(3) by auto
  then have "p_pending (prom (taken d ts s) j) = Some b" using j(2) by (simp add: prom_taken [OF assms(2)])
  then show "live (taken d ts s) b" using j(1) unfolding live_def by auto
qed

lemma taken_arrays:
  assumes "inv_arrays s" "d < length (q_promises s)"
  shows "inv_arrays (taken d ts s)"
proof (rule inv_arraysI, goal_cases)
  case (1 j b)
  then show ?case using inv_arraysD(1) [OF assms(1), of j b] prom_taken [OF assms(2), of ts j] by (cases "j = d") simp_all
next
  case (2 j j' b)
  then show ?case using inv_arraysD(2) [OF assms(1), of j j' b] prom_taken [OF assms(2), of ts j] prom_taken [OF assms(2), of ts j']
    by (cases "j = d"; cases "j' = d") simp_all
next
  case 3
  show ?case using inv_arraysD(3) [OF assms(1)] by simp
next
  case (4 e)
  then show ?case using inv_arraysD(4) [OF assms(1), of e] by simp
qed

lemma taken_ticks:
  assumes "inv_ticks None s" "q_ticks s = TProcess d # ts"
  shows "inv_ticks None (taken d ts s)"
proof -
  note i = inv_ticksD [OF assms(1)]
  have p: "prom (taken d ts s) j = (if j = d then (prom s d)\<lparr>p_scheduled := False, p_pending := None\<rparr> else prom s j)" for j
    using i(4) [of d] assms(2) by (simp add: prom_taken)
  show ?thesis
  proof (rule inv_ticksI, goal_cases)
    case (1 j)
    then show ?case using i(1-3) [of j] assms(2) p [of j] by (cases "j = d") auto
  next
    case (2 j)
    then have "j \<noteq> d" using i(7) assms(2) by auto
    then show ?case using 2 i(4,5) [of j] assms(2) p [of j] by simp
  next
    case (3 b w)
    then show ?case using i(6) [of b w] assms(2) by simp
  next
    case 4
    show ?case using i(7) assms(2) by simp
  next
    case (5 j)
    then show ?case using i(8) [of j] p [of j] by (cases "j = d") simp_all
  qed
qed

lemma taken_runs:
  assumes ia: "inv_arrays s" and ir: "inv_runs [] s" and d: "d < length (q_promises s)" "p_pending (prom s d) = Some a"
  shows "inv_runs (q_arrays s ! a) (taken d ts s)" (is "inv_runs ?es ?t")
proof (rule inv_runsI)
  note r = inv_runsD [OF ir] and l = live_taken [OF ia d]
  have a: "a < length (q_arrays s)" using inv_arraysD(1) [OF ia d] .
  have dj: "b < length (q_arrays s) \<Longrightarrow> g \<in> set (q_arrays s ! b) \<Longrightarrow> e_result g \<in> e_result ` set ?es \<longleftrightarrow> b = a" for b g
    using arrays_disjoint [OF inv_arraysD(3) [OF ia] _ a] by blast
  show "distinct (runs ?t)" using r(1) by simp
  {
    fix q assume "q \<in> set (runs ?t) \<union> e_result ` set ?es"
    then show "q < length (q_promises ?t)" using r(2) [of q] inv_arraysD(4) [OF ia] set_nth_concat [OF a] by auto
  }
  fix b g assume "b < length (q_arrays ?t)" "g \<in> set (q_arrays ?t ! b)"
  then have b: "b < length (q_arrays s)" "g \<in> set (q_arrays s ! b)" by simp_all
  have la: "live s a" using d unfolding live_def by blast
  show "e_result g \<in> set (runs ?t) \<longleftrightarrow> \<not> live ?t b \<and> e_result g \<notin> e_result ` set ?es"
    using r(3) [OF b] la unfolding l dj [OF b] by auto
  assume "live ?t b"
  then show "e_result g \<notin> e_result ` set ?es" unfolding l dj [OF b] by simp
qed

lemma taken_then:
  assumes ia: "inv_arrays s" and it: "inv_then s" and d: "d < length (q_promises s)" "p_pending (prom s d) = Some a"
    and st: "p_status (prom s d) > 0"
  shows "inv_then (taken d ts s)"
proof (rule inv_thenI)
  fix j q assume "LThen j q \<in> set (q_log (taken d ts s))"
  then have "LThen j q \<in> set (q_log s)" by simp
  from inv_thenD [OF it this] obtain b where b: "j < length (q_promises s)" "b < length (q_arrays s)"
    "q \<in> e_result ` set (q_arrays s ! b)" "p_pending (prom s j) = Some b \<or> \<not> live s b \<and> p_status (prom s j) > 0" .
  have "p_pending (prom (taken d ts s) j) = Some b \<or> \<not> live (taken d ts s) b \<and> p_status (prom (taken d ts s) j) > 0"
    using b(4) d(2) st unfolding live_taken [OF ia d] prom_taken [OF d(1)] by (cases "j = d") auto
  with b(1-3) show "j < length (q_promises (taken d ts s)) \<and> (\<exists>b < length (q_arrays (taken d ts s)).
      q \<in> e_result ` set (q_arrays (taken d ts s) ! b) \<and> (p_pending (prom (taken d ts s) j) = Some b \<or>
        \<not> live (taken d ts s) b \<and> p_status (prom (taken d ts s) j) > 0))" unfolding taken_simps by blast
qed

lemma good_taken:
  assumes s: "sound [] s" and tk: "q_ticks s = TProcess d # ts" and pd: "p_pending (prom s d) = Some a"
  shows "good (q_arrays s ! a) s (taken d ts s)"
proof (rule goodI [OF q_invI])
  note q = q_invD [OF soundD(1) [OF s]]
  have d: "d < length (q_promises s)" "p_scheduled (prom s d)" using inv_ticksD(4,5) [OF q(2), of d] tk by simp_all
  show "inv_arrays (taken d ts s)" by (rule taken_arrays [OF q(1) d(1)])
  show "inv_ticks None (taken d ts s)" by (rule taken_ticks [OF q(2) tk])
  show "inv_runs (q_arrays s ! a) (taken d ts s)" by (rule taken_runs [OF q(1,3) d(1) pd])
  show "inv_then (taken d ts s)" by (rule taken_then [OF q(1,4) d(1) pd inv_ticksD(3) [OF q(2) d]])
  show "inv_adopt (taken d ts s)" unfolding taken_simps
    by (rule adopt_mono [OF soundD(2) [OF s]]) (simp_all add: prom_taken [OF d(1)])
  show "keeps s (taken d ts s)" by (rule keepsI) (simp_all add: prom_taken [OF d(1)])
qed

lemma good_drop_notify:
  assumes s: "sound [] s" and tk: "q_ticks s = TNotify a v # ts"
  shows "good [] s (s\<lparr>q_ticks := ts\<rparr>)" (is "good [] s ?t")
proof (rule good_same [OF s q_invI])
  note q = q_invD [OF soundD(1) [OF s]]
  note i = inv_ticksD [OF q(2)]
  show "inv_arrays ?t" using q(1) by (subst inv_arrays_cong [of _ s]) simp_all
  show "inv_runs [] ?t" using q(3) by (subst inv_runs_cong [of _ s]) simp_all
  show "inv_then ?t" using q(4) by (subst inv_then_cong [of _ s]) simp_all
  show "inv_ticks None ?t"
  proof (rule inv_ticksI, goal_cases)
    case (1 j)
    then show ?case using i(1-3) [of j] tk by simp
  next
    case (2 j)
    then show ?case using i(4,5) [of j] tk by simp
  next
    case (3 b w)
    then show ?case using i(6) [of b w] tk by simp
  next
    case 4
    show ?case using i(7) tk by simp
  next
    case (5 j)
    then show ?case using i(8) [of j] by simp
  qed
qed simp_all

text \<open>A tick never throws, and it keeps the invariants.\<close>

lemma run_tick_good:
  assumes s: "sound [] s"
  obtains t where "run_tick behave s = Inr t" "good [] s t"
proof (cases "q_ticks s")
  case Nil
  then show thesis using that [of s] s by (simp add: run_tick_def)
next
  case (Cons k ts)
  note i = inv_ticksD [OF q_invD(2) [OF soundD(1) [OF s]]]
  show thesis
  proof (cases k)
    case (TProcess d)
    then have tk: "q_ticks s = TProcess d # ts" using Cons by simp
    then obtain a where a: "p_pending (prom s d) = Some a" using i(2) [of d] i(4,5) [of d] by auto
    have d: "d < length (q_promises s)" using i(4) [of d] tk by simp
    have g: "good (q_arrays s ! a) s (taken d ts s)" by (rule good_taken [OF s tk a])
    have ar: "a < length (q_arrays s)" using inv_arraysD(1) [OF soundD(3) [OF s] d a] .
    let ?t = "fold (process_entry behave d) (q_arrays s ! a) (taken d ts s)"
    have "good [] (taken d ts s) ?t"
    proof (rule good_process_entries [OF good_sound [OF g]])
      show "set (q_arrays s ! a) \<subseteq> all_entries (taken d ts s)"
        using set_nth_concat [OF ar] unfolding taken_simps all_entries_def by blast
      show "distinct (map e_result (q_arrays s ! a))" by (rule distinct_nth_concat [OF inv_arraysD(3) [OF soundD(3) [OF s]] ar])
    qed
    moreover have "run_tick behave s = Inr ?t" by (simp add: run_tick_def tk processQueue_def a Let_def taken_def)
    ultimately show thesis using that good_trans [OF g] by blast
  next
    case (TNotify a v)
    then have tk: "q_ticks s = TNotify a v # ts" using Cons by simp
    note g = good_drop_notify [OF s tk]
    have ar: "a < length (q_arrays s)" using i(6) [of a v] tk by simp
    let ?t = "fold (notify_entry behave v) (q_arrays s ! a) (s\<lparr>q_ticks := ts\<rparr>)"
    have "set (q_arrays s ! a) \<subseteq> all_entries (s\<lparr>q_ticks := ts\<rparr>)"
      using set_nth_concat [OF ar] unfolding all_entries_simps(6) unfolding all_entries_def by blast
    then have "good [] (s\<lparr>q_ticks := ts\<rparr>) ?t" by (rule good_notify_entries [OF good_sound [OF g]])
    moreover have "run_tick behave s = Inr ?t" by (simp add: run_tick_def tk)
    ultimately show thesis using that good_trans [OF g] by blast
  qed
qed

section \<open>Runs\<close>

text \<open>A step: a caller uses \<^verbatim>\<open>$q\<close>, or the next tick runs.\<close>

inductive q_step :: "behaviour \<Rightarrow> q_state \<Rightarrow> q_state \<Rightarrow> bool" for behave where
  q_op: "q_step behave s (exec_op op s)"
| q_tick: "run_tick behave s = Inr t \<Longrightarrow> q_step behave s t"

inductive_cases q_stepE: "q_step behave s t"

lemma q_step_good: "sound [] s \<Longrightarrow> q_step behave s t \<Longrightarrow> good [] s t"
  by (erule q_stepE) (auto intro: good_op elim: run_tick_good [of s behave])

lemma q_steps_good: "(q_step behave)\<^sup>*\<^sup>* s t \<Longrightarrow> sound [] s \<Longrightarrow> good [] s t"
proof (induction rule: rtranclp_induct)
  case (step t u)
  then show ?case using good_trans q_step_good [OF good_sound] by blast
qed

lemma sound_init: "sound [] q_init"
  using q_inv_init by (simp add: good_def adopt_ok_def adoptions_def all_entries_def q_init_def)

lemma reachable_sound: "(q_step behave)\<^sup>*\<^sup>* q_init s \<Longrightarrow> sound [] s"
  using q_steps_good [OF _ sound_init] good_sound by blast

lemma count_distinct: "distinct xs \<Longrightarrow> count_list xs x = (if x \<in> set xs then 1 else 0)"
  by (induction xs) auto

text \<open>Running up to \<open>n\<close> ticks.\<close>

fun drain :: "nat \<Rightarrow> behaviour \<Rightarrow> q_state \<Rightarrow> q_state" where
  "drain 0 behave s = s"
| "drain (Suc n) behave s = (case run_tick behave s of Inl _ \<Rightarrow> s | Inr t \<Rightarrow> drain n behave t)"

lemma drain_steps: "(q_step behave)\<^sup>*\<^sup>* s (drain n behave s)"
proof (induction n arbitrary: s)
  case (Suc n)
  show ?case using converse_rtranclp_into_rtranclp [OF q_tick Suc.IH] by (cases "run_tick behave s") simp_all
qed simp

lemma ops_steps: "(q_step behave)\<^sup>*\<^sup>* s (fold exec_op ops s)"
proof (induction ops arbitrary: s)
  case (Cons op ops)
  show ?case unfolding fold_simps by (rule converse_rtranclp_into_rtranclp [OF q_op Cons.IH])
qed simp

text \<open>
  An example: promise 0 has a callback and is resolved with promise 1, which is resolved with a number. The
  first tick settles promise 0, the second one calls back.
\<close>

definition ex_behave :: behaviour where
  "ex_behave i v = ([], Inr (QVal v))"

definition ex_settled :: q_state where
  "ex_settled = fold exec_op [ODefer, ODefer, OThen 0 (Some 7) None None, OResolve 0 (QPromise 1), OResolve 1 (QVal (JNum 5))] q_init"

definition ex_called :: q_state where
  "ex_called = drain 2 ex_behave ex_settled"

lemma ex_steps: "(q_step ex_behave)\<^sup>*\<^sup>* q_init ex_settled" "(q_step ex_behave)\<^sup>*\<^sup>* ex_settled ex_called"
  unfolding ex_settled_def ex_called_def by (rule ops_steps, rule drain_steps)

text \<open>
  C19. Calling back, once: in every state that callers and ticks can produce, for each function registered
  with \<^verbatim>\<open>then\<close>, its entry has been processed at most once, never while the promise was still open, and
  exactly once when the promise is settled and no tick is waiting. This includes the entries that
  callbacks register while the queue runs, and promises resolved with promises.
\<close>

theorem then_processed_once:
  assumes "(q_step behave)\<^sup>*\<^sup>* q_init s" "LThen d r \<in> set (q_log s)"
  shows "count_list (runs s) r \<le> 1 \<and> (p_status (prom s d) \<le> 0 \<longrightarrow> count_list (runs s) r = 0) \<and>
    (q_ticks s = [] \<longrightarrow> p_status (prom s d) > 0 \<longrightarrow> count_list (runs s) r = 1)"
proof -
  note q = q_invD [OF soundD(1) [OF reachable_sound [OF assms(1)]]]
  note r = inv_runsD [OF q(3)]
  obtain a where a: "d < length (q_promises s)" "a < length (q_arrays s)" "r \<in> e_result ` set (q_arrays s ! a)"
    "p_pending (prom s d) = Some a \<or> \<not> live s a \<and> p_status (prom s d) > 0" using inv_thenD [OF q(4) assms(2)] .
  have ran: "r \<in> set (runs s) \<longleftrightarrow> \<not> live s a" using a(2,3) r(3) [of a] by auto
  note one = count_distinct [OF r(1), of r]
  have "p_status (prom s d) \<le> 0 \<Longrightarrow> live s a" using a(1,4) by (auto simp: live_def)
  moreover have "\<not> live s a" if "q_ticks s = []" "p_status (prom s d) > 0"
  proof -
    have "p_pending (prom s d) = None"
      using inv_ticksD(1,8) [OF q(2) a(1)] that by (cases "p_pending (prom s d)") auto
    then show ?thesis using a(4) by simp
  qed
  ultimately show ?thesis using one ran by auto
qed

theorem then_processed_once_witness:
  "LThen 0 2 \<in> set (q_log ex_called) \<and> p_status (prom ex_called 0) = 1 \<and> q_ticks ex_called = [] \<and> count_list (runs ex_called) 2 = 1"
proof -
  have e: "LThen 0 2 \<in> set (q_log ex_called)" "p_status (prom ex_called 0) = 1" "q_ticks ex_called = []" by code_simp+
  show ?thesis using then_processed_once [OF rtranclp_trans [OF ex_steps] e(1)] e by simp
qed

text \<open>
  C21. A promise is settled for good: once its status is 1 or 2, no operation of a caller and no tick changes its
  status or its value. A tick itself never throws.
\<close>

theorem settled_is_final:
  assumes "(q_step behave)\<^sup>*\<^sup>* q_init s" "(q_step behave)\<^sup>*\<^sup>* s t" "d < length (q_promises s)" "p_status (prom s d) > 0"
  shows "p_status (prom t d) = p_status (prom s d) \<and> p_value (prom t d) = p_value (prom s d) \<and>
    (\<exists>u. run_tick behave t = Inr u)"
proof -
  have g: "good [] s t" by (rule q_steps_good [OF assms(2) reachable_sound [OF assms(1)]])
  obtain u where "run_tick behave t = Inr u" using run_tick_good [OF good_sound [OF g]] .
  then show ?thesis using g assms(3,4) by (simp add: good_def keeps_def)
qed

theorem settled_is_final_witness:
  "p_status (prom ex_settled 1) = 1 \<and> p_status (prom ex_called 1) = 1 \<and> p_value (prom ex_called 1) = JNum 5"
proof -
  have e: "1 < length (q_promises ex_settled)" "p_status (prom ex_settled 1) = 1" "p_value (prom ex_settled 1) = JNum 5" by code_simp+
  show ?thesis using settled_is_final [OF ex_steps e(1)] e(2,3) by simp
qed

text \<open>
  The variables of \<^verbatim>\<open>all\<close>: whatever the order in which the values arrive, the counter is the number of values
  missing, and only the last one finds it at one.
\<close>

lemma all_deliveries:
  "distinct (map fst kvs) \<Longrightarrow> a_results c = [] \<Longrightarrow>
     a_results (fold (\<lambda>(k, v). snd \<circ> all_deliver k v) kvs c) = kvs \<and>
     a_counter (fold (\<lambda>(k, v). snd \<circ> all_deliver k v) kvs c) = a_counter c - int (length kvs)"
proof (induction kvs rule: rev_induct)
  case (snoc kv kvs)
  then show ?case by (cases kv) (auto simp: all_deliver_def ohas_iff oset_new Let_def)
qed simp

lemma all_last: "fst (all_deliver k v c) \<longleftrightarrow> \<not> ohas (a_results c) k \<and> a_counter c = 1"
  by (simp add: all_deliver_def Let_def)

text \<open>
  \<^verbatim>\<open>main.js\<close> resolves its promises with plain values and never rejects them. Seen that way a promise is what
  \<open>Main_App\<close> takes it for.
\<close>

definition fulfilled :: "q_state \<Rightarrow> nat \<Rightarrow> js option" where
  "fulfilled s d = (if p_status (prom s d) = 1 then Some (p_value (prom s d)) else None)"

lemma resolve_refines:
  "d < length (q_promises s) \<Longrightarrow> p_status (prom s d) = 0 \<or> p_status (prom s d) = 1 \<Longrightarrow>
     fulfilled (d_resolve d (QVal v) s) d = resolve v (fulfilled s d)"
  by (auto simp: fulfilled_def d_resolve_def d_resolve_now_def resolve_def settle_def prom_upd Let_def)

end
